(* ===== verification/Prelude.thy ===== *)
theory Prelude
  imports Main "HOL-Library.Word" "HOL-Library.Monad_Syntax"
begin

text \<open>
  Shared vocabulary of the JacobOS development: the integer types of \<^verbatim>\<open>cpu/types.h\<close> as words,
  flat byte memory with little-endian 32-bit loads and stores, byte buffers (the local
  \<^verbatim>\<open>u8 buf[512]\<close> arrays of the kernel) with the same accesses, and the generic lemmas on
  lists, words and options that the component theories use.

  Functions of the kernel that may not return, or whose C behaviour is undefined on some input,
  have an \<open>option\<close> result: \<open>None\<close> stands for "does not return a value here".
\<close>

unbundle bit_operations_syntax

section \<open>Integer types\<close>

type_synonym u8 = "8 word"
type_synonym u16 = "16 word"
type_synonym u32 = "32 word"

text \<open>A C \<^verbatim>\<open>int\<close> is modelled by its mathematical value; where the code can overflow it, the
  bounds below are checked in the model.\<close>

abbreviation (input) INT_MIN :: int where "INT_MIN \<equiv> - 2147483648"
abbreviation (input) INT_MAX :: int where "INT_MAX \<equiv> 2147483647"

type_synonym mem = "u32 \<Rightarrow> u8"

named_theorems bytes_simps \<open>accesses to memory and buffers\<close>

section \<open>Little-endian words\<close>

definition cat32 :: "u8 \<Rightarrow> u8 \<Rightarrow> u8 \<Rightarrow> u8 \<Rightarrow> u32" where
  "cat32 b0 b1 b2 b3 =
     (ucast b0 OR push_bit 8 (ucast b1)) OR (push_bit 16 (ucast b2) OR push_bit 24 (ucast b3))"

definition byte_of :: "nat \<Rightarrow> u32 \<Rightarrow> u8" where
  "byte_of k w = ucast (drop_bit (8 * k) w)"

lemma bit_u8_ge [simp]: "8 \<le> n \<Longrightarrow> \<not> bit (b :: u8) n"
  by (auto dest: bit_imp_le_length)

lemma cat32_byte_of [simp]:
  "cat32 (byte_of 0 w) (byte_of 1 w) (byte_of 2 w) (byte_of 3 w) = w"
  unfolding cat32_def byte_of_def
  by (rule bit_word_eqI) (auto simp: bit_simps not_less, rule ccontr, simp)

lemma cat32_byte_of_Suc [simp]:
  "cat32 (byte_of 0 w) (byte_of (Suc 0) w) (byte_of 2 w) (byte_of 3 w) = w"
  using cat32_byte_of by simp

lemma byte_of_cat32 [simp]:
  shows "byte_of 0 (cat32 a b c d) = a" and "byte_of (Suc 0) (cat32 a b c d) = b"
    and "byte_of 2 (cat32 a b c d) = c" and "byte_of 3 (cat32 a b c d) = d"
  unfolding cat32_def byte_of_def by (rule bit_word_eqI, auto simp: bit_simps)+

lemma cat32_zero [simp]: "cat32 0 0 0 0 = 0"
  by (simp add: cat32_def)

lemma byte_of_zero [simp]: "byte_of k 0 = 0"
  by (simp add: byte_of_def)

lemma cat32_inject [simp]:
  "cat32 a b c d = cat32 a' b' c' d' \<longleftrightarrow> a = a' \<and> b = b' \<and> c = c' \<and> d = d'"
  by (metis byte_of_cat32)

section \<open>Naturals as addresses\<close>

lemma unat_of_nat_u32 [simp]: "n < 2 ^ 32 \<Longrightarrow> unat (word_of_nat n :: u32) = n"
  by (simp add: unsigned_of_nat take_bit_nat_eq_self)

lemma of_nat_u32_inj: "m < 2 ^ 32 \<Longrightarrow> n < 2 ^ 32 \<Longrightarrow> (word_of_nat m :: u32) = word_of_nat n \<longleftrightarrow> m = n"
  by (metis unat_of_nat_u32)

lemma of_nat_u32_less: "m < 2 ^ 32 \<Longrightarrow> n < 2 ^ 32 \<Longrightarrow> (word_of_nat m :: u32) < word_of_nat n \<longleftrightarrow> m < n"
  by (simp add: word_less_nat_alt)

lemma of_nat_u32_le: "m < 2 ^ 32 \<Longrightarrow> n < 2 ^ 32 \<Longrightarrow> (word_of_nat m :: u32) \<le> word_of_nat n \<longleftrightarrow> m \<le> n"
  by (simp add: word_le_nat_alt)

lemma unat_u32_lt [simp]: "unat (w :: u32) < 4294967296"
  using unsigned_less [of w] by simp

section \<open>Flat memory\<close>

definition ld32 :: "mem \<Rightarrow> u32 \<Rightarrow> u32" where
  "ld32 m a = cat32 (m a) (m (a + 1)) (m (a + 2)) (m (a + 3))"

definition st32 :: "u32 \<Rightarrow> u32 \<Rightarrow> mem \<Rightarrow> mem" where
  "st32 a w m = m(a := byte_of 0 w, a + 1 := byte_of 1 w, a + 2 := byte_of 2 w, a + 3 := byte_of 3 w)"

definition bytes :: "mem \<Rightarrow> u32 \<Rightarrow> nat \<Rightarrow> u8 list" where
  "bytes m a n = map (\<lambda>i. m (a + of_nat i)) [0..<n]"

lemma length_bytes [simp]: "length (bytes m a n) = n"
  by (simp add: bytes_def)

lemma nth_bytes [simp]: "i < n \<Longrightarrow> bytes m a n ! i = m (a + of_nat i)"
  by (simp add: bytes_def)

lemma ld32_st32_same [simp]: "ld32 (st32 a w m) a = w"
  by (simp add: ld32_def st32_def)

text \<open>Two four-byte cells at natural addresses are apart when their ranges are.\<close>

lemma st32_other:
  assumes "b < 2 ^ 32" and "a + 4 \<le> 2 ^ 32" and "b < a \<or> a + 4 \<le> b"
  shows "st32 (word_of_nat a) w m (word_of_nat b) = m (word_of_nat b)"
proof -
  have "(word_of_nat b :: u32) \<noteq> word_of_nat (a + k)" if "k < 4" for k
    using assms that by (subst of_nat_u32_inj) auto
  from this [of 0] this [of 1] this [of 2] this [of 3] show ?thesis
    by (simp add: st32_def add.commute)
qed

lemma ld32_st32_other [bytes_simps]:
  assumes "b + 4 \<le> 2 ^ 32" and "a + 4 \<le> 2 ^ 32" and "b + 4 \<le> a \<or> a + 4 \<le> b"
  shows "ld32 (st32 (word_of_nat a) w m) (word_of_nat b) = ld32 m (word_of_nat b)"
proof -
  have "st32 (word_of_nat a) w m (word_of_nat (b + k)) = m (word_of_nat (b + k))" if "k < 4" for k
    using assms that by (intro st32_other) auto
  from this [of 0] this [of 1] this [of 2] this [of 3] show ?thesis
    by (simp add: ld32_def add.commute)
qed

text \<open>The same accesses at natural addresses; the component proofs about memory use these, so that
  disjointness of cells is linear arithmetic on \<open>nat\<close>.\<close>

definition byte_at :: "mem \<Rightarrow> nat \<Rightarrow> u8" where
  "byte_at m x = m (word_of_nat x)"

definition ldn :: "mem \<Rightarrow> nat \<Rightarrow> u32" where
  "ldn m a = ld32 m (word_of_nat a)"

definition stn :: "nat \<Rightarrow> u32 \<Rightarrow> mem \<Rightarrow> mem" where
  "stn a w m = st32 (word_of_nat a) w m"

lemma ldn_stn_same [simp]: "ldn (stn a w m) a = w"
  by (simp add: ldn_def stn_def)

lemma ldn_stn_other [bytes_simps]:
  "b + 4 \<le> a \<or> a + 4 \<le> b \<Longrightarrow> b + 4 \<le> 2 ^ 32 \<Longrightarrow> a + 4 \<le> 2 ^ 32 \<Longrightarrow> ldn (stn a w m) b = ldn m b"
  by (simp add: ldn_def stn_def ld32_st32_other)

lemma byte_at_stn_other [bytes_simps]:
  "x < a \<or> a + 4 \<le> x \<Longrightarrow> x < 2 ^ 32 \<Longrightarrow> a + 4 \<le> 2 ^ 32 \<Longrightarrow> byte_at (stn a w m) x = byte_at m x"
  by (simp add: byte_at_def stn_def st32_other)

lemma ldn_bytes: "ldn m a = cat32 (byte_at m a) (byte_at m (a + 1)) (byte_at m (a + 2)) (byte_at m (a + 3))"
  by (simp add: ldn_def ld32_def byte_at_def add.commute)

lemma ldn_cong: "(\<And>j. j < 4 \<Longrightarrow> byte_at m' (a + j) = byte_at m (a + j)) \<Longrightarrow> ldn m' a = ldn m a"
  unfolding ldn_bytes by (metis add.right_neutral less_numeral_extra(4) numeral_less_iff one_less_numeral_iff
      semiring_norm(76,77,78,81) zero_less_numeral)

lemma ld32_off: "ld32 m (word_of_nat a) = ldn m a" "ld32 m (word_of_nat a + numeral k) = ldn m (a + numeral k)"
  by (simp_all add: ldn_def)

lemma st32_off: "st32 (word_of_nat a) w m = stn a w m" "st32 (word_of_nat a + numeral k) w m = stn (a + numeral k) w m"
  by (simp_all add: stn_def)

section \<open>Byte buffers\<close>

definition le32 :: "u32 \<Rightarrow> u8 list" where
  "le32 w = [byte_of 0 w, byte_of 1 w, byte_of 2 w, byte_of 3 w]"

definition get32 :: "u8 list \<Rightarrow> nat \<Rightarrow> u32" where
  "get32 xs off = cat32 (xs ! off) (xs ! (off + 1)) (xs ! (off + 2)) (xs ! (off + 3))"

text \<open>Overwrite a part of a buffer, as \<^verbatim>\<open>memcpy(buf + off, ys, n)\<close> does.\<close>

definition put_at :: "nat \<Rightarrow> 'a list \<Rightarrow> 'a list \<Rightarrow> 'a list" where
  "put_at off ys xs = take off xs @ ys @ drop (off + length ys) xs"

lemma length_le32 [simp]: "length (le32 w) = 4"
  by (simp add: le32_def)

lemma length_put_at [simp]: "off + length ys \<le> length xs \<Longrightarrow> length (put_at off ys xs) = length xs"
  by (simp add: put_at_def)

lemma nth_put_at:
  assumes "off + length ys \<le> length xs" and "i < length xs"
  shows "put_at off ys xs ! i = (if off \<le> i \<and> i < off + length ys then ys ! (i - off) else xs ! i)"
  using assms by (auto simp: put_at_def nth_append min_def)

lemma take_drop_put_at_same [simp]:
  "off + length ys \<le> length xs \<Longrightarrow> take (length ys) (drop off (put_at off ys xs)) = ys"
  by (simp add: put_at_def)

lemma take_drop_put_at_other:
  assumes "off + length ys \<le> length xs" and "o' + n \<le> off \<or> off + length ys \<le> o'"
  shows "take n (drop o' (put_at off ys xs)) = take n (drop o' xs)"
  using assms by (intro nth_equalityI) (auto simp: nth_put_at)

lemma get32_le32 [simp]: "get32 (le32 w) 0 = w"
  by (simp add: get32_def le32_def)

lemma get32_put_at_same [simp]: "off + 4 \<le> length xs \<Longrightarrow> get32 (put_at off (le32 w) xs) off = w"
  by (simp add: get32_def nth_put_at) (simp add: le32_def)

lemma get32_put_at_other:
  "o' + 4 \<le> length xs \<Longrightarrow> off + length ys \<le> length xs \<Longrightarrow> o' + 4 \<le> off \<or> off + length ys \<le> o' \<Longrightarrow>
     get32 (put_at off ys xs) o' = get32 xs o'"
  by (auto simp: get32_def nth_put_at)

lemma get32_take_drop: "k + 4 \<le> n \<Longrightarrow> off + n \<le> length xs \<Longrightarrow> get32 (take n (drop off xs)) k = get32 xs (off + k)"
  by (simp add: get32_def add.assoc)

lemma get32_replicate_zero [simp]: "k + 4 \<le> n \<Longrightarrow> get32 (replicate n 0) k = 0"
  by (simp add: get32_def)

text \<open>The cast of an unsigned word to \<^verbatim>\<open>int\<close>.\<close>

lemma sint_small: "unat (w :: u32) < 2147483648 \<Longrightarrow> sint w = int (unat w)"
proof -
  assume "unat w < 2147483648"
  then have "int (unat w) < 2147483648" by linarith
  moreover have "- 2147483648 \<le> uint w" using uint_ge_0 [of w] by linarith
  ultimately show ?thesis by (simp add: sint_uint) (rule signed_take_bit_int_eq_self, auto)
qed

section \<open>Calls that return\<close>

text \<open>A computation that may not return or be undefined is an \<open>option\<close>; \<open>wp m P\<close> says that \<open>m\<close> returns
  and its result satisfies \<open>P\<close>.\<close>

definition wp :: "'a option \<Rightarrow> ('a \<Rightarrow> bool) \<Rightarrow> bool" where
  "wp m P \<longleftrightarrow> (\<exists>x. m = Some x \<and> P x)"

lemma wp_Some [simp]: "wp (Some x) P = P x"
  by (simp add: wp_def)

lemma wp_bind: "wp m Q \<Longrightarrow> (\<And>x. Q x \<Longrightarrow> wp (f x) P) \<Longrightarrow> wp (m \<bind> f) P"
  by (auto simp: wp_def)

lemma wp_mono: "wp m Q \<Longrightarrow> (\<And>x. Q x \<Longrightarrow> P x) \<Longrightarrow> wp m P"
  by (auto simp: wp_def)

lemma wpD: "wp m P \<Longrightarrow> m = Some x \<Longrightarrow> P x"
  by (simp add: wp_def)

end
