(* ===== verification/Bitset.thy ===== *)
theory Bitset
  imports Prelude
begin

text \<open>
  The interface of a bitmap of \<open>n\<close> flags and what its clients rely on. JacobOS has two bitmaps:
  the physical frame bitmap of \<^verbatim>\<open>mem/pmm.c\<close> (32-bit words) and the data block bitmap of
  \<^verbatim>\<open>fs/sfs.c\<close> (bytes of a disk block); both interpret the locale and both allocate by taking
  the first clear flag.
\<close>

section \<open>Bits of a word\<close>

text \<open>\<^verbatim>\<open>1u << k\<close> is \<open>push_bit k 1\<close>, which the simplifier writes \<open>2 ^ k\<close>.\<close>

lemma and_exp_eq_0 [simp]: "(w :: 'a :: len word) AND 2 ^ k = 0 \<longleftrightarrow> \<not> bit w k"
  by (simp add: and_exp_eq_0_iff_not_bit)

lemma bit_or_exp: "k < LENGTH('a) \<Longrightarrow> bit ((w :: 'a :: len word) OR 2 ^ k) j \<longleftrightarrow> j = k \<or> bit w j"
  by (auto simp: bit_simps)

lemma bit_and_not_exp: "bit ((w :: 'a :: len word) AND NOT (2 ^ k)) j \<longleftrightarrow> j \<noteq> k \<and> bit w j"
  by (auto simp: bit_simps dest: bit_imp_le_length)

lemma less_exp_no_bit: "w < 2 ^ k \<Longrightarrow> k \<le> n \<Longrightarrow> \<not> bit (w :: 'a :: len word) n"
proof
  assume w: "w < 2 ^ k" and k: "k \<le> n" and b: "bit w n"
  then have l: "n < LENGTH('a)" by (simp add: bit_imp_le_length)
  have "take_bit k w = w" using w by (simp add: take_bit_eq_mask less_mask_eq)
  then show False using b k by (metis bit_take_bit_iff leD)
qed

lemma div_mod_eq_iff: "0 < (k :: nat) \<Longrightarrow> i div k = j div k \<and> i mod k = j mod k \<longleftrightarrow> i = j"
  by (metis div_mult_mod_eq)

section \<open>The interface\<close>

definition flags_on :: "(nat \<Rightarrow> bool) \<Rightarrow> nat \<Rightarrow> nat set" where
  "flags_on t n = {i. i < n \<and> t i}"

definition first_off :: "(nat \<Rightarrow> bool) \<Rightarrow> nat \<Rightarrow> nat option" where
  "first_off t n = List.find (\<lambda>i. \<not> t i) [0..<n]"

lemma finite_flags_on [simp]: "finite (flags_on t n)"
  by (simp add: flags_on_def)

lemma flags_on_bound: "flags_on t n \<subseteq> {..<n}"
  by (auto simp: flags_on_def)

lemma card_flags_on: "card (flags_on t n) \<le> n"
  using card_mono [OF _ flags_on_bound] by fastforce

lemma first_off_None: "first_off t n = None \<longleftrightarrow> flags_on t n = {..<n}"
  by (auto simp: first_off_def flags_on_def find_None_iff)

lemma first_off_SomeD:
  assumes "first_off t n = Some f"
  shows "f < n" and "\<not> t f" and "\<And>j. j < f \<Longrightarrow> t j"
proof -
  from assms obtain k where "k < length [0..<n]" "\<not> t ([0..<n] ! k)" "f = [0..<n] ! k"
      "\<forall>j<k. \<not> (\<not> t ([0..<n] ! j))"
    unfolding first_off_def find_Some_iff by blast
  then show "f < n" and "\<not> t f" and "\<And>j. j < f \<Longrightarrow> t j" by auto
qed

text \<open>The scan that both allocators write as a loop with an early return.\<close>

fun scan_off :: "(nat \<Rightarrow> bool) \<Rightarrow> nat \<Rightarrow> nat \<Rightarrow> nat option" where
  "scan_off t 0 i = None"
| "scan_off t (Suc k) i = (if \<not> t i then Some i else scan_off t k (Suc i))"

lemma scan_off_find: "scan_off t k i = List.find (\<lambda>i. \<not> t i) [i..<i + k]"
proof (induction k arbitrary: i)
  case (Suc k)
  have "[i..<i + Suc k] = i # [Suc i..<Suc i + k]" by (simp add: upt_conv_Cons del: upt_Suc)
  then show ?case using Suc.IH [of "Suc i"] by simp
qed simp

lemma scan_off_first_off: "scan_off t n 0 = first_off t n"
  by (simp add: scan_off_find first_off_def)

locale bitset =
  fixes tst :: "'b \<Rightarrow> nat \<Rightarrow> bool"
    and put :: "nat \<Rightarrow> 'b \<Rightarrow> 'b"
    and clr :: "nat \<Rightarrow> 'b \<Rightarrow> 'b"
    and wf :: "'b \<Rightarrow> bool"
    and n :: nat
  assumes wf_put: "wf b \<Longrightarrow> i < n \<Longrightarrow> wf (put i b)"
    and wf_clr: "wf b \<Longrightarrow> i < n \<Longrightarrow> wf (clr i b)"
    and tst_put: "wf b \<Longrightarrow> i < n \<Longrightarrow> j < n \<Longrightarrow> tst (put i b) j \<longleftrightarrow> i = j \<or> tst b j"
    and tst_clr: "wf b \<Longrightarrow> i < n \<Longrightarrow> j < n \<Longrightarrow> tst (clr i b) j \<longleftrightarrow> i \<noteq> j \<and> tst b j"
begin

lemma on_put: "wf b \<Longrightarrow> i < n \<Longrightarrow> flags_on (tst (put i b)) n = insert i (flags_on (tst b) n)"
  by (auto simp: flags_on_def tst_put)

lemma on_clr: "wf b \<Longrightarrow> i < n \<Longrightarrow> flags_on (tst (clr i b)) n = flags_on (tst b) n - {i}"
  by (auto simp: flags_on_def tst_clr)

lemma card_put: "wf b \<Longrightarrow> i < n \<Longrightarrow> \<not> tst b i \<Longrightarrow>
  card (flags_on (tst (put i b)) n) = Suc (card (flags_on (tst b) n))"
  by (simp add: on_put) (subst card_insert_disjoint, auto simp: flags_on_def)

lemma card_clr: "wf b \<Longrightarrow> i < n \<Longrightarrow> tst b i \<Longrightarrow>
  Suc (card (flags_on (tst (clr i b)) n)) = card (flags_on (tst b) n)"
proof -
  assume "wf b" "i < n" "tst b i"
  then have "i \<in> flags_on (tst b) n" by (simp add: flags_on_def)
  then show ?thesis using \<open>wf b\<close> \<open>i < n\<close> card_Suc_Diff1 [of "flags_on (tst b) n" i] by (simp add: on_clr)
qed

text \<open>Taking the first clear flag and clearing it again leaves the same flags.\<close>

lemma on_put_clr: "wf b \<Longrightarrow> first_off (tst b) n = Some f \<Longrightarrow>
  flags_on (tst (clr f (put f b))) n = flags_on (tst b) n"
  by (subst on_clr, simp_all add: on_put wf_put first_off_SomeD)
    (auto simp: flags_on_def dest: first_off_SomeD)

end

end
