(* ===== verification/Pmm.thy ===== *)
theory Pmm
  imports Bitset
begin

text \<open>
  \<^verbatim>\<open>mem/pmm.c\<close>: the physical frame allocator, a bitmap of 8192 frames in 256 words and a count
  of used frames. Frame numbers are naturals (the code's \<^verbatim>\<open>u32\<close> counters stay below 8192); the
  count and the addresses are 32-bit words.
\<close>

section \<open>Model\<close>

abbreviation (input) "FRAME_SIZE \<equiv> 4096 :: u32"
abbreviation (input) "PHYS_MEM_SIZE \<equiv> 0x2000000 :: u32"
abbreviation (input) "PMM_RESERVED_END \<equiv> 0xC00000 :: u32"
abbreviation (input) "NUM_FRAMES \<equiv> 8192 :: nat"

record pmm =
  bitmap :: "u32 list"
  used_frames :: u32

definition set_frame :: "nat \<Rightarrow> u32 list \<Rightarrow> u32 list" where
  "set_frame frame bm = bm[frame div 32 := bm ! (frame div 32) OR push_bit (frame mod 32) 1]"

definition clear_frame :: "nat \<Rightarrow> u32 list \<Rightarrow> u32 list" where
  "clear_frame frame bm = bm[frame div 32 := bm ! (frame div 32) AND NOT (push_bit (frame mod 32) 1)]"

definition test_frame :: "u32 list \<Rightarrow> nat \<Rightarrow> bool" where
  "test_frame bm frame \<longleftrightarrow> bm ! (frame div 32) AND push_bit (frame mod 32) 1 \<noteq> 0"

fun pmm_reserve :: "nat \<Rightarrow> nat \<Rightarrow> pmm \<Rightarrow> pmm" where
  "pmm_reserve 0 i p = p"
| "pmm_reserve (Suc k) i p =
     pmm_reserve k (Suc i) (p\<lparr>bitmap := set_frame i (bitmap p), used_frames := used_frames p + 1\<rparr>)"

definition pmm_init :: pmm where
  "pmm_init =
     (let p = \<lparr>bitmap = replicate (NUM_FRAMES div 32) 0, used_frames = 0\<rparr>;
          reserved = PMM_RESERVED_END div FRAME_SIZE
      in pmm_reserve (unat reserved) 0 p)"

fun pmm_scan :: "nat \<Rightarrow> nat \<Rightarrow> pmm \<Rightarrow> u32 \<times> pmm" where
  "pmm_scan 0 i p = (0, p)"
| "pmm_scan (Suc k) i p =
     (if \<not> test_frame (bitmap p) i
      then (word_of_nat i * FRAME_SIZE, p\<lparr>bitmap := set_frame i (bitmap p), used_frames := used_frames p + 1\<rparr>)
      else pmm_scan k (Suc i) p)"

definition pmm_alloc_frame :: "pmm \<Rightarrow> u32 \<times> pmm" where
  "pmm_alloc_frame p = pmm_scan NUM_FRAMES 0 p"

definition pmm_free_frame :: "u32 \<Rightarrow> pmm \<Rightarrow> pmm" where
  "pmm_free_frame addr p =
     (let frame = unat (addr div FRAME_SIZE)
      in if frame \<ge> NUM_FRAMES then p
         else if test_frame (bitmap p) frame
         then p\<lparr>bitmap := clear_frame frame (bitmap p), used_frames := used_frames p - 1\<rparr>
         else p)"

definition pmm_total_frames :: u32 where
  "pmm_total_frames = word_of_nat NUM_FRAMES"

definition pmm_used_frames :: "pmm \<Rightarrow> u32" where
  "pmm_used_frames p = used_frames p"

section \<open>The bitmap as a set of frames\<close>

abbreviation frames :: "pmm \<Rightarrow> nat set" where
  "frames p \<equiv> flags_on (test_frame (bitmap p)) NUM_FRAMES"

abbreviation bm_ok :: "u32 list \<Rightarrow> bool" where
  "bm_ok bm \<equiv> length bm = 256"

lemma test_frame_bit: "test_frame bm f \<longleftrightarrow> bit (bm ! (f div 32)) (f mod 32)"
  by (simp add: test_frame_def)

interpretation fb: bitset test_frame set_frame clear_frame bm_ok NUM_FRAMES
proof unfold_locales
  fix bm :: "u32 list" and i j :: nat
  assume a: "bm_ok bm" "i < NUM_FRAMES" "j < NUM_FRAMES"
  then have "i div 32 < length bm" "j div 32 < length bm" by auto
  then show "test_frame (set_frame i bm) j \<longleftrightarrow> i = j \<or> test_frame bm j"
    and "test_frame (clear_frame i bm) j \<longleftrightarrow> i \<noteq> j \<and> test_frame bm j"
    using div_mod_eq_iff [of 32 i j]
    by (auto simp: test_frame_bit set_frame_def clear_frame_def nth_list_update bit_or_exp bit_and_not_exp)
qed (auto simp: set_frame_def clear_frame_def)

definition pmm_inv :: "pmm \<Rightarrow> bool" where
  "pmm_inv p \<longleftrightarrow> bm_ok (bitmap p) \<and> used_frames p = word_of_nat (card (frames p))"

lemma pmm_scan_eq:
  "pmm_scan k i p = (case scan_off (test_frame (bitmap p)) k i of
      None \<Rightarrow> (0, p)
    | Some f \<Rightarrow> (word_of_nat f * FRAME_SIZE,
        p\<lparr>bitmap := set_frame f (bitmap p), used_frames := used_frames p + 1\<rparr>))"
  by (induction k arbitrary: i) auto

lemma pmm_alloc_frame_eq:
  "pmm_alloc_frame p = (case first_off (test_frame (bitmap p)) NUM_FRAMES of
      None \<Rightarrow> (0, p)
    | Some f \<Rightarrow> (word_of_nat f * FRAME_SIZE,
        p\<lparr>bitmap := set_frame f (bitmap p), used_frames := used_frames p + 1\<rparr>))"
  by (simp add: pmm_alloc_frame_def pmm_scan_eq scan_off_first_off)

lemma pmm_reserve_frames:
  "bm_ok (bitmap p) \<Longrightarrow> i + k \<le> NUM_FRAMES \<Longrightarrow>
     bm_ok (bitmap (pmm_reserve k i p)) \<and> frames (pmm_reserve k i p) = frames p \<union> {i..<i + k}
     \<and> used_frames (pmm_reserve k i p) = used_frames p + word_of_nat k"
proof (induction k arbitrary: i p)
  case (Suc k)
  let ?p = "p\<lparr>bitmap := set_frame i (bitmap p), used_frames := used_frames p + 1\<rparr>"
  have "bm_ok (bitmap ?p)" and "frames ?p = insert i (frames p)"
    using Suc.prems by (auto simp: fb.wf_put fb.on_put)
  moreover have "{i..<i + Suc k} = insert i {Suc i..<Suc i + k}" by auto
  ultimately show ?case using Suc.IH [of ?p "Suc i"] Suc.prems by simp
qed simp

lemma pmm_init_frames: "pmm_inv pmm_init \<and> frames pmm_init = {..<3072}"
proof -
  let ?p = "\<lparr>bitmap = replicate 256 0, used_frames = 0\<rparr> :: pmm"
  have z: "frames ?p = {}"
    by (auto simp: flags_on_def test_frame_bit)
  have i: "pmm_init = pmm_reserve 3072 0 ?p" by (simp add: pmm_init_def)
  have "bm_ok (bitmap pmm_init) \<and> frames pmm_init = {..<3072} \<and> used_frames pmm_init = 3072"
    unfolding i using pmm_reserve_frames [of ?p 0 3072] z by (auto simp del: One_nat_def)
  then show ?thesis by (simp add: pmm_inv_def)
qed

lemma frame_addr:
  assumes "f < NUM_FRAMES"
  shows "unat (word_of_nat f * FRAME_SIZE) = f * 4096" and "unat ((word_of_nat f * FRAME_SIZE) div FRAME_SIZE) = f"
  using assms by (simp_all add: unat_word_ariths unat_div)

lemma pmm_alloc_inv: "pmm_inv p \<Longrightarrow> pmm_inv (snd (pmm_alloc_frame p))"
proof (cases "first_off (test_frame (bitmap p)) NUM_FRAMES")
  case (Some f)
  assume "pmm_inv p"
  with first_off_SomeD(1,2) [OF Some] fb.card_put [of "bitmap p" f] fb.wf_put [of "bitmap p" f] Some
  show ?thesis by (simp add: pmm_alloc_frame_eq pmm_inv_def)
qed (simp add: pmm_alloc_frame_eq)

lemma pmm_free_frames:
  "pmm_inv p \<Longrightarrow> frames (pmm_free_frame addr p) = frames p - {unat addr div 4096}"
  by (auto simp: pmm_free_frame_def Let_def pmm_inv_def unat_div fb.on_clr)
    (auto simp: flags_on_def)

lemma pmm_free_inv: "pmm_inv p \<Longrightarrow> pmm_inv (pmm_free_frame addr p)"
proof (cases "unat addr div 4096 < NUM_FRAMES \<and> test_frame (bitmap p) (unat addr div 4096)")
  case True
  assume "pmm_inv p"
  then have "Suc (card (flags_on (test_frame (clear_frame (unat addr div 4096) (bitmap p))) NUM_FRAMES)) = card (frames p)"
    using True by (intro fb.card_clr) (auto simp: pmm_inv_def)
  then have "word_of_nat (card (frames p)) - 1 =
      (word_of_nat (card (flags_on (test_frame (clear_frame (unat addr div 4096) (bitmap p))) NUM_FRAMES)) :: u32)"
    by (metis add_diff_cancel_left' of_nat_Suc)
  with True \<open>pmm_inv p\<close> show ?thesis
    by (auto simp: pmm_free_frame_def Let_def pmm_inv_def unat_div fb.wf_clr)
next
  case False
  assume "pmm_inv p"
  with False show ?thesis by (auto simp: pmm_free_frame_def Let_def unat_div)
qed

lemma clear_set_frame:
  assumes "bm_ok bm" and "f < NUM_FRAMES" and "\<not> test_frame bm f"
  shows "clear_frame f (set_frame f bm) = bm"
proof -
  let ?w = "bm ! (f div 32)"
  have "(?w OR 2 ^ (f mod 32)) AND NOT (2 ^ (f mod 32)) = ?w"
    using assms(3) by (intro bit_word_eqI) (auto simp: test_frame_bit bit_or_exp bit_and_not_exp)
  with assms show ?thesis by (simp add: clear_frame_def set_frame_def)
qed

section \<open>Histories of the allocator\<close>

text \<open>Callers allocate, and free frames above the reserved area (frames they were given).\<close>

inductive pmm_reachable :: "pmm \<Rightarrow> bool" where
  init: "pmm_reachable pmm_init"
| alloc: "pmm_reachable p \<Longrightarrow> pmm_alloc_frame p = (a, p') \<Longrightarrow> pmm_reachable p'"
| free: "pmm_reachable p \<Longrightarrow> PMM_RESERVED_END \<le> addr \<Longrightarrow> pmm_reachable (pmm_free_frame addr p)"

lemma alloc_frames_mono: "pmm_inv p \<Longrightarrow> frames p \<subseteq> frames (snd (pmm_alloc_frame p))"
  by (auto simp: pmm_alloc_frame_eq pmm_inv_def fb.on_put split: option.split dest: first_off_SomeD)

lemma pmm_reachable_inv: "pmm_reachable p \<Longrightarrow> pmm_inv p \<and> {..<3072} \<subseteq> frames p"
proof (induction rule: pmm_reachable.induct)
  case init
  show ?case using pmm_init_frames by simp
next
  case (alloc p a p')
  then show ?case using pmm_alloc_inv [of p] alloc_frames_mono [of p] by auto
next
  case (free p addr)
  then have "3072 \<le> unat addr div 4096" by (simp add: word_le_nat_alt)
  with free show ?case by (auto simp: pmm_free_frames pmm_free_inv)
qed

section \<open>Properties\<close>

text \<open>The frame allocator takes the lowest free frame, marks exactly that frame and keeps the
  count of used frames equal to the number of marked frames; when every frame is in use it returns 0
  and changes nothing.\<close>

theorem pmm_alloc_correct:
  assumes "pmm_inv p"
  shows "if frames p = {..<NUM_FRAMES} then pmm_alloc_frame p = (0, p)
    else \<exists>f p'. pmm_alloc_frame p = (word_of_nat (f * 4096), p') \<and> f < NUM_FRAMES
      \<and> f \<notin> frames p \<and> (\<forall>j < f. j \<in> frames p) \<and> frames p' = insert f (frames p)
      \<and> pmm_inv p' \<and> pmm_used_frames p' = pmm_used_frames p + 1"
proof (cases "first_off (test_frame (bitmap p)) NUM_FRAMES")
  case None
  then have "frames p = {..<NUM_FRAMES}" by (simp only: first_off_None)
  with None show ?thesis by (simp add: pmm_alloc_frame_eq)
next
  case (Some f)
  note f = first_off_SomeD [OF Some]
  then have "f \<notin> frames p" "\<forall>j < f. j \<in> frames p" by (auto simp: flags_on_def)
  moreover have "frames p \<noteq> {..<NUM_FRAMES}" using Some by (simp flip: first_off_None)
  ultimately show ?thesis
    using f(1) assms pmm_alloc_inv [OF assms] Some
    by (auto simp: pmm_alloc_frame_eq fb.on_put pmm_inv_def pmm_used_frames_def)
qed

theorem pmm_alloc_correct_witness:
  "\<exists>f p'. pmm_alloc_frame pmm_init = (word_of_nat (f * 4096), p') \<and> f \<notin> frames pmm_init \<and> pmm_inv p'"
proof -
  have "frames pmm_init \<noteq> {..<NUM_FRAMES}" using pmm_init_frames by simp
  moreover have "pmm_inv pmm_init" using pmm_init_frames by simp
  ultimately show ?thesis using pmm_alloc_correct [of pmm_init] by auto
qed



text \<open>Freeing the frame just allocated restores the allocator's whole state, bitmap and count.\<close>

theorem pmm_alloc_free_roundtrip:
  assumes "pmm_inv p" and "pmm_alloc_frame p = (a, p')" and "frames p \<noteq> {..<NUM_FRAMES}"
  shows "pmm_free_frame a p' = p"
proof -
  obtain f where f: "first_off (test_frame (bitmap p)) NUM_FRAMES = Some f"
    using assms(3) by (cases "first_off (test_frame (bitmap p)) NUM_FRAMES") (auto simp: first_off_None)
  note fd = first_off_SomeD [OF f]
  have a: "a = word_of_nat f * FRAME_SIZE"
    and p': "p' = p\<lparr>bitmap := set_frame f (bitmap p), used_frames := used_frames p + 1\<rparr>"
    using assms(2) f by (auto simp: pmm_alloc_frame_eq)
  have "test_frame (set_frame f (bitmap p)) f" using fd(1) assms(1) by (simp add: fb.tst_put pmm_inv_def)
  moreover have "clear_frame f (set_frame f (bitmap p)) = bitmap p"
    using assms(1) fd(1,2) by (intro clear_set_frame) (auto simp: pmm_inv_def)
  ultimately show ?thesis
    using fd(1) frame_addr(2) [OF fd(1)] by (simp add: a p' pmm_free_frame_def)
qed

theorem pmm_alloc_free_roundtrip_witness:
  "pmm_free_frame (fst (pmm_alloc_frame pmm_init)) (snd (pmm_alloc_frame pmm_init)) = pmm_init"
  using pmm_alloc_free_roundtrip [OF _ surjective_pairing, of pmm_init] pmm_init_frames by auto

text \<open>Nothing in \<^verbatim>\<open>pmm_free_frame\<close> protects the reserved frames: freeing address 0 makes the next
  allocation hand out frame 0, whose address is also the out-of-memory result.\<close>

lemma pmm_free_reserved:
  "fst (pmm_alloc_frame (pmm_free_frame 0 pmm_init)) = 0 \<and> frames (pmm_free_frame 0 pmm_init) \<noteq> {..<NUM_FRAMES}"
proof -
  have z: "0 \<notin> frames (pmm_free_frame 0 pmm_init)"
    using pmm_free_frames [of pmm_init 0] pmm_init_frames by (metis DiffD2 div_0 insertI1 unsigned_0)
  then have ne: "frames (pmm_free_frame 0 pmm_init) \<noteq> {..<NUM_FRAMES}"
    by (metis lessThan_iff zero_less_numeral)
  then obtain f where f: "first_off (test_frame (bitmap (pmm_free_frame 0 pmm_init))) NUM_FRAMES = Some f"
    by (metis first_off_None option.exhaust)
  have "f = 0" using first_off_SomeD(3) [OF f, of 0] z by (cases f) (auto simp: flags_on_def)
  with f ne show ?thesis by (simp add: pmm_alloc_frame_eq)
qed

end
