(* ===== verification/Ring.thy ===== *)
theory Ring
  imports Prelude
begin

text \<open>
  Circular lists. Both schedulers (\<^verbatim>\<open>kernel/task.c\<close> and \<^verbatim>\<open>kernel/green.c\<close>) link their control blocks
  through a \<^verbatim>\<open>next\<close> field into a ring, insert after an entry point, and scan until they are back at
  the start. \<open>ring n x xs\<close> says that following \<open>n\<close> from \<open>x\<close> visits \<open>xs\<close>, each once, and returns to
  \<open>x\<close>. The locale \<open>ring_store\<close> is the interface of a store with such a field; the control block
  stores of the two schedulers interpret it.
\<close>

fun path :: "('p \<Rightarrow> 'p) \<Rightarrow> 'p \<Rightarrow> 'p list \<Rightarrow> 'p \<Rightarrow> bool" where
  "path n x [] y \<longleftrightarrow> x = y"
| "path n x (p # ps) y \<longleftrightarrow> x = p \<and> path n (n p) ps y"

definition ring :: "('p \<Rightarrow> 'p) \<Rightarrow> 'p \<Rightarrow> 'p list \<Rightarrow> bool" where
  "ring n x xs \<longleftrightarrow> xs \<noteq> [] \<and> distinct xs \<and> path n x xs x"

lemma path_append [simp]: "path n x (xs @ ys) z \<longleftrightarrow> (\<exists>y. path n x xs y \<and> path n y ys z)"
  by (induction xs arbitrary: x) auto

lemma path_upd: "p \<notin> set xs \<Longrightarrow> path (n(p := q)) x xs y = path n x xs y"
  by (induction xs arbitrary: x) auto

lemma path_cong: "(\<And>p. p \<in> set xs \<Longrightarrow> n p = n' p) \<Longrightarrow> path n x xs y = path n' x xs y"
  by (induction xs arbitrary: x) auto

lemma ringD:
  assumes "ring n x xs"
  shows "xs \<noteq> []" and "distinct xs" and "hd xs = x" and "x \<in> set xs" and "path n (n x) (tl xs) x"
  using assms by (cases xs; auto simp: ring_def)+

lemma ring_Cons: "ring n x xs \<Longrightarrow> xs = x # tl xs"
  using ringD(1,3) by (metis list.collapse)

lemma ring_rotate:
  assumes "ring n x xs" and "y \<in> set xs"
  shows "\<exists>as bs. xs = as @ y # bs \<and> ring n y (y # bs @ as)"
proof -
  from assms(2) obtain as bs where "xs = as @ y # bs" by (metis split_list)
  with assms(1) show ?thesis by (intro exI [of _ as] exI [of _ bs]) (auto simp: ring_def)
qed

lemma path_first: "path n x xs y \<Longrightarrow> x \<in> set (xs @ [y])"
  by (cases xs) auto

lemma ring_closed:
  assumes "ring n x xs" and "y \<in> set xs"
  shows "n y \<in> set xs"
proof -
  from ring_rotate [OF assms] obtain as bs where r: "xs = as @ y # bs" "ring n y (y # bs @ as)" by blast
  from ringD(5) [OF r(2)] have "n y \<in> set ((bs @ as) @ [y])" by (intro path_first) simp
  then show ?thesis using r(1) by auto
qed

lemma ring_single [simp]: "ring n x [x] \<longleftrightarrow> n x = x"
  by (simp add: ring_def)

lemma ring_insert:
  assumes "ring n x (x # xs)" and "p \<notin> set (x # xs)"
  shows "ring (n(p := n x, x := p)) x (x # p # xs)"
  using assms by (auto simp: ring_def path_upd)

text \<open>The members of a ring are determined by the links.\<close>

lemma path_unique: "path n x xs z \<Longrightarrow> path n x ys z \<Longrightarrow> z \<notin> set xs \<Longrightarrow> z \<notin> set ys \<Longrightarrow> xs = ys"
proof (induction xs arbitrary: x ys)
  case Nil
  then show ?case by (cases ys) auto
next
  case (Cons p xs)
  then show ?case by (cases ys) auto
qed

lemma ring_unique: "ring n x xs \<Longrightarrow> ring n x ys \<Longrightarrow> xs = ys"
  by (cases xs; cases ys) (auto simp: ring_def intro: path_unique)

lemma ring_cong: "ring n x xs \<Longrightarrow> (\<And>p. p \<in> set xs \<Longrightarrow> n' p = n p) \<Longrightarrow> ring n' x xs"
  unfolding ring_def using path_cong by metis

locale ring_store =
  fixes nxt :: "'s \<Rightarrow> 'p \<Rightarrow> 'p" and set_next :: "'p \<Rightarrow> 'p \<Rightarrow> 's \<Rightarrow> 's"
  assumes nxt_set_next: "nxt (set_next p q s) = (nxt s)(p := q)"
begin

lemma insert_after:
  assumes "ring (nxt s) x xs" and "p \<notin> set xs"
  shows "ring (nxt (set_next x p (set_next p (nxt s x) s))) x (x # p # tl xs)"
  using ring_insert [of "nxt s" x "tl xs" p] assms ring_Cons [OF assms(1)] by (simp add: nxt_set_next)

lemma insert_first: "ring (nxt (set_next p p s)) p [p]"
  by (simp add: nxt_set_next)

end

end
