(* ===== verification/Kheap.thy ===== *)
theory Kheap
  imports Prelude
begin

text \<open>
  \<^verbatim>\<open>mem/kheap.c\<close>: the first-fit kernel heap. The block headers live in the heap itself, so the
  model keeps them in flat byte memory: \<^verbatim>\<open>cur->size\<close>, \<^verbatim>\<open>cur->free\<close> and \<^verbatim>\<open>cur->next\<close> are the three
  32-bit words at \<^verbatim>\<open>cur\<close>. The loops follow \<^verbatim>\<open>next\<close> pointers and are therefore partial functions;
  on a well-formed heap they are shown to return.

  The abstract heap is the list of blocks in address order, each a size and a free flag; the
  refinement lemmas say what \<^verbatim>\<open>kmalloc\<close> and \<^verbatim>\<open>kfree\<close> do to that list.
\<close>

section \<open>Model\<close>

abbreviation (input) "HEAP_START \<equiv> 0x400000 :: u32"
abbreviation (input) "HEAP_SIZE \<equiv> 0x400000 :: u32"
abbreviation (input) "HDR \<equiv> 12 :: u32"

record kheap =
  heap_head :: u32
  kmem :: mem

definition ALIGN8 :: "u32 \<Rightarrow> u32" where
  "ALIGN8 x = (x + 7) AND NOT 7"

abbreviation hsize :: "mem \<Rightarrow> u32 \<Rightarrow> u32" where "hsize m cur \<equiv> ld32 m cur"
abbreviation hfree :: "mem \<Rightarrow> u32 \<Rightarrow> u32" where "hfree m cur \<equiv> ld32 m (cur + 4)"
abbreviation hnext :: "mem \<Rightarrow> u32 \<Rightarrow> u32" where "hnext m cur \<equiv> ld32 m (cur + 8)"

definition kheap_init :: "mem \<Rightarrow> kheap" where
  "kheap_init m =
     (let m = st32 HEAP_START (HEAP_SIZE - HDR) m;
          m = st32 (HEAP_START + 4) 1 m;
          m = st32 (HEAP_START + 8) 0 m
      in \<lparr>heap_head = HEAP_START, kmem = m\<rparr>)"

text \<open>The body of the search loop at the block it takes: split off the remainder, then mark used.\<close>

definition kmalloc_take :: "u32 \<Rightarrow> u32 \<Rightarrow> mem \<Rightarrow> mem" where
  "kmalloc_take sz cur m =
     (let m = (if hsize m cur \<ge> sz + HDR + 8
               then let nb = cur + HDR + sz;
                        m = st32 nb (hsize m cur - sz - HDR) m;
                        m = st32 (nb + 4) 1 m;
                        m = st32 (nb + 8) (hnext m cur) m;
                        m = st32 (cur + 8) nb m
                    in st32 cur sz m
               else m)
      in st32 (cur + 4) 0 m)"

partial_function (option) kmalloc_loop :: "u32 \<Rightarrow> u32 \<Rightarrow> mem \<Rightarrow> (u32 \<times> mem) option" where
  "kmalloc_loop sz cur m =
     (if cur = 0 then Some (0, m)
      else if hfree m cur = 0 \<or> hsize m cur < sz then kmalloc_loop sz (hnext m cur) m
      else Some (cur + HDR, kmalloc_take sz cur m))"

definition kmalloc :: "u32 \<Rightarrow> kheap \<Rightarrow> (u32 \<times> kheap) option" where
  "kmalloc sz h =
     (if sz = 0 then Some (0, h)
      else do {
        (p, m) \<leftarrow> kmalloc_loop (ALIGN8 sz) (heap_head h) (kmem h);
        Some (p, h\<lparr>kmem := m\<rparr>)
      })"

partial_function (option) kfree_merge :: "u32 \<Rightarrow> mem \<Rightarrow> mem option" where
  "kfree_merge cur m =
     (if hfree m cur \<noteq> 0 \<and> hnext m cur \<noteq> 0 \<and> hfree m (hnext m cur) \<noteq> 0
      then (let m = st32 cur (hsize m cur + (HDR + hsize m (hnext m cur))) m;
                m = st32 (cur + 8) (hnext m (hnext m cur)) m
            in kfree_merge cur m)
      else Some m)"

partial_function (option) kfree_loop :: "u32 \<Rightarrow> mem \<Rightarrow> mem option" where
  "kfree_loop cur m =
     (if cur = 0 then Some m
      else do {
        m \<leftarrow> kfree_merge cur m;
        kfree_loop (hnext m cur) m
      })"

definition kfree :: "u32 \<Rightarrow> kheap \<Rightarrow> kheap option" where
  "kfree ptr h =
     (if ptr = 0 then Some h
      else do {
        m \<leftarrow> kfree_loop (heap_head h) (st32 (ptr - HDR + 4) 1 (kmem h));
        Some (h\<lparr>kmem := m\<rparr>)
      })"

partial_function (option) kheap_used_loop :: "mem \<Rightarrow> u32 \<Rightarrow> u32 \<Rightarrow> u32 option" where
  "kheap_used_loop m cur used =
     (if cur = 0 then Some used
      else kheap_used_loop m (hnext m cur) (if hfree m cur = 0 then used + hsize m cur else used))"

definition kheap_used :: "kheap \<Rightarrow> u32 option" where
  "kheap_used h = kheap_used_loop (kmem h) (heap_head h) 0"

partial_function (option) kheap_free_loop :: "mem \<Rightarrow> u32 \<Rightarrow> u32 \<Rightarrow> u32 option" where
  "kheap_free_loop m cur freeb =
     (if cur = 0 then Some freeb
      else kheap_free_loop m (hnext m cur) (if hfree m cur \<noteq> 0 then freeb + hsize m cur else freeb))"

definition kheap_free :: "kheap \<Rightarrow> u32 option" where
  "kheap_free h = kheap_free_loop (kmem h) (heap_head h) 0"

section \<open>The abstract heap\<close>

type_synonym blk = "nat \<times> bool"

abbreviation (input) "HEAP_LO \<equiv> 0x400000 :: nat"
abbreviation (input) "HEAP_END \<equiv> 0x800000 :: nat"

text \<open>First fit on the block list, and the two loops of \<^verbatim>\<open>kfree\<close>.\<close>

fun a_malloc :: "nat \<Rightarrow> nat \<Rightarrow> blk list \<Rightarrow> (nat \<times> blk list) option" where
  "a_malloc sz a [] = None"
| "a_malloc sz a ((s, f) # bs) =
     (if f \<and> sz \<le> s
      then Some (a + 12, if sz + 20 \<le> s then (sz, False) # (s - sz - 12, True) # bs else (s, False) # bs)
      else map_option (\<lambda>(p, bs'). (p, (s, f) # bs')) (a_malloc sz (a + 12 + s) bs))"

fun a_mark :: "nat \<Rightarrow> nat \<Rightarrow> blk list \<Rightarrow> blk list" where
  "a_mark p a [] = []"
| "a_mark p a ((s, f) # bs) =
     (if p = a + 12 then (s, True) # bs else (s, f) # a_mark p (a + 12 + s) bs)"

fun a_merge :: "nat \<Rightarrow> blk list \<Rightarrow> nat \<times> blk list" where
  "a_merge s ((t, True) # bs) = a_merge (s + 12 + t) bs"
| "a_merge s [] = (s, [])"
| "a_merge s ((t, False) # bs) = (s, (t, False) # bs)"

lemma length_a_merge: "length (snd (a_merge s bs)) \<le> length bs"
  by (induction s bs rule: a_merge.induct) auto

function a_coalesce :: "blk list \<Rightarrow> blk list" where
  "a_coalesce [] = []"
| "a_coalesce ((s, False) # bs) = (s, False) # a_coalesce bs"
| "a_coalesce ((s, True) # bs) = (fst (a_merge s bs), True) # a_coalesce (snd (a_merge s bs))"
  by pat_completeness auto
termination
  by (relation "measure length") (auto simp: length_a_merge less_Suc_eq_le)

text \<open>The blocks in use, as payload address and size; and the payload and header bytes.\<close>

fun live :: "nat \<Rightarrow> blk list \<Rightarrow> (nat \<times> nat) list" where
  "live a [] = []"
| "live a ((s, f) # bs) = (if f then live (a + 12 + s) bs else (a + 12, s) # live (a + 12 + s) bs)"

fun hdrs :: "nat \<Rightarrow> blk list \<Rightarrow> nat set" where
  "hdrs a [] = {}"
| "hdrs a ((s, f) # bs) = {a..<a + 12} \<union> hdrs (a + 12 + s) bs"

fun extent :: "blk list \<Rightarrow> nat" where
  "extent [] = 0"
| "extent ((s, f) # bs) = 12 + s + extent bs"

text \<open>\<open>seg m a bs\<close>: the headers in memory from address \<open>a\<close> on describe the blocks \<open>bs\<close>, which
  tile the memory up to the end of the heap.\<close>

fun seg :: "mem \<Rightarrow> nat \<Rightarrow> blk list \<Rightarrow> bool" where
  "seg m a [] \<longleftrightarrow> a = HEAP_END"
| "seg m a ((s, f) # bs) \<longleftrightarrow>
     ldn m a = word_of_nat s \<and> (ldn m (a + 4) \<noteq> 0 \<longleftrightarrow> f)
     \<and> ldn m (a + 8) = (if bs = [] then 0 else word_of_nat (a + 12 + s))
     \<and> seg m (a + 12 + s) bs"

definition heap_ok :: "kheap \<Rightarrow> blk list \<Rightarrow> bool" where
  "heap_ok h bs \<longleftrightarrow> heap_head h = HEAP_START \<and> bs \<noteq> [] \<and> seg (kmem h) HEAP_LO bs"

fun coalesced :: "blk list \<Rightarrow> bool" where
  "coalesced ((s, True) # (t, True) # bs) = False"
| "coalesced (b # bs) = coalesced bs"
| "coalesced [] = True"

section \<open>Memory and the block list\<close>

lemma seg_extent: "seg m a bs \<Longrightarrow> a + extent bs = HEAP_END"
  by (induction bs arbitrary: a) fastforce+

lemma hdrs_ge: "x \<in> hdrs a bs \<Longrightarrow> a \<le> x \<and> x < a + extent bs"
  by (induction bs arbitrary: a) fastforce+

lemma seg_stn_below [bytes_simps]:
  assumes "x + 4 \<le> a" and "a \<le> HEAP_END"
  shows "seg (stn x w m) a bs = seg m a bs"
proof (cases "a + extent bs = HEAP_END")
  case True
  then show ?thesis using assms
  proof (induction bs arbitrary: a)
    case (Cons b bs)
    obtain s f where b: "b = (s, f)" by (cases b)
    with Cons show ?case by (simp add: ldn_stn_other)
  qed simp
qed (use seg_extent in blast)

lemma seg_cong:
  assumes "\<And>x. x \<in> hdrs a bs \<Longrightarrow> byte_at m' x = byte_at m x"
  shows "seg m' a bs = seg m a bs"
  using assms
proof (induction bs arbitrary: a)
  case (Cons b bs)
  obtain s f where b: "b = (s, f)" by (cases b)
  have "ldn m' (a + k) = ldn m (a + k)" if "k \<le> 8" for k
    using Cons.prems b that by (simp add: ldn_bytes)
  from this [of 0] this [of 4] this [of 8] Cons.IH [of "a + 12 + s"] Cons.prems b
  show ?case by simp
qed simp

lemma kmalloc_take_split:
  assumes "seg m a ((s, True) # bs)" and "sz + 20 \<le> s"
  defines "m' \<equiv> kmalloc_take (word_of_nat sz) (word_of_nat a) m"
  shows "seg m' a ((sz, False) # (s - sz - 12, True) # bs)"
    and "x < 2 ^ 32 \<Longrightarrow> x \<notin> hdrs a ((sz, False) # (s - sz - 12, True) # bs) \<Longrightarrow> byte_at m' x = byte_at m x"
proof -
  let ?b = "a + 12 + sz"
  have e: "a + 12 + s + extent bs = HEAP_END" using seg_extent [OF assms(1)] by simp
  have hd: "ldn m a = word_of_nat s" and nx: "ldn m (a + 8) = (if bs = [] then 0 else word_of_nat (a + 12 + s))"
    and sg: "seg m (a + 12 + s) bs" using assms(1) by auto
  have b: "(word_of_nat a :: u32) + HDR + word_of_nat sz = word_of_nat ?b" by simp
  have le: "(word_of_nat sz :: u32) + HDR + 8 \<le> word_of_nat s"
    using assms(2) e by (simp add: word_le_nat_alt unat_word_ariths)
  have df: "(word_of_nat s :: u32) - word_of_nat sz - HDR = word_of_nat (s - sz - 12)"
    using assms(2) by (simp add: of_nat_diff)
  have n: "ldn (stn (?b + 4) 1 (stn ?b w m)) (a + 8) = ldn m (a + 8)" for w
    using e assms(2) by (simp add: ldn_stn_other)
  have take: "m' = stn (a + 4) 0 (stn a (word_of_nat sz) (stn (a + 8) (word_of_nat ?b)
       (stn (?b + 8) (ldn m (a + 8)) (stn (?b + 4) 1 (stn ?b (word_of_nat (s - sz - 12)) m)))))"
    unfolding m'_def kmalloc_take_def Let_def b ld32_off st32_off hd df n using le by simp
  show "seg m' a ((sz, False) # (s - sz - 12, True) # bs)"
    unfolding take using e assms(2) sg nx by (simp add: bytes_simps) (auto simp: ac_simps)
  show "byte_at m' x = byte_at m x" if "x < 2 ^ 32" "x \<notin> hdrs a ((sz, False) # (s - sz - 12, True) # bs)"
  proof -
    have "x < a \<or> a + 12 \<le> x" and "x < ?b \<or> ?b + 12 \<le> x" using that(2) by auto
    then show ?thesis
      unfolding take using that(1) e assms(2) by (elim disjE) (simp_all add: byte_at_stn_other)
  qed
qed

lemma kmalloc_take_whole:
  assumes "seg m a ((s, True) # bs)" and "s < sz + 20" and "sz \<le> s"
  defines "m' \<equiv> kmalloc_take (word_of_nat sz) (word_of_nat a) m"
  shows "seg m' a ((s, False) # bs)"
    and "x < 2 ^ 32 \<Longrightarrow> x \<notin> hdrs a ((s, False) # bs) \<Longrightarrow> byte_at m' x = byte_at m x"
proof -
  have e: "a + 12 + s + extent bs = HEAP_END" using seg_extent [OF assms(1)] by simp
  have "\<not> (word_of_nat sz :: u32) + HDR + 8 \<le> word_of_nat s"
    using assms(2,3) e by (simp add: word_le_nat_alt unat_word_ariths)
  then have take: "m' = stn (a + 4) 0 m"
    using assms(1) unfolding m'_def kmalloc_take_def Let_def ld32_off st32_off by simp
  show "seg m' a ((s, False) # bs)" using assms(1) e by (auto simp: take bytes_simps)
  show "byte_at m' x = byte_at m x" if "x < 2 ^ 32" "x \<notin> hdrs a ((s, False) # bs)"
    using that e by (auto simp: take byte_at_stn_other)
qed

lemma a_malloc_nonempty: "a_malloc sz a bs = Some (p, bs') \<Longrightarrow> bs \<noteq> [] \<and> bs' \<noteq> []"
  by (cases bs) (auto split: if_splits)

text \<open>The addresses and the list's end as the loops see them.\<close>

definition cursor :: "nat \<Rightarrow> blk list \<Rightarrow> u32" where
  "cursor a bs = (if bs = [] then 0 else word_of_nat a)"

lemma seg_next: "seg m a ((s, f) # bs) \<Longrightarrow> hnext m (word_of_nat a) = cursor (a + 12 + s) bs"
  by (simp add: ld32_off cursor_def)

lemma seg_cursor_nonzero: "seg m a (b # bs) \<Longrightarrow> 0 < a \<Longrightarrow> cursor a (b # bs) \<noteq> 0"
proof -
  assume "seg m a (b # bs)" "0 < a"
  then have "a < 2 ^ 32" using seg_extent [of m a "b # bs"] by simp
  with \<open>0 < a\<close> show ?thesis using of_nat_u32_inj [of a 0] by (simp add: cursor_def)
qed

lemma seg_Cons_frame:
  assumes "seg m a ((s, f) # bs)" and "seg m' (a + 12 + s) bs'" and "bs \<noteq> []" and "bs' \<noteq> []"
    and "\<And>x. x < 2 ^ 32 \<Longrightarrow> x \<notin> hdrs (a + 12 + s) bs' \<Longrightarrow> byte_at m' x = byte_at m x"
  shows "seg m' a ((s, f) # bs')"
proof -
  have e: "a + 12 + s + extent bs = HEAP_END" using seg_extent [OF assms(1)] by simp
  have "byte_at m' (a + k) = byte_at m (a + k)" if "k < 12" for k
    using that e hdrs_ge [of "a + k" "a + 12 + s" bs'] by (intro assms(5)) auto
  then have "ldn m' (a + k) = ldn m (a + k)" if "k \<le> 8" for k
    using that by (intro ldn_cong) (simp add: add.assoc)
  from this [of 0] this [of 4] this [of 8] assms(1-4) show ?thesis by simp
qed

definition kmalloc_post :: "nat \<Rightarrow> blk list \<Rightarrow> mem \<Rightarrow> (nat \<times> blk list) option \<Rightarrow> (u32 \<times> mem) option \<Rightarrow> bool" where
  "kmalloc_post a bs m ar r \<longleftrightarrow>
     (case ar of
        None \<Rightarrow> r = Some (0, m)
      | Some (p, bs') \<Rightarrow> (\<exists>m'. r = Some (word_of_nat p, m') \<and> seg m' a bs' \<and>
           (\<forall>x < 2 ^ 32. x \<notin> hdrs a bs' \<longrightarrow> byte_at m' x = byte_at m x)))"

lemma kmalloc_post_Cons:
  assumes "seg m a ((s, f) # bs)" and "kmalloc_post (a + 12 + s) bs m (a_malloc sz (a + 12 + s) bs) r"
  shows "kmalloc_post a ((s, f) # bs) m (map_option (\<lambda>(p, bs'). (p, (s, f) # bs')) (a_malloc sz (a + 12 + s) bs)) r"
proof (cases "a_malloc sz (a + 12 + s) bs")
  case None
  with assms(2) show ?thesis by (simp add: kmalloc_post_def)
next
  case (Some q)
  obtain p bs' where q: "q = (p, bs')" by (cases q)
  from assms(2) Some q obtain m' where m': "r = Some (word_of_nat p, m')" "seg m' (a + 12 + s) bs'"
      "\<And>x. x < 2 ^ 32 \<Longrightarrow> x \<notin> hdrs (a + 12 + s) bs' \<Longrightarrow> byte_at m' x = byte_at m x"
    by (auto simp: kmalloc_post_def)
  have ne: "bs \<noteq> []" "bs' \<noteq> []" using a_malloc_nonempty [of sz "a + 12 + s" bs p bs'] Some q by simp_all
  have "seg m' a ((s, f) # bs')"
    using assms(1) m'(2) ne m'(3) by (rule seg_Cons_frame)
  moreover have "\<forall>x < 2 ^ 32. x \<notin> hdrs a ((s, f) # bs') \<longrightarrow> byte_at m' x = byte_at m x"
    using m'(3) by simp
  ultimately show ?thesis using Some q m'(1) by (simp add: kmalloc_post_def del: seg.simps hdrs.simps)
qed

lemma kmalloc_loop_refines:
  assumes "seg m a bs" and "0 < a" and "sz < 2 ^ 32"
  shows "kmalloc_post a bs m (a_malloc sz a bs) (kmalloc_loop (word_of_nat sz) (cursor a bs) m)"
  using assms
proof (induction bs arbitrary: a)
  case Nil
  then show ?case by (simp add: kmalloc_loop.simps cursor_def kmalloc_post_def)
next
  case (Cons b bs)
  obtain s f where b: "b = (s, f)" by (cases b)
  have c: "cursor a (b # bs) = word_of_nat a" "word_of_nat a \<noteq> (0 :: u32)"
    using seg_cursor_nonzero [OF Cons.prems(1,2)] by (auto simp: cursor_def)
  have e: "a + 12 + s + extent bs = HEAP_END" using seg_extent [OF Cons.prems(1)] b by simp
  have fit: "hfree m (word_of_nat a) = 0 \<or> hsize m (word_of_nat a) < word_of_nat sz \<longleftrightarrow> \<not> (f \<and> sz \<le> s)"
    using Cons.prems b e by (auto simp: ld32_off of_nat_u32_less)
  show ?case
  proof (cases "f \<and> sz \<le> s")
    case True
    then have "kmalloc_loop (word_of_nat sz) (cursor a (b # bs)) m =
        Some (word_of_nat (a + 12), kmalloc_take (word_of_nat sz) (word_of_nat a) m)"
      using c fit by (subst kmalloc_loop.simps) (simp add: add.commute)
    moreover note kmalloc_take_split [of m a s bs sz] kmalloc_take_whole [of m a s bs sz]
    ultimately show ?thesis using True b Cons.prems(1) by (auto simp: kmalloc_post_def not_le)
  next
    case False
    have sg: "seg m (a + 12 + s) bs" using Cons.prems(1) b by simp
    have "kmalloc_loop (word_of_nat sz) (cursor a (b # bs)) m = kmalloc_loop (word_of_nat sz) (cursor (a + 12 + s) bs) m"
      using c fit False seg_next [OF Cons.prems(1) [unfolded b]] by (subst kmalloc_loop.simps) simp
    moreover have "kmalloc_post (a + 12 + s) bs m (a_malloc sz (a + 12 + s) bs) (kmalloc_loop (word_of_nat sz) (cursor (a + 12 + s) bs) m)"
      using Cons.IH [OF sg] Cons.prems(3) by simp
    moreover have "a_malloc sz a (b # bs) = map_option (\<lambda>(p, bs'). (p, (s, f) # bs')) (a_malloc sz (a + 12 + s) bs)"
      using False b by auto
    ultimately show ?thesis using kmalloc_post_Cons [OF Cons.prems(1) [unfolded b]] b by simp
  qed
qed

lemma kfree_merge_refines:
  assumes "seg m a ((s, True) # bs)"
  shows "\<exists>m'. kfree_merge (word_of_nat a) m = Some m' \<and> seg m' a ((fst (a_merge s bs), True) # snd (a_merge s bs))
    \<and> (\<forall>x < 2 ^ 32. x < a \<or> a + 12 \<le> x \<longrightarrow> byte_at m' x = byte_at m x)"
  using assms
proof (induction s bs arbitrary: m rule: a_merge.induct)
  case (1 s t bs)
  let ?b = "a + 12 + s"
  define m2 where "m2 = stn (a + 8) (ldn (stn a (word_of_nat s + (HDR + word_of_nat t)) m) (?b + 8)) (stn a (word_of_nat s + (HDR + word_of_nat t)) m)"
  have e: "a + 12 + s + 12 + t + extent bs = HEAP_END" using seg_extent [OF "1.prems"] by simp
  have h: "ldn m a = word_of_nat s" "ldn m (a + 4) \<noteq> 0" "ldn m (a + 8) = word_of_nat ?b"
    "ldn m ?b = word_of_nat t" "ldn m (?b + 4) \<noteq> 0"
    using "1.prems" by auto
  have nz: "(word_of_nat ?b :: u32) \<noteq> 0" using e of_nat_u32_inj [of ?b 0] by simp
  have keep: "ldn (stn a w m) (a + 8) = word_of_nat ?b" for w
    using h(3) e by (simp add: ldn_stn_other)
  have step: "kfree_merge (word_of_nat a) m = kfree_merge (word_of_nat a) m2"
    unfolding kfree_merge.simps [of "word_of_nat a" m] Let_def ld32_off st32_off h keep m2_def using nz h by simp
  have "seg m2 a ((s + 12 + t, True) # bs)"
    using "1.prems" e unfolding m2_def by (simp add: bytes_simps) (auto simp: ac_simps)
  from "1.IH" [OF this] obtain m' where m': "kfree_merge (word_of_nat a) m2 = Some m'"
      "seg m' a ((fst (a_merge (s + 12 + t) bs), True) # snd (a_merge (s + 12 + t) bs))"
      "\<forall>x < 2 ^ 32. x < a \<or> a + 12 \<le> x \<longrightarrow> byte_at m' x = byte_at m2 x" by blast
  have "byte_at m2 x = byte_at m x" if "x < 2 ^ 32" "x < a \<or> a + 12 \<le> x" for x
    using that e by (elim disjE) (simp_all add: m2_def byte_at_stn_other)
  with m' step show ?case by (simp del: seg.simps)
next
  case (2 s)
  then show ?case by (simp add: kfree_merge.simps ld32_off)
next
  case (3 s t bs)
  let ?b = "a + 12 + s"
  have h: "ldn m (a + 8) = word_of_nat ?b" "ldn m (?b + 4) = 0" using 3 by auto
  have "kfree_merge (word_of_nat a) m = Some m"
    unfolding kfree_merge.simps [of "word_of_nat a" m] ld32_off h by simp
  with 3 show ?case by simp
qed

lemma kfree_merge_used: "seg m a ((s, False) # bs) \<Longrightarrow> kfree_merge (word_of_nat a) m = Some m"
  by (simp add: kfree_merge.simps ld32_off)

lemma a_coalesce_Nil [simp]: "a_coalesce bs = [] \<longleftrightarrow> bs = []"
  by (cases bs rule: a_coalesce.cases) auto

lemma seg_coalesce_Cons:
  assumes "seg m a ((s, f) # bs)" and "seg m' (a + 12 + s) (a_coalesce bs)"
    and "\<forall>x < 2 ^ 32. x \<notin> hdrs (a + 12 + s) (a_coalesce bs) \<longrightarrow> byte_at m' x = byte_at m x"
  shows "seg m' a ((s, f) # a_coalesce bs)"
proof (cases "bs = []")
  case False
  then show ?thesis using assms(3) by (intro seg_Cons_frame [OF assms(1,2) False]) auto
next
  case True
  have e: "a + 12 + s = HEAP_END" using True seg_extent [OF assms(1)] by simp
  with True assms(3) have "byte_at m' x = byte_at m x" if "x < 2 ^ 32" for x using that by simp
  then have "seg m' a ((s, f) # bs) = seg m a ((s, f) # bs)"
    using True e by (intro seg_cong) auto
  with True assms(1) show ?thesis by simp
qed

lemma kfree_loop_refines:
  assumes "seg m a bs" and "0 < a"
  shows "\<exists>m'. kfree_loop (cursor a bs) m = Some m' \<and> seg m' a (a_coalesce bs)
    \<and> (\<forall>x < 2 ^ 32. x \<notin> hdrs a (a_coalesce bs) \<longrightarrow> byte_at m' x = byte_at m x)"
  using assms
proof (induction bs arbitrary: a m rule: a_coalesce.induct)
  case 1
  then show ?case by (simp add: kfree_loop.simps cursor_def)
next
  case (2 s bs)
  have sg: "seg m (a + 12 + s) bs" using "2.prems" by simp
  have c: "cursor a ((s, False) # bs) = word_of_nat a" "word_of_nat a \<noteq> (0 :: u32)"
    using seg_cursor_nonzero [OF "2.prems"] by (auto simp: cursor_def)
  have step: "kfree_loop (cursor a ((s, False) # bs)) m = kfree_loop (cursor (a + 12 + s) bs) m"
    using c kfree_merge_used [OF "2.prems"(1)] seg_next [OF "2.prems"(1)] by (subst kfree_loop.simps) simp
  from "2.IH" [OF sg] obtain m' where m': "kfree_loop (cursor (a + 12 + s) bs) m = Some m'"
      "seg m' (a + 12 + s) (a_coalesce bs)"
      "\<forall>x < 2 ^ 32. x \<notin> hdrs (a + 12 + s) (a_coalesce bs) \<longrightarrow> byte_at m' x = byte_at m x" by auto
  with seg_coalesce_Cons [OF "2.prems"(1)] step show ?case by (simp del: seg.simps)
next
  case (3 s bs)
  let ?s = "fst (a_merge s bs)" and ?bs = "snd (a_merge s bs)"
  have c: "cursor a ((s, True) # bs) = word_of_nat a" "word_of_nat a \<noteq> (0 :: u32)"
    using seg_cursor_nonzero [OF "3.prems"] by (auto simp: cursor_def)
  from kfree_merge_refines [OF "3.prems"(1)] obtain m1 where m1: "kfree_merge (word_of_nat a) m = Some m1"
      "seg m1 a ((?s, True) # ?bs)" "\<forall>x < 2 ^ 32. x < a \<or> a + 12 \<le> x \<longrightarrow> byte_at m1 x = byte_at m x" by blast
  then have sg: "seg m1 (a + 12 + ?s) ?bs" by simp
  have step: "kfree_loop (cursor a ((s, True) # bs)) m = kfree_loop (cursor (a + 12 + ?s) ?bs) m1"
    using c m1(1) seg_next [OF m1(2)] by (subst kfree_loop.simps) simp
  from "3.IH" [OF sg] obtain m' where m': "kfree_loop (cursor (a + 12 + ?s) ?bs) m1 = Some m'"
      "seg m' (a + 12 + ?s) (a_coalesce ?bs)"
      "\<forall>x < 2 ^ 32. x \<notin> hdrs (a + 12 + ?s) (a_coalesce ?bs) \<longrightarrow> byte_at m' x = byte_at m1 x" by auto
  have "\<forall>x < 2 ^ 32. x \<notin> hdrs a ((?s, True) # a_coalesce ?bs) \<longrightarrow> byte_at m' x = byte_at m x"
    using m'(3) m1(3) by auto
  with seg_coalesce_Cons [OF m1(2) m'(2,3)] step m'(1) show ?case by (simp del: seg.simps hdrs.simps)
qed

text \<open>Marking the block whose payload starts at \<open>p\<close>.\<close>

lemma live_bounds: "(p, s) \<in> set (live a bs) \<Longrightarrow> a + 12 \<le> p \<and> p + s \<le> a + extent bs"
  by (induction a bs rule: live.induct) (auto split: if_splits)

lemma seg_mark:
  assumes "seg m a bs" and "(p, s) \<in> set (live a bs)"
  shows "seg (stn (p - 8) 1 m) a (a_mark p a bs)"
  using assms
proof (induction a bs rule: live.induct)
  case (2 a t f bs)
  have e: "a + 12 + t + extent bs = HEAP_END" using seg_extent [OF "2.prems"(1)] by simp
  show ?case
  proof (cases "p = a + 12")
    case True
    have "seg (stn (a + 4) 1 m) a ((t, True) # bs)"
      using "2.prems"(1) e by (simp add: bytes_simps)
    moreover have "p - 8 = a + 4" using True by simp
    ultimately show ?thesis using True by (simp only: a_mark.simps simp_thms if_True)
  next
    case False
    with "2.prems"(2) have l: "(p, s) \<in> set (live (a + 12 + t) bs)" by (auto split: if_splits)
    then have b: "a + 12 + t + 12 \<le> p" "p \<le> HEAP_END" using live_bounds [OF l] e by auto
    have ne: "bs \<noteq> []" "a_mark p (a + 12 + t) bs \<noteq> []"
      using l by (cases bs, simp, cases "hd bs", simp)+
    have "seg (stn (p - 8) 1 m) (a + 12 + t) (a_mark p (a + 12 + t) bs)"
      using "2.IH" "2.prems"(1) l by (cases f) simp_all
    moreover have "ldn (stn (p - 8) 1 m) (a + k) = ldn m (a + k)" if "k \<le> 8" for k
      using b that by (intro ldn_stn_other) auto
    note this [of 0] this [of 4] this [of 8]
    ultimately show ?thesis using False ne "2.prems"(1) by simp
  qed
qed simp

section \<open>Blocks in use\<close>

lemma live_sorted: "sorted_wrt (\<lambda>(p, s) (q, t). p + s + 12 \<le> q) (live a bs)"
  by (induction a bs rule: live.induct) (auto split: if_splits dest!: live_bounds)

lemma live_payload_not_hdr: "(p, s) \<in> set (live a bs) \<Longrightarrow> p \<le> x \<Longrightarrow> x < p + s \<Longrightarrow> x \<notin> hdrs a bs"
proof (induction a bs rule: live.induct)
  case (2 a t f bs)
  then show ?case
    using live_bounds [of p s "a + 12 + t" bs] hdrs_ge [of x "a + 12 + t" bs]
    by (auto split: if_splits)
qed simp

lemma live_disjoint:
  assumes "(p, s) \<in> set (live a bs)" and "(q, t) \<in> set (live a bs)" and "p \<noteq> q"
  shows "p + s \<le> q \<or> q + t \<le> p"
  using assms
proof (induction a bs rule: live.induct)
  case (2 a u f bs)
  then show ?case
    using live_bounds [of p s "a + 12 + u" bs] live_bounds [of q t "a + 12 + u" bs]
    by (auto split: if_splits)
qed simp

lemma extent_a_malloc: "a_malloc sz a bs = Some (p, bs') \<Longrightarrow> extent bs' = extent bs"
  by (induction sz a bs arbitrary: p bs' rule: a_malloc.induct) (auto split: if_splits)

text \<open>An allocation adds one block to the blocks in use, in address order.\<close>

lemma live_a_malloc:
  "a_malloc sz a bs = Some (p, bs') \<Longrightarrow>
     \<exists>s xs ys. sz \<le> s \<and> live a bs = xs @ ys \<and> live a bs' = xs @ (p, s) # ys"
proof (induction sz a bs arbitrary: p bs' rule: a_malloc.induct)
  case (2 sz a s f bs)
  show ?case
  proof (cases "f \<and> sz \<le> s")
    case True
    with 2 show ?thesis
      by (intro exI [of _ "if sz + 20 \<le> s then sz else s"] exI [of _ "[]"] exI [of _ "live (a + 12 + s) bs"])
        (auto split: if_splits simp: ac_simps)
  next
    case False
    with "2.prems" obtain bs1 where r: "a_malloc sz (a + 12 + s) bs = Some (p, bs1)" "bs' = (s, f) # bs1"
      by (auto split: if_splits)
    from "2.IH" [OF False r(1)] obtain u xs ys where "sz \<le> u" "live (a + 12 + s) bs = xs @ ys"
      "live (a + 12 + s) bs1 = xs @ (p, u) # ys" by blast
    with r(2) show ?thesis
      by (intro exI [of _ u] exI [of _ "if f then xs else (a + 12, s) # xs"] exI [of _ ys]) auto
  qed
qed simp

lemma a_malloc_None: "a_malloc sz a bs = None \<longleftrightarrow> (\<forall>(s, f) \<in> set bs. f \<longrightarrow> s < sz)"
  by (induction sz a bs rule: a_malloc.induct) auto

lemma live_a_mark:
  "(p, s) \<in> set (live a bs) \<Longrightarrow> \<exists>xs ys. live a bs = xs @ (p, s) # ys \<and> live a (a_mark p a bs) = xs @ ys"
proof (induction a bs rule: live.induct)
  case (2 a t f bs)
  show ?case
  proof (cases "p = a + 12")
    case True
    with "2.prems" live_bounds [of p s "a + 12 + t" bs] show ?thesis
      by (intro exI [of _ "[]"] exI [of _ "live (a + 12 + t) bs"]) (auto split: if_splits)
  next
    case False
    with "2.prems" have l: "(p, s) \<in> set (live (a + 12 + t) bs)" by (auto split: if_splits)
    then obtain xs ys where "live (a + 12 + t) bs = xs @ (p, s) # ys"
        "live (a + 12 + t) (a_mark p (a + 12 + t) bs) = xs @ ys"
      using "2.IH" by (cases f) auto
    with False show ?thesis
      by (intro exI [of _ "if f then xs else (a + 12, t) # xs"] exI [of _ ys]) auto
  qed
qed simp

lemma live_a_merge: "live (a + 12 + fst (a_merge s bs)) (snd (a_merge s bs)) = live (a + 12 + s) bs"
  by (induction s bs rule: a_merge.induct) (auto simp: ac_simps)

lemma live_a_coalesce: "live a (a_coalesce bs) = live a bs"
  by (induction bs arbitrary: a rule: a_coalesce.induct) (auto simp: live_a_merge)

lemma a_merge_used: "snd (a_merge s bs) = [] \<or> (\<exists>t cs. snd (a_merge s bs) = (t, False) # cs)"
  by (induction s bs rule: a_merge.induct) auto

lemma coalesced_a_coalesce: "coalesced (a_coalesce bs)"
proof (induction bs rule: a_coalesce.induct)
  case (3 s bs)
  with a_merge_used [of s bs] show ?case by auto
qed auto

lemma a_merge_id: "coalesced ((s, True) # bs) \<Longrightarrow> a_merge t bs = (t, bs)"
  by (cases "(t, bs)" rule: a_merge.cases) auto

lemma coalesced_Cons: "coalesced (b # bs) \<Longrightarrow> coalesced bs"
  by (cases "b # bs" rule: coalesced.cases) auto

lemma a_coalesce_id: "coalesced bs \<Longrightarrow> a_coalesce bs = bs"
proof (induction bs rule: a_coalesce.induct)
  case (3 s bs)
  then show ?case using a_merge_id [of s bs s] coalesced_Cons by simp
qed (auto dest: coalesced_Cons)

lemma a_merge_coalesced: "coalesced ((s, True) # a_coalesce bs) \<Longrightarrow> a_merge s bs = (s, bs)"
  by (cases "(s, bs)" rule: a_merge.cases) auto

lemma a_malloc_ge: "a_malloc sz a bs = Some (p, bs') \<Longrightarrow> a + 12 \<le> p"
  using live_a_malloc live_bounds by (metis in_set_conv_decomp)

lemma a_malloc_free_id:
  "coalesced bs \<Longrightarrow> a_malloc sz a bs = Some (p, bs') \<Longrightarrow> a_coalesce (a_mark p a bs') = bs"
proof (induction sz a bs arbitrary: p bs' rule: a_malloc.induct)
  case (2 sz a s f bs)
  show ?case
  proof (cases "f \<and> sz \<le> s")
    case True
    moreover from this "2.prems" have "a_merge s bs = (s, bs)" "a_coalesce bs = bs"
      using a_merge_id [of s bs s] coalesced_Cons [of "(s, f)" bs] a_coalesce_id by auto
    ultimately show ?thesis using "2.prems" by (auto split: if_splits)
  next
    case False
    with "2.prems" obtain bs1 where r: "a_malloc sz (a + 12 + s) bs = Some (p, bs1)" "bs' = (s, f) # bs1"
      by (auto split: if_splits)
    have ih: "a_coalesce (a_mark p (a + 12 + s) bs1) = bs"
      using "2.IH" [OF False _ r(1)] "2.prems"(1) coalesced_Cons by blast
    have "p \<noteq> a + 12" using a_malloc_ge [OF r(1)] by simp
    moreover have "f \<Longrightarrow> a_merge s (a_mark p (a + 12 + s) bs1) = (s, a_mark p (a + 12 + s) bs1)"
      using "2.prems"(1) ih by (intro a_merge_coalesced) auto
    ultimately show ?thesis using ih r(2) by (cases f) auto
  qed
qed simp

section \<open>The operations refine the block list\<close>

lemma and_not_7: "(x :: u32) AND NOT 7 = x - x mod 8"
proof -
  have m: "x mod 8 = take_bit 3 x" by (simp add: take_bit_eq_mod)
  have 7: "(7 :: u32) = mask 3" by (simp add: mask_eq_exp_minus_1)
  have "x - take_bit 3 x = x AND NOT (take_bit 3 x)"
    by (rule disjunctive_diff_eq_and_not) (rule bit_word_eqI, auto simp: bit_simps)
  also have "\<dots> = x AND NOT 7"
    unfolding 7 by (rule bit_word_eqI) (auto simp: bit_simps)
  finally show ?thesis using m by simp
qed

text \<open>\<^verbatim>\<open>ALIGN8\<close> rounds up to a multiple of eight, as long as \<^verbatim>\<open>x + 7\<close> does not wrap.\<close>

lemma unat_ALIGN8:
  assumes "unat x \<le> 0xFFFFFFF8"
  shows "unat (ALIGN8 x) = (unat x + 7) div 8 * 8"
proof -
  have s: "unat (x + 7) = unat x + 7" using assms by (simp add: unat_word_ariths)
  have "(x + 7) mod 8 \<le> x + 7" by (simp add: word_le_nat_alt unat_mod)
  then have "unat (ALIGN8 x) = (unat x + 7) - (unat x + 7) mod 8"
    unfolding ALIGN8_def and_not_7 by (simp add: unat_sub s unat_mod)
  then show ?thesis by (simp add: minus_mod_eq_div_mult)
qed

lemma ALIGN8_ge: "unat x \<le> 0xFFFFFFF8 \<Longrightarrow> unat x \<le> unat (ALIGN8 x)"
  by (simp add: unat_ALIGN8)

lemma heap_ok_init: "heap_ok (kheap_init m) [(0x3FFFF4, True)]"
proof -
  have h: "HEAP_START = word_of_nat HEAP_LO" by simp
  have "kmem (kheap_init m) = stn (HEAP_LO + 8) 0 (stn (HEAP_LO + 4) 1 (stn HEAP_LO (HEAP_SIZE - HDR) m))"
    unfolding kheap_init_def Let_def h st32_off by simp
  then show ?thesis by (simp add: heap_ok_def kheap_init_def ldn_stn_other)
qed

lemma kmalloc_zero: "kmalloc 0 h = Some (0, h)"
  by (simp add: kmalloc_def)

lemma kmalloc_refines:
  assumes "heap_ok h bs" and "sz \<noteq> 0"
  shows "case a_malloc (unat (ALIGN8 sz)) HEAP_LO bs of
      None \<Rightarrow> kmalloc sz h = Some (0, h)
    | Some (p, bs') \<Rightarrow> \<exists>h'. kmalloc sz h = Some (word_of_nat p, h') \<and> heap_ok h' bs' \<and>
        (\<forall>x < 2 ^ 32. x \<notin> hdrs HEAP_LO bs' \<longrightarrow> byte_at (kmem h') x = byte_at (kmem h) x)"
proof -
  have c: "cursor HEAP_LO bs = heap_head h" using assms(1) by (simp add: cursor_def heap_ok_def)
  have "kmalloc_post HEAP_LO bs (kmem h) (a_malloc (unat (ALIGN8 sz)) HEAP_LO bs) (kmalloc_loop (ALIGN8 sz) (heap_head h) (kmem h))"
    using kmalloc_loop_refines [of "kmem h" HEAP_LO bs "unat (ALIGN8 sz)"] assms(1) c by (simp add: heap_ok_def)
  then show ?thesis
    using assms by (auto simp: kmalloc_post_def kmalloc_def heap_ok_def split: option.splits dest: a_malloc_nonempty)
qed

lemma kfree_refines:
  assumes "heap_ok h bs" and "(p, s) \<in> set (live HEAP_LO bs)"
  defines "bs' \<equiv> a_coalesce (a_mark p HEAP_LO bs)"
  shows "\<exists>h'. kfree (word_of_nat p) h = Some h' \<and> heap_ok h' bs' \<and>
    (\<forall>x < 2 ^ 32. x \<notin> hdrs HEAP_LO bs' \<and> (x < p - 8 \<or> p - 4 \<le> x) \<longrightarrow> byte_at (kmem h') x = byte_at (kmem h) x)"
proof -
  have sg: "seg (kmem h) HEAP_LO bs" using assms(1) by (simp add: heap_ok_def)
  have b: "HEAP_LO + 12 \<le> p" "p \<le> HEAP_END" using live_bounds [OF assms(2)] seg_extent [OF sg] by auto
  have st: "st32 (word_of_nat p - HDR + 4) 1 m = stn (p - 8) 1 m" for m
    using b by (simp add: stn_def of_nat_diff)
  have p0: "(word_of_nat p :: u32) \<noteq> 0" using b of_nat_u32_inj [of p 0] by simp
  have m: "seg (stn (p - 8) 1 (kmem h)) HEAP_LO (a_mark p HEAP_LO bs)" using seg_mark [OF sg assms(2)] .
  have ne: "a_mark p HEAP_LO bs \<noteq> []" using assms(2) by (cases bs, simp, cases "hd bs", simp)
  have c: "heap_head h = cursor HEAP_LO (a_mark p HEAP_LO bs)" using assms(1) ne by (simp add: cursor_def heap_ok_def)
  from kfree_loop_refines [OF m] obtain m' where
    m': "kfree_loop (heap_head h) (stn (p - 8) 1 (kmem h)) = Some m'" "seg m' HEAP_LO bs'"
      "\<forall>x < 2 ^ 32. x \<notin> hdrs HEAP_LO bs' \<longrightarrow> byte_at m' x = byte_at (stn (p - 8) 1 (kmem h)) x"
    unfolding c bs'_def by auto
  have "byte_at (stn (p - 8) 1 (kmem h)) x = byte_at (kmem h) x" if "x < 2 ^ 32" "x < p - 8 \<or> p - 4 \<le> x" for x
    using that b by (intro byte_at_stn_other) auto
  moreover have "kfree (word_of_nat p) h = Some (h\<lparr>kmem := m'\<rparr>)"
    unfolding kfree_def st using p0 m'(1) by simp
  ultimately show ?thesis
    using m'(2,3) ne assms(1) by (simp add: heap_ok_def bs'_def del: seg.simps)
qed

fun used_sum :: "blk list \<Rightarrow> nat" where
  "used_sum [] = 0"
| "used_sum ((s, f) # bs) = (if f then 0 else s) + used_sum bs"

fun free_sum :: "blk list \<Rightarrow> nat" where
  "free_sum [] = 0"
| "free_sum ((s, f) # bs) = (if f then s else 0) + free_sum bs"

lemma used_free_extent: "used_sum bs + free_sum bs + 12 * length bs = extent bs"
  by (induction bs rule: used_sum.induct) auto

lemma kheap_used_refines:
  "seg m a bs \<Longrightarrow> 0 < a \<Longrightarrow> kheap_used_loop m (cursor a bs) u = Some (u + word_of_nat (used_sum bs))"
proof (induction bs arbitrary: a u)
  case Nil
  then show ?case by (simp add: kheap_used_loop.simps cursor_def)
next
  case (Cons b bs)
  obtain s f where b: "b = (s, f)" by (cases b)
  have c: "cursor a (b # bs) = word_of_nat a" "word_of_nat a \<noteq> (0 :: u32)"
    using seg_cursor_nonzero [OF Cons.prems] by (auto simp: cursor_def)
  show ?case
    using Cons b seg_next [OF Cons.prems(1) [unfolded b]] c
    by (subst kheap_used_loop.simps) (auto simp: ld32_off algebra_simps)
qed

lemma kheap_free_refines:
  "seg m a bs \<Longrightarrow> 0 < a \<Longrightarrow> kheap_free_loop m (cursor a bs) u = Some (u + word_of_nat (free_sum bs))"
proof (induction bs arbitrary: a u)
  case Nil
  then show ?case by (simp add: kheap_free_loop.simps cursor_def)
next
  case (Cons b bs)
  obtain s f where b: "b = (s, f)" by (cases b)
  have c: "cursor a (b # bs) = word_of_nat a" "word_of_nat a \<noteq> (0 :: u32)"
    using seg_cursor_nonzero [OF Cons.prems] by (auto simp: cursor_def)
  show ?case
    using Cons b seg_next [OF Cons.prems(1) [unfolded b]] c
    by (subst kheap_free_loop.simps) (auto simp: ld32_off algebra_simps)
qed

lemma a_malloc_hd:
  "a_malloc sz a bs = Some (p, (s, True) # bs') \<Longrightarrow> \<exists>cs. bs = (s, True) # cs"
  by (cases bs) (auto split: if_splits)

lemma coalesced_a_malloc: "coalesced bs \<Longrightarrow> a_malloc sz a bs = Some (p, bs') \<Longrightarrow> coalesced bs'"
proof (induction sz a bs arbitrary: p bs' rule: a_malloc.induct)
  case (2 sz a s f bs)
  have c: "coalesced bs" using "2.prems"(1) by (rule coalesced_Cons)
  have ct: "coalesced ((t, True) # bs)" if f for t
    using "2.prems"(1) that c by (cases "(t, True) # bs" rule: coalesced.cases) auto
  show ?case
  proof (cases "f \<and> sz \<le> s")
    case True
    then show ?thesis using "2.prems"(2) c ct by (auto split: if_splits)
  next
    case False
    with "2.prems"(2) obtain bs1 where r: "a_malloc sz (a + 12 + s) bs = Some (p, bs1)" "bs' = (s, f) # bs1"
      by (auto split: if_splits)
    have "coalesced bs1" using "2.IH" [OF False c r(1)] .
    then show ?thesis
      using r "2.prems"(1) by (cases "(s, f) # bs1" rule: coalesced.cases) (auto dest: a_malloc_hd)
  qed
qed simp

section \<open>Histories of the heap\<close>

text \<open>What a client may do: allocate (any size up to \<^verbatim>\<open>0xFFFFFFF8\<close>), free a pointer it holds, and
  write to the bytes it asked for. The map \<open>L\<close> holds the pointers in use with the size asked for.\<close>

inductive kheap_reach :: "kheap \<Rightarrow> (nat \<rightharpoonup> nat) \<Rightarrow> bool" where
  init: "kheap_reach (kheap_init m) Map.empty"
| alloc: "kheap_reach h L \<Longrightarrow> unat sz \<le> 0xFFFFFFF8 \<Longrightarrow> kmalloc sz h = Some (p, h') \<Longrightarrow>
     kheap_reach h' (if p = 0 then L else L(unat p \<mapsto> unat sz))"
| free: "kheap_reach h L \<Longrightarrow> L p = Some n \<Longrightarrow> kfree (word_of_nat p) h = Some h' \<Longrightarrow>
     kheap_reach h' (L(p := None))"
| "write": "kheap_reach h L \<Longrightarrow> L p = Some n \<Longrightarrow> p \<le> x \<Longrightarrow> x < p + n \<Longrightarrow>
     kheap_reach (h\<lparr>kmem := (kmem h)(word_of_nat x := v)\<rparr>) L"

definition heap_inv :: "kheap \<Rightarrow> (nat \<rightharpoonup> nat) \<Rightarrow> blk list \<Rightarrow> bool" where
  "heap_inv h L bs \<longleftrightarrow> heap_ok h bs \<and> coalesced bs \<and>
     (\<forall>p n. L p = Some n \<longrightarrow> (\<exists>s \<ge> n. (p, s) \<in> set (live HEAP_LO bs)))"

lemma heap_ok_live_bounds:
  "heap_ok h bs \<Longrightarrow> (p, s) \<in> set (live HEAP_LO bs) \<Longrightarrow> HEAP_LO + 12 \<le> p \<and> p + s \<le> HEAP_END"
  using live_bounds [of p s HEAP_LO bs] seg_extent [of "kmem h" HEAP_LO bs] by (auto simp: heap_ok_def)

lemma heap_inv_write:
  assumes "heap_inv h L bs" and "L p = Some n" and "p \<le> x" and "x < p + n"
  shows "heap_inv (h\<lparr>kmem := (kmem h)(word_of_nat x := v)\<rparr>) L bs"
proof -
  from assms(1,2) obtain s where s: "n \<le> s" "(p, s) \<in> set (live HEAP_LO bs)" by (auto simp: heap_inv_def)
  have ok: "heap_ok h bs" using assms(1) by (simp add: heap_inv_def)
  have nh: "x \<notin> hdrs HEAP_LO bs" using live_payload_not_hdr [OF s(2)] assms(3,4) s(1) by simp
  have x: "x < 2 ^ 32" using heap_ok_live_bounds [OF ok s(2)] assms(4) s(1) by simp
  have "seg ((kmem h)(word_of_nat x := v)) HEAP_LO bs = seg (kmem h) HEAP_LO bs"
  proof (rule seg_cong)
    fix y assume y: "y \<in> hdrs HEAP_LO bs"
    then have "y < 2 ^ 32" using hdrs_ge [OF y] seg_extent [of "kmem h" HEAP_LO bs] ok by (simp add: heap_ok_def)
    then have "(word_of_nat y :: u32) \<noteq> word_of_nat x" using x y nh by (auto simp: of_nat_u32_inj)
    then show "byte_at ((kmem h)(word_of_nat x := v)) y = byte_at (kmem h) y" by (simp add: byte_at_def)
  qed
  then show ?thesis using assms(1) by (simp add: heap_inv_def heap_ok_def)
qed

lemma heap_inv_alloc:
  assumes "heap_inv h L bs" and "unat sz \<le> 0xFFFFFFF8" and "kmalloc sz h = Some (p, h')"
  shows "\<exists>bs'. heap_inv h' (if p = 0 then L else L(unat p \<mapsto> unat sz)) bs'"
proof (cases "sz = 0 \<or> a_malloc (unat (ALIGN8 sz)) HEAP_LO bs = None")
  case True
  then have "p = 0 \<and> h' = h"
    using assms kmalloc_refines [of h bs sz] by (cases "sz = 0") (auto simp: heap_inv_def kmalloc_zero)
  with assms(1) show ?thesis by auto
next
  case False
  then obtain q bs' where q: "a_malloc (unat (ALIGN8 sz)) HEAP_LO bs = Some (q, bs')" by auto
  have ok: "heap_ok h bs" using assms(1) by (simp add: heap_inv_def)
  from kmalloc_refines [OF ok, of sz] False q assms(3) have h': "p = word_of_nat q" "heap_ok h' bs'" by auto
  from live_a_malloc [OF q] obtain s xs ys where l: "unat (ALIGN8 sz) \<le> s"
    "live HEAP_LO bs = xs @ ys" "live HEAP_LO bs' = xs @ (q, s) # ys" by blast
  have "q < 2 ^ 32" using heap_ok_live_bounds [OF h'(2), of q s] l(3) by simp
  then have "unat p = q" using h'(1) by simp
  moreover have "coalesced bs'" using assms(1) q coalesced_a_malloc by (auto simp: heap_inv_def)
  moreover have "unat sz \<le> s" using l(1) ALIGN8_ge [OF assms(2)] by simp
  moreover have "\<exists>s \<ge> n. (r, s) \<in> set (live HEAP_LO bs')" if "L r = Some n" for r n
    using that assms(1) l(2,3) by (auto simp: heap_inv_def)
  ultimately have "heap_inv h' (if p = 0 then L else L(unat p \<mapsto> unat sz)) bs'"
    using h'(2) l(3) by (auto simp: heap_inv_def)
  then show ?thesis ..
qed

lemma heap_inv_free:
  assumes "heap_inv h L bs" and "L p = Some n" and "kfree (word_of_nat p) h = Some h'"
  shows "\<exists>bs'. heap_inv h' (L(p := None)) bs'"
proof -
  from assms(1,2) obtain s where s: "(p, s) \<in> set (live HEAP_LO bs)" by (auto simp: heap_inv_def)
  have ok: "heap_ok h bs" using assms(1) by (simp add: heap_inv_def)
  let ?bs = "a_coalesce (a_mark p HEAP_LO bs)"
  from kfree_refines [OF ok s] assms(3) have "heap_ok h' ?bs" by auto
  moreover have "coalesced ?bs" by (rule coalesced_a_coalesce)
  moreover from live_a_mark [OF s] obtain xs ys where
    "live HEAP_LO bs = xs @ (p, s) # ys" "live HEAP_LO (a_mark p HEAP_LO bs) = xs @ ys" by blast
  then have "(q, t) \<in> set (live HEAP_LO ?bs)" if "(q, t) \<in> set (live HEAP_LO bs)" "q \<noteq> p" for q t
    using that by (auto simp: live_a_coalesce)
  ultimately have "heap_inv h' (L(p := None)) ?bs"
    using assms(1) unfolding heap_inv_def by (metis fun_upd_apply option.discI)
  then show ?thesis ..
qed

lemma kheap_reach_inv: "kheap_reach h L \<Longrightarrow> \<exists>bs. heap_inv h L bs"
proof (induction rule: kheap_reach.induct)
  case (init m)
  have "heap_inv (kheap_init m) Map.empty [(0x3FFFF4, True)]"
    using heap_ok_init by (simp add: heap_inv_def)
  then show ?case ..
qed (use heap_inv_alloc heap_inv_free heap_inv_write in blast)+

section \<open>Properties\<close>



text \<open>C15. \<^verbatim>\<open>kfree\<close> of a block in use returns; exactly that block stops being in use, the contents of
  all other blocks in use are unchanged, and no two neighbouring blocks are free afterwards.\<close>

theorem kfree_correct:
  assumes "heap_ok h bs" and "(p, s) \<in> set (live HEAP_LO bs)"
  shows "\<exists>h' bs'. kfree (word_of_nat p) h = Some h' \<and> heap_ok h' bs' \<and> coalesced bs' \<and>
    set (live HEAP_LO bs') = set (live HEAP_LO bs) - {(p, s)} \<and>
    (\<forall>(q, t) \<in> set (live HEAP_LO bs'). \<forall>x. q \<le> x \<and> x < q + t \<longrightarrow> byte_at (kmem h') x = byte_at (kmem h) x)"
proof -
  let ?bs = "a_coalesce (a_mark p HEAP_LO bs)"
  from kfree_refines [OF assms] obtain h' where h': "kfree (word_of_nat p) h = Some h'" "heap_ok h' ?bs"
    "\<forall>x < 2 ^ 32. x \<notin> hdrs HEAP_LO ?bs \<and> (x < p - 8 \<or> p - 4 \<le> x) \<longrightarrow> byte_at (kmem h') x = byte_at (kmem h) x" by auto
  from live_a_mark [OF assms(2)] obtain xs ys where l: "live HEAP_LO bs = xs @ (p, s) # ys"
    "live HEAP_LO ?bs = xs @ ys" by (auto simp: live_a_coalesce)
  have srt: "\<forall>(q, t) \<in> set xs. q + t + 12 \<le> p" "\<forall>(q, t) \<in> set ys. p + s + 12 \<le> q"
    using live_sorted [of HEAP_LO bs] l(1) by (auto simp: sorted_wrt_append)
  then have "(p, s) \<notin> set xs" "(p, s) \<notin> set ys" by force+
  then have set: "set (live HEAP_LO ?bs) = set (live HEAP_LO bs) - {(p, s)}" using l by auto
  have "byte_at (kmem h') x = byte_at (kmem h) x" if q: "(q, t) \<in> set (live HEAP_LO ?bs)" "q \<le> x" "x < q + t" for q t x
  proof -
    have "q + t + 12 \<le> p \<or> p + s + 12 \<le> q" using q(1) l(2) srt by auto
    then have "x < p - 8 \<or> p - 4 \<le> x" using q(2,3) by auto
    then show ?thesis
      using q live_payload_not_hdr [of q t HEAP_LO ?bs x] h'(3) heap_ok_live_bounds [OF h'(2) q(1)] by simp
  qed
  with h'(1,2) set coalesced_a_coalesce show ?thesis by blast
qed

theorem kfree_correct_witness:
  "\<exists>h1 h2. kmalloc 24 (kheap_init (\<lambda>_. 0)) = Some (0x40000C, h1) \<and> kfree (word_of_nat 0x40000C) h1 = Some h2"
proof -
  have a: "unat (ALIGN8 24) = 24" by (simp add: unat_ALIGN8)
  have m: "a_malloc 24 HEAP_LO [(0x3FFFF4, True)] = Some (0x40000C, [(24, False), (0x3FFFD0, True)])" by simp
  from kmalloc_refines [OF heap_ok_init, of 24 "\<lambda>_. 0"] obtain h1 where
    h1: "kmalloc 24 (kheap_init (\<lambda>_. 0)) = Some (0x40000C, h1)" "heap_ok h1 [(24, False), (0x3FFFD0, True)]"
    by (auto simp: a m)
  have "(0x40000C, 24) \<in> set (live HEAP_LO [(24, False), (0x3FFFD0, True)])" by simp
  from kfree_correct [OF h1(2) this] h1(1) show ?thesis by auto
qed

text \<open>Freeing the block just allocated gives back the block list the allocation started from:
  splitting and coalescing are inverse on a heap without neighbouring free blocks.\<close>

theorem kmalloc_kfree_roundtrip:
  assumes "heap_ok h bs" and "coalesced bs" and "kmalloc sz h = Some (p, h')" and "p \<noteq> 0"
  shows "\<exists>h''. kfree p h' = Some h'' \<and> heap_ok h'' bs"
proof -
  have nz: "sz \<noteq> 0" using assms(3,4) by (auto simp: kmalloc_def)
  from kmalloc_refines [OF assms(1) nz] assms(3,4) obtain q bs' where
    q: "a_malloc (unat (ALIGN8 sz)) HEAP_LO bs = Some (q, bs')" "p = word_of_nat q" "heap_ok h' bs'"
    by (auto split: option.splits)
  from live_a_malloc [OF q(1)] obtain s where "(q, s) \<in> set (live HEAP_LO bs')"
    by (metis in_set_conv_decomp)
  from kfree_refines [OF q(3) this] a_malloc_free_id [OF assms(2) q(1)] show ?thesis by (auto simp: q(2))
qed

theorem kmalloc_kfree_roundtrip_witness:
  "\<exists>p h1 h2. kmalloc 4096 (kheap_init (\<lambda>_. 7)) = Some (p, h1) \<and> kfree p h1 = Some h2 \<and> heap_ok h2 [(0x3FFFF4, True)]"
proof -
  have a: "unat (ALIGN8 4096) = 4096" by (simp add: unat_ALIGN8)
  from kmalloc_refines [OF heap_ok_init, of 4096 "\<lambda>_. 7"] obtain h1 where
    h1: "kmalloc 4096 (kheap_init (\<lambda>_. 7)) = Some (0x40000C, h1)" by (auto simp: a)
  from kmalloc_kfree_roundtrip [OF heap_ok_init _ h1] h1 show ?thesis by auto
qed

text \<open>The statistics of \<^verbatim>\<open>meminfo\<close>: \<^verbatim>\<open>kheap_used\<close> and \<^verbatim>\<open>kheap_free\<close> return, and together with
  twelve bytes of header per block they add up to the size of the heap.\<close>

theorem kheap_accounting:
  assumes "heap_ok h bs"
  shows "\<exists>u f. kheap_used h = Some u \<and> kheap_free h = Some f \<and>
    unat u = sum_list (map snd (live HEAP_LO bs)) \<and> unat u + unat f + 12 * length bs = unat HEAP_SIZE"
proof -
  have sg: "seg (kmem h) HEAP_LO bs" and c: "heap_head h = cursor HEAP_LO bs"
    using assms by (auto simp: heap_ok_def cursor_def)
  have e: "extent bs = 0x400000" using seg_extent [OF sg] by simp
  have l: "sum_list (map snd (live a bs)) = used_sum bs" for a
    by (induction a bs rule: live.induct) auto
  have "used_sum bs < 2 ^ 32" "free_sum bs < 2 ^ 32" using used_free_extent [of bs] e by auto
  then show ?thesis
    using kheap_used_refines [OF sg, of 0] kheap_free_refines [OF sg, of 0] used_free_extent [of bs] e l
    by (auto simp: kheap_used_def kheap_free_def c)
qed

theorem kheap_accounting_witness:
  "\<exists>u f. kheap_used (kheap_init (\<lambda>_. 9)) = Some u \<and> kheap_free (kheap_init (\<lambda>_. 9)) = Some f \<and>
     unat u + unat f + 12 = 0x400000"
  using kheap_accounting [OF heap_ok_init, of "\<lambda>_. 9"] by auto



text \<open>C28. \<^verbatim>\<open>ALIGN8\<close> wraps for the seven largest sizes, so \<^verbatim>\<open>kmalloc\<close> of such a size succeeds on a fresh
  heap with an empty payload instead of reporting that the heap is too small.\<close>

theorem kmalloc_wraps:
  assumes "0xFFFFFFF9 \<le> sz"
  shows "\<exists>h'. kmalloc sz (kheap_init m) = Some (0x40000C, h') \<and> heap_ok h' [(0, False), (0x3FFFE8, True)]"
proof -
  have n: "0xFFFFFFF9 \<le> unat sz" using assms by (simp add: word_le_nat_alt)
  have "unat (sz + 7) = (unat sz + 7) mod 4294967296" by (simp add: unat_word_ariths)
  also have "\<dots> = (unat sz + 7 - 4294967296) mod 4294967296" using n by (intro le_mod_geq) simp
  also have "\<dots> \<le> unat sz + 7 - 4294967296" by (rule mod_less_eq_dividend)
  also have "\<dots> < 8" using unat_u32_lt [of sz] by linarith
  finally have "unat (sz + 7) < 8" .
  then have "(sz + 7) mod 8 = sz + 7" by (simp add: word_unat_eq_iff unat_mod)
  then have "ALIGN8 sz = 0" unfolding ALIGN8_def and_not_7 by simp
  moreover have "sz \<noteq> 0" using assms by auto
  moreover have "a_malloc 0 HEAP_LO [(0x3FFFF4, True)] = Some (0x40000C, [(0, False), (0x3FFFE8, True)])"
    by simp
  ultimately show ?thesis using kmalloc_refines [OF heap_ok_init, of sz m] by auto
qed

theorem kmalloc_wraps_witness: "\<exists>h'. kmalloc 0xFFFFFFFF (kheap_init (\<lambda>_. 0)) = Some (0x40000C, h')"
  using kmalloc_wraps [of "0xFFFFFFFF" "\<lambda>_. 0"] by auto

end
