(* ===== verification/Heap_Store.thy ===== *)
theory Heap_Store
  imports Kheap
begin

text \<open>
  What the clients of the kernel heap (the two schedulers, \<^verbatim>\<open>exec\<close>, the shell) rely on, as a locale:
  the pointers they hold, each with the size asked for, are apart, stay apart, and keep their contents
  across the calls of other clients; writing inside the held blocks (or outside the heap) cannot hurt
  the allocator. \<open>kh\<close> interprets it on \<^verbatim>\<open>kmalloc\<close> and \<^verbatim>\<open>kfree\<close>.
\<close>

definition held :: "(nat \<rightharpoonup> nat) \<Rightarrow> nat set" where
  "held L = {x. \<exists>p n. L p = Some n \<and> p \<le> x \<and> x < p + n}"

definition same_on :: "nat set \<Rightarrow> mem \<Rightarrow> mem \<Rightarrow> bool" where
  "same_on X m m' \<longleftrightarrow> (\<forall>x \<in> X. x < 2 ^ 32 \<longrightarrow> byte_at m' x = byte_at m x)"

lemma heldI: "L p = Some n \<Longrightarrow> p \<le> x \<Longrightarrow> x < p + n \<Longrightarrow> x \<in> held L"
  by (auto simp: held_def)

lemma same_on_refl [simp]: "same_on X m m"
  by (simp add: same_on_def)

lemma same_on_trans: "same_on X m m' \<Longrightarrow> same_on X m' m'' \<Longrightarrow> same_on X m m''"
  by (simp add: same_on_def)

lemma same_on_mono: "same_on Y m m' \<Longrightarrow> X \<subseteq> Y \<Longrightarrow> same_on X m m'"
  by (auto simp: same_on_def)

lemma same_on_ldn: "same_on X m m' \<Longrightarrow> {a..<a + 4} \<subseteq> X \<Longrightarrow> a + 4 \<le> 2 ^ 32 \<Longrightarrow> ldn m' a = ldn m a"
  by (rule ldn_cong) (simp add: same_on_def subset_iff)

lemma same_on_stn: "X \<inter> {a..<a + 4} = {} \<Longrightarrow> a + 4 \<le> 2 ^ 32 \<Longrightarrow> same_on X m (stn a w m)"
  unfolding same_on_def by (intro ballI impI byte_at_stn_other) (auto simp: not_le)

locale heap_store =
  fixes inv :: "'h \<Rightarrow> (nat \<rightharpoonup> nat) \<Rightarrow> bool" and get_mem :: "'h \<Rightarrow> mem" and set_mem :: "mem \<Rightarrow> 'h \<Rightarrow> 'h"
    and malloc :: "u32 \<Rightarrow> 'h \<Rightarrow> (u32 \<times> 'h) option" and free :: "u32 \<Rightarrow> 'h \<Rightarrow> 'h option"
    and lo :: nat and hi :: nat
  assumes malloc_returns: "inv h L \<Longrightarrow> sz \<noteq> 0 \<Longrightarrow> unat sz \<le> 0xFFFFFFF8 \<Longrightarrow>
      wp (malloc sz h) (\<lambda>(p, h'). if p = 0 then h' = h
        else unat p \<notin> dom L \<and> inv h' (L(unat p \<mapsto> unat sz)) \<and> same_on (held L \<union> - {lo..<hi}) (get_mem h) (get_mem h'))"
    and free_returns: "inv h L \<Longrightarrow> L p = Some n \<Longrightarrow>
      wp (free (word_of_nat p) h) (\<lambda>h'. inv h' (L(p := None))
        \<and> same_on (held (L(p := None)) \<union> - {lo..<hi}) (get_mem h) (get_mem h'))"
    and write_inv: "inv h L \<Longrightarrow> same_on ({lo..<hi} - held L) (get_mem h) m \<Longrightarrow> inv (set_mem m h) L"
    and held_bounds: "inv h L \<Longrightarrow> L p = Some n \<Longrightarrow> lo < p \<and> p + n \<le> hi"
    and held_disjoint: "inv h L \<Longrightarrow> L p = Some n \<Longrightarrow> L q = Some k \<Longrightarrow> p \<noteq> q \<Longrightarrow> p + n \<le> q \<or> q + k \<le> p"
    and heap_top: "hi < 2 ^ 31"
    and get_set_mem: "get_mem (set_mem m h) = m"
begin

lemma held_ptr:
  assumes "inv h L" and "L (unat p) = Some n"
  shows "p \<noteq> 0" and "unat p + n \<le> 2 ^ 31"
  using held_bounds [OF assms] heap_top by auto

text \<open>Storing words inside held blocks or outside the heap.\<close>

lemma store_inv:
  assumes "inv h L" and "{a..<a + 4} \<subseteq> held L \<union> - {lo..<hi}" and "a + 4 \<le> 2 ^ 32"
  shows "inv (set_mem (stn a w (get_mem h)) h) L"
  using assms by (intro write_inv same_on_stn) auto

lemma block_disjoint:
  assumes "inv h L" and "L p = Some n" and "L q = Some k" and "p \<noteq> q"
  shows "{p..<p + n} \<inter> {q..<q + k} = {}"
  using held_disjoint [OF assms] by auto

lemma block_held: "L p = Some n \<Longrightarrow> {p..<p + n} \<subseteq> held L"
  by (meson atLeastLessThan_iff heldI subsetI)

end

lemma hdrs_heap: "heap_ok h bs \<Longrightarrow> x \<in> hdrs HEAP_LO bs \<Longrightarrow> HEAP_LO \<le> x \<and> x < HEAP_END"
  using hdrs_ge [of x HEAP_LO bs] seg_extent [of "kmem h" HEAP_LO bs] by (auto simp: heap_ok_def)

lemma held_not_hdr: "heap_inv h L bs \<Longrightarrow> x \<in> held L \<Longrightarrow> x \<notin> hdrs HEAP_LO bs"
  unfolding heap_inv_def held_def using live_payload_not_hdr by fastforce

lemma heap_inv_same:
  assumes "heap_inv h L bs" and "same_on ({HEAP_LO..<HEAP_END} - held L) (kmem h) m"
  shows "heap_inv (h\<lparr>kmem := m\<rparr>) L bs"
proof -
  have ok: "heap_ok h bs" using assms(1) by (simp add: heap_inv_def)
  have "seg m HEAP_LO bs = seg (kmem h) HEAP_LO bs"
  proof (rule seg_cong)
    fix y assume y: "y \<in> hdrs HEAP_LO bs"
    then show "byte_at m y = byte_at (kmem h) y"
      using hdrs_heap [OF ok y] held_not_hdr [OF assms(1), of y] assms(2) by (auto simp: same_on_def)
  qed
  then show ?thesis using assms(1) by (simp add: heap_inv_def heap_ok_def)
qed

lemma kmalloc_held:
  assumes "heap_inv h L bs" and "sz \<noteq> 0" and "unat sz \<le> 0xFFFFFFF8"
  shows "wp (kmalloc sz h) (\<lambda>(p, h'). if p = 0 then h' = h
    else unat p \<notin> dom L \<and> (\<exists>bs'. heap_inv h' (L(unat p \<mapsto> unat sz)) bs')
      \<and> same_on (held L \<union> - {HEAP_LO..<HEAP_END}) (kmem h) (kmem h'))"
proof -
  have ok: "heap_ok h bs" using assms(1) by (simp add: heap_inv_def)
  from kmalloc_refines [OF ok assms(2)] obtain p h' where r: "kmalloc sz h = Some (p, h')"
    by (auto split: option.splits)
  show ?thesis
  proof (cases "a_malloc (unat (ALIGN8 sz)) HEAP_LO bs")
    case None
    with kmalloc_refines [OF ok assms(2)] show ?thesis by simp
  next
    case (Some z)
    obtain q bs' where z: "z = (q, bs')" by (cases z)
    with kmalloc_refines [OF ok assms(2)] Some r have h': "p = word_of_nat q" "heap_ok h' bs'"
      "\<forall>x < 2 ^ 32. x \<notin> hdrs HEAP_LO bs' \<longrightarrow> byte_at (kmem h') x = byte_at (kmem h) x" by auto
    from live_a_malloc [of "unat (ALIGN8 sz)" HEAP_LO bs q bs'] Some z obtain s xs ys where
      l: "live HEAP_LO bs = xs @ ys" "live HEAP_LO bs' = xs @ (q, s) # ys" by auto
    have qb: "HEAP_LO + 12 \<le> q" "q + s \<le> HEAP_END" using heap_ok_live_bounds [OF h'(2), of q s] l(2) by auto
    then have u: "unat p = q" "p \<noteq> 0" using h'(1) of_nat_u32_inj [of q 0] by auto
    have "q \<notin> dom L"
    proof
      assume "q \<in> dom L"
      then obtain t where "(q, t) \<in> set (live HEAP_LO bs)" using assms(1) by (fastforce simp: heap_inv_def)
      with l live_sorted [of HEAP_LO bs'] show False by (fastforce simp: sorted_wrt_append)
    qed
    moreover obtain bs1 where bs1: "heap_inv h' (L(q \<mapsto> unat sz)) bs1"
      using heap_inv_alloc [OF assms(1,3) r] u by auto
    moreover have "same_on (held L \<union> - {HEAP_LO..<HEAP_END}) (kmem h) (kmem h')"
    proof -
      have "x \<notin> hdrs HEAP_LO bs'" if "x \<in> held L" for x
      proof -
        from that assms(1) obtain t n where "(t, n) \<in> set (live HEAP_LO bs)" "t \<le> x" "x < t + n"
          by (fastforce simp: held_def heap_inv_def)
        with l live_payload_not_hdr [of t n HEAP_LO bs' x] show ?thesis by auto
      qed
      with hdrs_heap [OF h'(2)] h'(3) show ?thesis unfolding same_on_def by (metis Compl_iff Un_iff atLeastLessThan_iff)
    qed
    ultimately show ?thesis using r u by auto
  qed
qed

lemma kfree_held:
  assumes "heap_inv h L bs" and "L p = Some n"
  shows "wp (kfree (word_of_nat p) h) (\<lambda>h'. (\<exists>bs'. heap_inv h' (L(p := None)) bs')
    \<and> same_on (held (L(p := None)) \<union> - {HEAP_LO..<HEAP_END}) (kmem h) (kmem h'))"
proof -
  from assms obtain s where s: "(p, s) \<in> set (live HEAP_LO bs)" by (auto simp: heap_inv_def)
  have ok: "heap_ok h bs" using assms(1) by (simp add: heap_inv_def)
  let ?bs = "a_coalesce (a_mark p HEAP_LO bs)"
  from kfree_refines [OF ok s] obtain h' where h': "kfree (word_of_nat p) h = Some h'" "heap_ok h' ?bs"
    "\<forall>x < 2 ^ 32. x \<notin> hdrs HEAP_LO ?bs \<and> (x < p - 8 \<or> p - 4 \<le> x) \<longrightarrow> byte_at (kmem h') x = byte_at (kmem h) x" by auto
  have pb: "HEAP_LO + 12 \<le> p" "p + s \<le> HEAP_END" using heap_ok_live_bounds [OF ok s] by auto
  from live_a_mark [OF s] obtain xs ys where l: "live HEAP_LO bs = xs @ (p, s) # ys" "live HEAP_LO ?bs = xs @ ys"
    by (auto simp: live_a_coalesce)
  have "x \<notin> hdrs HEAP_LO ?bs \<and> (x < p - 8 \<or> p - 4 \<le> x)" if "x \<in> held (L(p := None))" for x
  proof -
    from that assms(1) obtain t k where t: "(t, k) \<in> set (live HEAP_LO bs)" "t \<noteq> p" "t \<le> x" "x < t + k"
      by (fastforce simp: held_def heap_inv_def split: if_splits)
    then have "t + k + 12 \<le> p \<or> p + s + 12 \<le> t" using l(1) live_sorted [of HEAP_LO bs] by (auto simp: sorted_wrt_append)
    moreover have "(t, k) \<in> set (live HEAP_LO ?bs)" using t l by auto
    ultimately show ?thesis using t live_payload_not_hdr [of t k HEAP_LO ?bs x] by auto
  qed
  moreover have "x \<notin> hdrs HEAP_LO ?bs \<and> (x < p - 8 \<or> p - 4 \<le> x)" if "x \<in> - {HEAP_LO..<HEAP_END}" for x
    using that hdrs_heap [OF h'(2), of x] pb by auto
  ultimately have "same_on (held (L(p := None)) \<union> - {HEAP_LO..<HEAP_END}) (kmem h) (kmem h')"
    using h'(3) by (auto simp: same_on_def)
  with h'(1) heap_inv_free [OF assms h'(1)] show ?thesis by simp
qed

abbreviation heap_holds :: "kheap \<Rightarrow> (nat \<rightharpoonup> nat) \<Rightarrow> bool" where
  "heap_holds h L \<equiv> \<exists>bs. heap_inv h L bs"

interpretation kh: heap_store heap_holds kmem "\<lambda>m h. h\<lparr>kmem := m\<rparr>" kmalloc kfree HEAP_LO HEAP_END
proof unfold_locales
  fix h :: kheap and L p n q k
  assume "heap_holds h L" "L p = Some n"
  then obtain bs s where b: "heap_ok h bs" "n \<le> s" "(p, s) \<in> set (live HEAP_LO bs)" "heap_inv h L bs"
    unfolding heap_inv_def by meson
  then show "HEAP_LO < p \<and> p + n \<le> HEAP_END" using heap_ok_live_bounds [OF b(1,3)] by auto
  assume "L q = Some k" "p \<noteq> q"
  then obtain t where "k \<le> t" "(q, t) \<in> set (live HEAP_LO bs)" using b(4) by (auto simp: heap_inv_def)
  with live_disjoint [OF b(3)] b(2) \<open>p \<noteq> q\<close> show "p + n \<le> q \<or> q + k \<le> p" by fastforce
next
  fix h :: kheap and L and sz :: u32
  assume "heap_holds h L" "sz \<noteq> 0" "unat sz \<le> 0xFFFFFFF8"
  then show "wp (kmalloc sz h) (\<lambda>(p, h'). if p = 0 then h' = h else unat p \<notin> dom L \<and> heap_holds h' (L(unat p \<mapsto> unat sz))
      \<and> same_on (held L \<union> - {HEAP_LO..<HEAP_END}) (kmem h) (kmem h'))"
    using kmalloc_held by blast
next
  fix h :: kheap and L p n
  assume "heap_holds h L" "L p = Some n"
  then show "wp (kfree (word_of_nat p) h) (\<lambda>h'. heap_holds h' (L(p := None))
      \<and> same_on (held (L(p := None)) \<union> - {HEAP_LO..<HEAP_END}) (kmem h) (kmem h'))"
    using kfree_held by blast
qed (use heap_inv_same in blast, simp_all)

end
