(* ===== verification/Cstring.thy ===== *)
theory Cstring
  imports Prelude
begin

text \<open>
  \<^verbatim>\<open>lib/string.c\<close>: the freestanding memory and string routines, as loops over flat memory.
  Pointers are 32-bit words, a pointer step is word addition. A loop that looks for a terminator
  may run for ever, so it is a \<^theory_text>\<open>partial_function\<close> into \<open>option\<close>; signed overflow
  in \<^verbatim>\<open>atoi\<close> is undefined in C and is \<open>None\<close> too.

  The second half holds the list versions of the string routines, which the file system applies to
  its local block buffers, and the lemmas that the memory versions compute the same.
\<close>

section \<open>Operations\<close>

fun memset_loop :: "nat \<Rightarrow> u32 \<Rightarrow> u8 \<Rightarrow> mem \<Rightarrow> mem" where
  "memset_loop 0 d c m = m"
| "memset_loop (Suc n) d c m = memset_loop n (d + 1) c (m(d := c))"

definition memset :: "u32 \<Rightarrow> int \<Rightarrow> u32 \<Rightarrow> mem \<Rightarrow> mem" where
  "memset dst c n m = memset_loop (unat n) dst (word_of_int c) m"

fun copy_up :: "nat \<Rightarrow> u32 \<Rightarrow> u32 \<Rightarrow> mem \<Rightarrow> mem" where
  "copy_up 0 d s m = m"
| "copy_up (Suc n) d s m = copy_up n (d + 1) (s + 1) (m(d := m s))"

definition memcpy :: "u32 \<Rightarrow> u32 \<Rightarrow> u32 \<Rightarrow> mem \<Rightarrow> mem" where
  "memcpy dst src n m = copy_up (unat n) dst src m"

fun copy_down :: "nat \<Rightarrow> u32 \<Rightarrow> u32 \<Rightarrow> mem \<Rightarrow> mem" where
  "copy_down 0 d s m = m"
| "copy_down (Suc n) d s m = copy_down n (d - 1) (s - 1) (m(d - 1 := m (s - 1)))"

definition memmove :: "u32 \<Rightarrow> u32 \<Rightarrow> u32 \<Rightarrow> mem \<Rightarrow> mem" where
  "memmove dst src n m =
     (if dst = src \<or> n = 0 then m
      else if dst < src then copy_up (unat n) dst src m
      else copy_down (unat n) (dst + n) (src + n) m)"

fun memcmp_loop :: "nat \<Rightarrow> mem \<Rightarrow> u32 \<Rightarrow> u32 \<Rightarrow> int" where
  "memcmp_loop 0 m x y = 0"
| "memcmp_loop (Suc n) m x y =
     (if m x \<noteq> m y then uint (m x) - uint (m y) else memcmp_loop n m (x + 1) (y + 1))"

definition memcmp :: "mem \<Rightarrow> u32 \<Rightarrow> u32 \<Rightarrow> u32 \<Rightarrow> int" where
  "memcmp m a b n = memcmp_loop (unat n) m a b"

partial_function (option) strlen_loop :: "mem \<Rightarrow> u32 \<Rightarrow> u32 \<Rightarrow> u32 option" where
  "strlen_loop m s n = (if m (s + n) \<noteq> 0 then strlen_loop m s (n + 1) else Some n)"

definition strlen :: "mem \<Rightarrow> u32 \<Rightarrow> u32 option" where
  "strlen m s = strlen_loop m s 0"

partial_function (option) strcmp :: "mem \<Rightarrow> u32 \<Rightarrow> u32 \<Rightarrow> int option" where
  "strcmp m a b =
     (if m a \<noteq> 0 \<and> m a = m b then strcmp m (a + 1) (b + 1)
      else Some (uint (m a) - uint (m b)))"

fun strncmp_loop :: "nat \<Rightarrow> mem \<Rightarrow> u32 \<Rightarrow> u32 \<Rightarrow> int" where
  "strncmp_loop 0 m a b = 0"
| "strncmp_loop (Suc n) m a b =
     (if m a \<noteq> 0 \<and> m a = m b then strncmp_loop n m (a + 1) (b + 1)
      else uint (m a) - uint (m b))"

definition strncmp :: "mem \<Rightarrow> u32 \<Rightarrow> u32 \<Rightarrow> u32 \<Rightarrow> int" where
  "strncmp m a b n = strncmp_loop (unat n) m a b"

partial_function (option) strcpy_loop :: "u32 \<Rightarrow> u32 \<Rightarrow> mem \<Rightarrow> mem option" where
  "strcpy_loop d src m =
     (let m' = m(d := m src) in if m src \<noteq> 0 then strcpy_loop (d + 1) (src + 1) m' else Some m')"

definition strcpy :: "u32 \<Rightarrow> u32 \<Rightarrow> mem \<Rightarrow> mem option" where
  "strcpy dst src m = strcpy_loop dst src m"

text \<open>The two loops of \<^verbatim>\<open>strncpy\<close>; the argument counts the remaining iterations \<open>n - i\<close>.\<close>

fun strncpy_pad :: "nat \<Rightarrow> u32 \<Rightarrow> mem \<Rightarrow> mem" where
  "strncpy_pad 0 d m = m"
| "strncpy_pad (Suc n) d m = strncpy_pad n (d + 1) (m(d := 0))"

fun strncpy_loop :: "nat \<Rightarrow> u32 \<Rightarrow> u32 \<Rightarrow> mem \<Rightarrow> mem" where
  "strncpy_loop 0 d s m = m"
| "strncpy_loop (Suc n) d s m =
     (if m s \<noteq> 0 then strncpy_loop n (d + 1) (s + 1) (m(d := m s)) else strncpy_pad (Suc n) d m)"

definition strncpy :: "u32 \<Rightarrow> u32 \<Rightarrow> u32 \<Rightarrow> mem \<Rightarrow> mem" where
  "strncpy dst src n m = strncpy_loop (unat n) dst src m"

text \<open>\<^verbatim>\<open>utoa\<close>: the digits go into \<^verbatim>\<open>tmp\<close> least significant first, then into the buffer reversed.\<close>

definition digits :: "u8 list" where
  "digits = [0x30, 0x31, 0x32, 0x33, 0x34, 0x35, 0x36, 0x37, 0x38, 0x39, 0x61, 0x62, 0x63, 0x64, 0x65, 0x66]"

function utoa_loop :: "u32 \<Rightarrow> u32 \<Rightarrow> u8 list \<Rightarrow> u8 list" where
  "utoa_loop base val tmp =
     (if val \<noteq> 0 \<and> 2 \<le> base
      then utoa_loop base (val div base) (tmp @ [digits ! unat (val mod base)])
      else tmp)"
  by pat_completeness auto
termination
proof (relation "measure (\<lambda>(base, val, tmp). unat val)", goal_cases)
  case (2 base val tmp)
  then have "1 < unat base" and "0 < unat val"
    by (auto simp: word_le_nat_alt unat_gt_0)
  then show ?case by (simp add: unat_div)
qed auto

fun utoa_emit :: "nat \<Rightarrow> u8 list \<Rightarrow> u32 \<Rightarrow> mem \<Rightarrow> mem" where
  "utoa_emit 0 tmp p m = m(p := 0)"
| "utoa_emit (Suc i) tmp p m = utoa_emit i tmp (p + 1) (m(p := tmp ! i))"

definition utoa :: "u32 \<Rightarrow> u32 \<Rightarrow> int \<Rightarrow> mem \<Rightarrow> mem" where
  "utoa val buf base m =
     (if base < 2 \<or> base > 16 then m(buf := 0)
      else let tmp = (if val = 0 then [0x30] else []);
               tmp = utoa_loop (word_of_int base) val tmp
           in utoa_emit (length tmp) tmp buf m)"

definition itoa :: "int \<Rightarrow> u32 \<Rightarrow> mem \<Rightarrow> mem" where
  "itoa val buf m =
     (if val < 0 then utoa (word_of_int (- val)) (buf + 1) 10 (m(buf := 0x2D))
      else utoa (word_of_int val) buf 10 m)"

partial_function (option) atoi_skip :: "mem \<Rightarrow> u32 \<Rightarrow> u32 option" where
  "atoi_skip m s = (if m s = 0x20 \<or> m s = 0x09 then atoi_skip m (s + 1) else Some s)"

partial_function (option) atoi_digits :: "mem \<Rightarrow> u32 \<Rightarrow> int \<Rightarrow> int option" where
  "atoi_digits m s v =
     (if 0x30 \<le> m s \<and> m s \<le> 0x39
      then (let v' = v * 10 + (uint (m s) - 0x30)
            in if v' \<le> INT_MAX then atoi_digits m (s + 1) v' else None)
      else Some v)"

definition atoi :: "mem \<Rightarrow> u32 \<Rightarrow> int option" where
  "atoi m s = do {
     s \<leftarrow> atoi_skip m s;
     let (sign, s) = (if m s = 0x2D then (- 1, s + 1) else if m s = 0x2B then (1, s + 1) else (1, s));
     v \<leftarrow> atoi_digits m s 0;
     Some (sign * v)
   }"


declare utoa_loop.simps [simp del]

section \<open>Memory block operations\<close>

lemma of_nat_u32_neq0: "0 < i \<Longrightarrow> i < 2 ^ 32 \<Longrightarrow> (word_of_nat i :: u32) \<noteq> 0"
  using of_nat_u32_inj [of i 0] by simp

lemma off_range_neq:
  "i < n \<Longrightarrow> n < 2 ^ 32 \<Longrightarrow> (d :: u32) \<noteq> d + 1 + word_of_nat i"
  using of_nat_u32_neq0 [of "Suc i"] by (simp add: algebra_simps)

lemma copy_up_outside: "(\<And>i. i < n \<Longrightarrow> x \<noteq> d + word_of_nat i) \<Longrightarrow> copy_up n d s m x = m x"
proof (induction n arbitrary: d s m)
  case (Suc n)
  have "copy_up n (d + 1) (s + 1) (m(d := m s)) x = (m(d := m s)) x"
    using Suc.prems [of "Suc _"] by (intro Suc.IH) (auto simp: algebra_simps)
  then show ?case using Suc.prems [of 0] by simp
qed simp

lemma copy_up_inside:
  assumes "\<And>i. 0 < i \<Longrightarrow> i < n \<Longrightarrow> d \<noteq> s + word_of_nat i" and "n \<le> 2 ^ 32" and "j < n"
  shows "copy_up n d s m (d + word_of_nat j) = m (s + word_of_nat j)"
  using assms
proof (induction n arbitrary: d s m j)
  case (Suc n)
  let ?m = "m(d := m s)"
  show ?case
  proof (cases j)
    case 0
    have "copy_up n (d + 1) (s + 1) ?m d = ?m d"
      using Suc.prems(2) by (intro copy_up_outside off_range_neq) auto
    with 0 show ?thesis by simp
  next
    case (Suc k)
    have "copy_up n (d + 1) (s + 1) ?m (d + 1 + word_of_nat k) = ?m (s + 1 + word_of_nat k)"
      using Suc Suc.prems by (intro Suc.IH) (auto simp: algebra_simps)
    moreover have "s + 1 + word_of_nat k \<noteq> d"
      using Suc Suc.prems(1) [of j] Suc.prems(3) by (auto simp: algebra_simps)
    ultimately show ?thesis using Suc by (simp add: algebra_simps)
  qed
qed simp

lemma copy_down_outside: "(\<And>i. i < n \<Longrightarrow> x \<noteq> d - 1 - word_of_nat i) \<Longrightarrow> copy_down n d s m x = m x"
proof (induction n arbitrary: d s m)
  case (Suc n)
  have "copy_down n (d - 1) (s - 1) (m(d - 1 := m (s - 1))) x = (m(d - 1 := m (s - 1))) x"
    using Suc.prems [of "Suc _"] by (intro Suc.IH) (auto simp: algebra_simps)
  then show ?case using Suc.prems [of 0] by simp
qed simp

lemma copy_down_inside:
  assumes "\<And>i. 0 < i \<Longrightarrow> i < n \<Longrightarrow> s \<noteq> d + word_of_nat i" and "n \<le> 2 ^ 32" and "j < n"
  shows "copy_down n (d + word_of_nat n) (s + word_of_nat n) m (d + word_of_nat j) = m (s + word_of_nat j)"
  using assms
proof (induction n arbitrary: m j)
  case (Suc n)
  let ?m = "m(d + word_of_nat n := m (s + word_of_nat n))"
  have step: "copy_down (Suc n) (d + word_of_nat (Suc n)) (s + word_of_nat (Suc n)) m
      = copy_down n (d + word_of_nat n) (s + word_of_nat n) ?m"
    by (simp add: algebra_simps)
  show ?case
  proof (cases "j = n")
    case True
    have "copy_down n (d + word_of_nat n) (s + word_of_nat n) ?m (d + word_of_nat n) = ?m (d + word_of_nat n)"
    proof (rule copy_down_outside)
      fix i assume "i < n"
      then show "d + word_of_nat n \<noteq> d + word_of_nat n - 1 - word_of_nat i"
        using of_nat_u32_neq0 [of "Suc i"] Suc.prems(2) by (auto simp: algebra_simps)
    qed
    with True step show ?thesis by simp
  next
    case False
    with Suc.prems have "j < n" by simp
    have "copy_down n (d + word_of_nat n) (s + word_of_nat n) ?m (d + word_of_nat j) = ?m (s + word_of_nat j)"
      using Suc.prems \<open>j < n\<close> by (intro Suc.IH) auto
    moreover have "s + word_of_nat j \<noteq> d + word_of_nat n"
    proof
      assume "s + word_of_nat j = d + word_of_nat n"
      then have "s = d + word_of_nat (n - j)"
        using \<open>j < n\<close> by (simp add: of_nat_diff algebra_simps)
      moreover have "s \<noteq> d + word_of_nat (n - j)"
        using \<open>j < n\<close> by (intro Suc.prems(1)) auto
      ultimately show False by contradiction
    qed
    ultimately show ?thesis using step by simp
  qed
qed simp

lemma word_above: "unat (s :: u32) + i < 2 ^ 32 \<Longrightarrow> s \<le> s + word_of_nat i"
  by (simp add: word_le_nat_alt unat_word_ariths)

text \<open>A range of \<open>n\<close> bytes at \<open>a\<close> that does not run past the top of the address space.\<close>

definition no_wrap :: "u32 \<Rightarrow> u32 \<Rightarrow> bool" where
  "no_wrap a n \<longleftrightarrow> unat a + unat n \<le> 2 ^ 32"

lemma copy_up_bytes:
  assumes "\<And>i. 0 < i \<Longrightarrow> i < n \<Longrightarrow> d \<noteq> s + word_of_nat i" and "n \<le> 2 ^ 32"
  shows "bytes (copy_up n d s m) d n = bytes m s n"
  using copy_up_inside [OF assms] by (intro nth_equalityI) auto

lemma memmove_bytes:
  assumes "no_wrap dst n" and "no_wrap src n"
  shows "bytes (memmove dst src n m) dst (unat n) = bytes m src (unat n)"
proof -
  have ne: "x \<noteq> y + word_of_nat i" if "x < y" "i < unat n" "no_wrap y n" for x y i
    using that word_above [of y i] by (auto simp: no_wrap_def)
  consider "dst = src \<or> n = 0" | "dst < src" "n \<noteq> 0" | "src < dst" "n \<noteq> 0"
    by (metis linorder_less_linear)
  then show ?thesis
  proof cases
    case 2
    then show ?thesis using assms(2) ne
      by (auto simp: memmove_def intro!: copy_up_bytes less_imp_le)
  next
    case 3
    then have "copy_down (unat n) (dst + word_of_nat (unat n)) (src + word_of_nat (unat n)) m (dst + word_of_nat j)
        = m (src + word_of_nat j)" if "j < unat n" for j
      using that assms(1) ne by (intro copy_down_inside less_imp_le) auto
    with 3 show ?thesis by (intro nth_equalityI) (auto simp: memmove_def)
  qed (auto simp: memmove_def bytes_def)
qed

lemma memmove_outside:
  assumes "\<And>i. i < unat n \<Longrightarrow> x \<noteq> dst + word_of_nat i"
  shows "memmove dst src n m x = m x"
proof -
  have "copy_down (unat n) (dst + n) (src + n) m x = m x"
  proof (rule copy_down_outside)
    fix i assume "i < unat n"
    then have eq: "dst + n - 1 - word_of_nat i = dst + word_of_nat (unat n - Suc i)"
      by (simp add: of_nat_diff algebra_simps)
    show "x \<noteq> dst + n - 1 - word_of_nat i"
      unfolding eq using \<open>i < unat n\<close> by (intro assms) simp
  qed
  then show ?thesis using copy_up_outside [of "unat n" x dst src m] assms by (auto simp: memmove_def)
qed

text \<open>\<^verbatim>\<open>memcpy\<close> copies upwards only: it is right where no source byte after the first is the
  first target byte.\<close>

lemma memcpy_bytes:
  assumes "\<And>i. 0 < i \<Longrightarrow> i < unat n \<Longrightarrow> dst \<noteq> src + word_of_nat i"
  shows "bytes (memcpy dst src n m) dst (unat n) = bytes m src (unat n)"
  using assms copy_up_bytes [of "unat n" dst src m] less_imp_le [OF unat_u32_lt]
  by (simp add: memcpy_def)

lemma memset_outside: "(\<And>i. i < n \<Longrightarrow> x \<noteq> d + word_of_nat i) \<Longrightarrow> memset_loop n d c m x = m x"
proof (induction n arbitrary: d m)
  case (Suc n)
  have "memset_loop n (d + 1) c (m(d := c)) x = (m(d := c)) x"
    using Suc.prems [of "Suc _"] by (intro Suc.IH) (auto simp: algebra_simps)
  then show ?case using Suc.prems [of 0] by simp
qed simp

lemma memset_inside: "j < n \<Longrightarrow> n \<le> 2 ^ 32 \<Longrightarrow> memset_loop n d c m (d + word_of_nat j) = c"
proof (induction n arbitrary: d m j)
  case (Suc n)
  show ?case
  proof (cases j)
    case 0
    have "memset_loop n (d + 1) c (m(d := c)) d = (m(d := c)) d"
      using Suc.prems(2) by (intro memset_outside off_range_neq) auto
    with 0 show ?thesis by simp
  next
    case (Suc k)
    then show ?thesis using Suc.prems Suc.IH [of k "d + 1"] by (simp add: algebra_simps)
  qed
qed simp

section \<open>Strings in memory and in buffers\<close>

text \<open>\<open>cstr m a xs\<close>: the NUL-terminated string at \<open>a\<close> has the characters \<open>xs\<close>.\<close>

fun cstr :: "mem \<Rightarrow> u32 \<Rightarrow> u8 list \<Rightarrow> bool" where
  "cstr m a [] \<longleftrightarrow> m a = 0"
| "cstr m a (x # xs) \<longleftrightarrow> m a = x \<and> x \<noteq> 0 \<and> cstr m (a + 1) xs"

lemma cstr_no_nul: "cstr m a xs \<Longrightarrow> 0 \<notin> set xs"
  by (induction xs arbitrary: a) auto

lemma cstr_unique: "cstr m a xs \<Longrightarrow> cstr m a ys \<Longrightarrow> xs = ys"
proof (induction xs arbitrary: a ys)
  case (Cons x xs)
  then show ?case by (cases ys) auto
next
  case Nil
  then show ?case by (cases ys) auto
qed

lemma cstr_cong:
  assumes "cstr m a xs" and "\<And>i. i \<le> length xs \<Longrightarrow> m' (a + word_of_nat i) = m (a + word_of_nat i)"
  shows "cstr m' a xs"
  using assms
proof (induction xs arbitrary: a)
  case (Cons x xs)
  have "cstr m' (a + 1) xs"
    using Cons.prems(1) Cons.prems(2) [of "Suc _"] by (intro Cons.IH) (auto simp: algebra_simps)
  then show ?case using Cons.prems(1) Cons.prems(2) [of 0] by simp
qed simp

lemma strlen_loop_cstr:
  "cstr m (s + n) xs \<Longrightarrow> strlen_loop m s n = Some (n + word_of_nat (length xs))"
proof (induction xs arbitrary: n)
  case Nil
  then show ?case by (simp add: strlen_loop.simps)
next
  case (Cons x xs)
  then show ?case by (subst strlen_loop.simps) (simp add: algebra_simps)
qed

lemma strlen_cstr: "cstr m s xs \<Longrightarrow> strlen m s = Some (word_of_nat (length xs))"
  using strlen_loop_cstr [of m s 0 xs] by (simp add: strlen_def)

text \<open>The string comparison on byte lists: \<open>None\<close> when a list ends before the loop does.\<close>

fun strcmp_l :: "u8 list \<Rightarrow> u8 list \<Rightarrow> int option" where
  "strcmp_l (a # as) (b # bs) =
     (if a \<noteq> 0 \<and> a = b then strcmp_l as bs else Some (uint a - uint b))"
| "strcmp_l _ _ = None"

lemma strcmp_refines:
  "cstr m a xs \<Longrightarrow> cstr m b ys \<Longrightarrow> strcmp m a b = strcmp_l (xs @ [0]) (ys @ [0])"
proof (induction xs arbitrary: a b ys)
  case Nil
  then show ?case by (cases ys) (auto simp: strcmp.simps)
next
  case (Cons x xs)
  then show ?case by (cases ys) (auto simp: strcmp.simps)
qed

lemma uint_inj: "uint (a :: u8) = uint b \<longleftrightarrow> a = b"
  by (simp add: word_uint_eq_iff)

lemma strcmp_l_returns:
  "0 \<in> set zs \<Longrightarrow> 0 \<notin> set ys \<Longrightarrow>
     \<exists>r. strcmp_l zs (ys @ [0]) = Some r \<and> (r = 0 \<longleftrightarrow> takeWhile (\<lambda>c. c \<noteq> 0) zs = ys)"
proof (induction zs arbitrary: ys)
  case (Cons z zs)
  then show ?case by (cases ys) (auto simp: uint_0_iff uint_inj)
qed simp

lemma strcmp_l_order:
  "0 \<notin> set xs \<Longrightarrow> 0 \<notin> set ys \<Longrightarrow> strcmp_l (xs @ [0]) (ys @ [0]) = Some r \<Longrightarrow>
     (r < 0 \<longleftrightarrow> (xs, ys) \<in> lexord {(x, y). x < y})"
proof (induction xs arbitrary: ys)
  case Nil
  then show ?case by (cases ys) (auto simp: uint_0_iff order_less_le)
next
  case (Cons x xs)
  then show ?case by (cases ys) (auto simp: word_less_def split: if_splits)
qed

lemma strcpy_loop_cstr:
  assumes "cstr m src xs" and "\<And>i j. i \<le> length xs \<Longrightarrow> j \<le> length xs \<Longrightarrow> d + word_of_nat i \<noteq> src + word_of_nat j"
    and "length xs < 2 ^ 32 - 1"
  shows "\<exists>m'. strcpy_loop d src m = Some m' \<and> cstr m' d xs
    \<and> (\<forall>x. (\<forall>i \<le> length xs. x \<noteq> d + word_of_nat i) \<longrightarrow> m' x = m x)"
  using assms
proof (induction xs arbitrary: d src m)
  case Nil
  then show ?case by (auto simp: strcpy_loop.simps)
next
  case (Cons x xs)
  let ?m = "m(d := x)"
  have "cstr ?m (src + 1) xs"
  proof (rule cstr_cong)
    show "cstr m (src + 1) xs" using Cons.prems(1) by simp
  qed (use Cons.prems(2) [of 0 "Suc _"] in \<open>auto simp: algebra_simps\<close>)
  moreover have "d + 1 + word_of_nat i \<noteq> src + 1 + word_of_nat j" if "i \<le> length xs" "j \<le> length xs" for i j
    using Cons.prems(2) [of "Suc i" "Suc j"] that by (simp add: algebra_simps)
  ultimately have "\<exists>m'. strcpy_loop (d + 1) (src + 1) ?m = Some m' \<and> cstr m' (d + 1) xs
      \<and> (\<forall>y. (\<forall>i \<le> length xs. y \<noteq> d + 1 + word_of_nat i) \<longrightarrow> m' y = ?m y)"
    using Cons.prems(3) by (intro Cons.IH) (auto simp: fun_upd_def)
  then obtain m' where m': "strcpy_loop (d + 1) (src + 1) ?m = Some m'" "cstr m' (d + 1) xs"
      "\<forall>y. (\<forall>i \<le> length xs. y \<noteq> d + 1 + word_of_nat i) \<longrightarrow> m' y = ?m y"
    by blast
  have "m' d = x"
    using m'(3) off_range_neq [of _ "length xs + 1" d] Cons.prems(3) by auto
  moreover have "m' y = m y" if "\<forall>i \<le> length (x # xs). y \<noteq> d + word_of_nat i" for y
    using that [rule_format, of 0] that [rule_format, of "Suc _"] m'(3) by (auto simp: algebra_simps)
  ultimately show ?case
    using Cons.prems(1) m'(1,2) by (subst strcpy_loop.simps) (auto simp: Let_def)
qed

text \<open>What \<^verbatim>\<open>strncpy(dst, src, n)\<close> leaves in the \<open>n\<close> target bytes: the string cut to \<open>n\<close> and
  padded with NULs. The file system applies it to its block buffers.\<close>

definition strncpy_bytes :: "nat \<Rightarrow> u8 list \<Rightarrow> u8 list" where
  "strncpy_bytes n xs = take n (xs @ replicate n 0)"

lemma length_strncpy_bytes [simp]: "length (strncpy_bytes n xs) = n"
  by (simp add: strncpy_bytes_def)

lemma strncpy_pad_memset: "strncpy_pad n d m = memset_loop n d 0 m"
  by (induction n d m rule: strncpy_pad.induct) (auto simp: fun_upd_def)

lemma strncpy_outside: "(\<And>i. i < n \<Longrightarrow> x \<noteq> d + word_of_nat i) \<Longrightarrow> strncpy_loop n d s m x = m x"
proof (induction n arbitrary: d s m)
  case (Suc n)
  have "strncpy_loop n (d + 1) (s + 1) (m(d := m s)) x = (m(d := m s)) x"
    using Suc.prems [of "Suc _"] by (intro Suc.IH) (auto simp: algebra_simps)
  moreover have "strncpy_pad (Suc n) d m x = m x"
    unfolding strncpy_pad_memset using Suc.prems by (rule memset_outside)
  ultimately show ?case using Suc.prems [of 0] by simp
qed simp

lemma strncpy_loop_bytes:
  assumes "cstr m s xs" and "\<And>i j. i < n \<Longrightarrow> j \<le> length xs \<Longrightarrow> d + word_of_nat i \<noteq> s + word_of_nat j"
    and "n \<le> 2 ^ 32" and "k < n"
  shows "strncpy_loop n d s m (d + word_of_nat k) = strncpy_bytes n xs ! k"
  using assms
proof (induction n arbitrary: d s m xs k)
  case (Suc n)
  show ?case
  proof (cases xs)
    case Nil
    then show ?thesis
      using Suc.prems memset_inside [of k "Suc n" d 0 m]
      by (simp add: strncpy_pad_memset strncpy_bytes_def nth_Cons' del: memset_loop.simps)
  next
    case (Cons x xs')
    let ?m = "m(d := x)"
    have ms: "m s = x" "x \<noteq> 0" and c: "cstr m (s + 1) xs'" using Suc.prems(1) Cons by auto
    have c': "cstr ?m (s + 1) xs'"
      by (rule cstr_cong [OF c]) (use Suc.prems(2) [of 0 "Suc _"] Cons in \<open>auto simp: algebra_simps\<close>)
    have ne: "d + 1 + word_of_nat i \<noteq> s + 1 + word_of_nat j" if "i < n" "j \<le> length xs'" for i j
      using Suc.prems(2) [of "Suc i" "Suc j"] that Cons by (simp add: algebra_simps)
    show ?thesis
    proof (cases k)
      case 0
      have "strncpy_loop n (d + 1) (s + 1) ?m d = ?m d"
        using Suc.prems(3) by (intro strncpy_outside off_range_neq) auto
      with 0 ms Cons show ?thesis by (simp add: strncpy_bytes_def)
    next
      case (Suc j)
      have "strncpy_loop n (d + 1) (s + 1) ?m (d + 1 + word_of_nat j) = strncpy_bytes n xs' ! j"
        using c' ne Suc.prems(3,4) Suc by (intro Suc.IH) (auto simp: fun_upd_def)
      with Suc ms Cons Suc.prems(4) show ?thesis
        by (auto simp: strncpy_bytes_def algebra_simps nth_append nth_Cons')
    qed
  qed
qed simp

section \<open>Number conversion\<close>

text \<open>The decimal digits of a number, most significant first, and the number a digit list denotes.\<close>

fun dec_from :: "int \<Rightarrow> u8 list \<Rightarrow> int" where
  "dec_from v [] = v"
| "dec_from v (d # ds) = dec_from (v * 10 + (uint d - 0x30)) ds"

definition is_digit :: "u8 \<Rightarrow> bool" where
  "is_digit d \<longleftrightarrow> 0x30 \<le> d \<and> d \<le> 0x39"

lemma is_digit_uint: "is_digit d \<longleftrightarrow> 0x30 \<le> uint d \<and> uint d \<le> 0x39"
  by (simp add: is_digit_def word_le_def)

lemma dec_from_append: "dec_from v (xs @ [d]) = dec_from v xs * 10 + (uint d - 0x30)"
  by (induction xs arbitrary: v) auto

lemma dec_from_ge: "0 \<le> v \<Longrightarrow> list_all is_digit ds \<Longrightarrow> v \<le> dec_from v ds"
proof (induction ds arbitrary: v)
  case (Cons d ds)
  then have "v * 10 + (uint d - 0x30) \<le> dec_from (v * 10 + (uint d - 0x30)) ds"
    by (intro Cons.IH) (auto simp: is_digit_uint)
  with Cons.prems show ?case by (auto simp: is_digit_uint)
qed simp

lemma atoi_digits_cstr:
  assumes "cstr m s ds" and "list_all is_digit ds" and "0 \<le> v" and "dec_from v ds \<le> INT_MAX"
  shows "atoi_digits m s v = Some (dec_from v ds)"
  using assms
proof (induction ds arbitrary: s v)
  case Nil
  then show ?case by (simp add: atoi_digits.simps)
next
  case (Cons d ds)
  let ?v = "v * 10 + (uint d - 0x30)"
  have "0 \<le> ?v" using Cons.prems by (simp add: is_digit_uint)
  moreover from this have "?v \<le> INT_MAX"
    using dec_from_ge [of ?v ds] Cons.prems by simp
  ultimately show ?case
    using Cons.prems Cons.IH [of "s + 1" ?v] by (subst atoi_digits.simps) (simp add: is_digit_def)
qed

lemma utoa_loop_append: "utoa_loop base v (xs @ tmp) = xs @ utoa_loop base v tmp"
proof (induction base v tmp rule: utoa_loop.induct)
  case (1 base v tmp)
  then show ?case
    by (simp add: utoa_loop.simps [of base v tmp] utoa_loop.simps [of base v "xs @ tmp"])
qed

lemma utoa_loop_zero [simp]: "utoa_loop base 0 tmp = tmp"
  by (simp add: utoa_loop.simps)

lemma utoa_loop_step:
  "v \<noteq> 0 \<Longrightarrow> 2 \<le> base \<Longrightarrow>
     utoa_loop base v [] = digits ! unat (v mod base) # utoa_loop base (v div base) []"
  using utoa_loop_append [of base "v div base" "[digits ! unat (v mod base)]" "[]"]
  by (simp add: utoa_loop.simps [of base v "[]"])

text \<open>The bound that keeps \<^verbatim>\<open>tmp[33]\<close> from overflowing.\<close>

lemma utoa_loop_length:
  "2 \<le> base \<Longrightarrow> unat v < unat base ^ k \<Longrightarrow> length (utoa_loop base v []) \<le> k"
proof (induction k arbitrary: v)
  case 0
  then have "v = 0" by (simp add: unat_eq_zero)
  then show ?case by simp
next
  case (Suc k)
  show ?case
  proof (cases "v = 0")
    case False
    have "unat (v div base) < unat base ^ k"
      using Suc.prems by (simp add: unat_div less_mult_imp_div_less mult.commute)
    with False Suc show ?thesis by (simp add: utoa_loop_step)
  qed simp
qed

lemma digits_small: "n < 16 \<Longrightarrow> digits ! n \<noteq> 0 \<and> (n < 10 \<longrightarrow> uint (digits ! n) = 0x30 + int n)"
proof -
  have "list_all (\<lambda>n. digits ! n \<noteq> 0 \<and> (n < 10 \<longrightarrow> uint (digits ! n) = 0x30 + int n)) [0..<16]"
    by code_simp
  then show "n < 16 \<Longrightarrow> digits ! n \<noteq> 0 \<and> (n < 10 \<longrightarrow> uint (digits ! n) = 0x30 + int n)"
    by (simp add: list_all_iff)
qed

lemma u32_div_induct:
  assumes "2 \<le> base" and "P 0" and "\<And>v. v \<noteq> 0 \<Longrightarrow> P (v div base) \<Longrightarrow> P v"
  shows "P (v :: u32)"
proof (induction "unat v" arbitrary: v rule: less_induct)
  case less
  show ?case
  proof (cases "v = 0")
    case False
    then have "unat (v div base) < unat v"
      using assms(1) by (simp add: unat_div word_le_nat_alt unat_gt_0)
    with less assms(3) False show ?thesis by blast
  qed (simp add: assms(2))
qed

lemma utoa_loop_no_nul:
  assumes "2 \<le> base" and "base \<le> 16"
  shows "0 \<notin> set (utoa_loop base v [])"
proof (induction v rule: u32_div_induct [OF assms(1)])
  case (2 v)
  have "unat (v mod base) < 16"
    using assms by (simp add: unat_mod word_le_nat_alt) (meson le_trans mod_less_divisor less_le_trans zero_less_numeral)
  with 2 digits_small [of "unat (v mod base)"] show ?case using assms(1) by (auto simp: utoa_loop_step)
qed simp

lemma utoa_loop_decimal:
  "list_all is_digit (rev (utoa_loop 10 v [])) \<and> dec_from 0 (rev (utoa_loop 10 v [])) = uint v"
proof (induction v rule: u32_div_induct [of 10])
  case (3 v)
  have "unat (v mod 10) < 10" by (simp add: unat_mod)
  then have d: "uint (digits ! unat (v mod 10)) = 0x30 + uint (v mod 10)" "uint (v mod 10) < 10"
    using digits_small [of "unat (v mod 10)"] by (auto simp: uint_mod)
  with 3 show ?case
    by (simp add: utoa_loop_step dec_from_append is_digit_uint uint_div uint_mod)
qed auto

lemma utoa_emit_outside: "(\<And>k. k \<le> i \<Longrightarrow> x \<noteq> p + word_of_nat k) \<Longrightarrow> utoa_emit i tmp p m x = m x"
proof (induction i arbitrary: p m)
  case (Suc i)
  have "utoa_emit i tmp (p + 1) (m(p := tmp ! i)) x = (m(p := tmp ! i)) x"
    using Suc.prems [of "Suc _"] by (intro Suc.IH) (auto simp: algebra_simps)
  then show ?case using Suc.prems [of 0] by simp
qed (use spec in \<open>force\<close>)

lemma utoa_emit_cstr:
  "0 \<notin> set tmp \<Longrightarrow> i \<le> length tmp \<Longrightarrow> i < 2 ^ 32 - 1 \<Longrightarrow> cstr (utoa_emit i tmp p m) p (rev (take i tmp))"
proof (induction i arbitrary: p m)
  case (Suc i)
  have "utoa_emit i tmp (p + 1) (m(p := tmp ! i)) p = tmp ! i"
    using Suc.prems off_range_neq [of _ "Suc i" p] by (subst utoa_emit_outside) auto
  moreover have "tmp ! i \<noteq> 0" using Suc.prems by (metis Suc_le_eq nth_mem)
  ultimately show ?case using Suc by (simp add: take_Suc_conv_app_nth)
qed simp

text \<open>The string \<^verbatim>\<open>utoa\<close> writes.\<close>

definition utoa_str :: "u32 \<Rightarrow> u32 \<Rightarrow> u8 list" where
  "utoa_str base v = (if v = 0 then [0x30] else rev (utoa_loop base v []))"

lemma utoa_emits:
  assumes "2 \<le> base" and "base \<le> 16"
  shows "utoa v buf base m = (let s = rev (utoa_str (word_of_int base) v) in utoa_emit (length s) s buf m)"
  using assms by (auto simp: utoa_def utoa_str_def Let_def)

lemma word_of_int_base: "2 \<le> base \<Longrightarrow> base \<le> 16 \<Longrightarrow> (2::u32) \<le> word_of_int base \<and> word_of_int base \<le> (16::u32)"
  by (simp add: word_le_def uint_word_of_int)

lemma utoa_str_length: "2 \<le> base \<Longrightarrow> unat v < unat base ^ k \<Longrightarrow> 0 < k \<Longrightarrow> length (utoa_str base v) \<le> k"
  using utoa_loop_length [of base v k] by (simp add: utoa_str_def Suc_leI)

lemma utoa_str_no_nul: "2 \<le> base \<Longrightarrow> base \<le> 16 \<Longrightarrow> 0 \<notin> set (utoa_str base v)"
  using utoa_loop_no_nul by (simp add: utoa_str_def)

lemma utoa_str_length32: "2 \<le> base \<Longrightarrow> length (utoa_str base v) \<le> 32"
proof (rule utoa_str_length)
  assume b: "2 \<le> base"
  then have "(2 :: nat) ^ 32 \<le> unat base ^ 32"
    by (intro power_mono) (auto simp: word_le_nat_alt)
  then show "unat v < unat base ^ 32" using less_le_trans [OF unat_u32_lt [of v]] by simp
qed auto

lemma utoa_cstr:
  assumes "2 \<le> base" and "base \<le> 16"
  shows "cstr (utoa v buf base m) buf (utoa_str (word_of_int base) v)"
proof -
  let ?s = "rev (utoa_str (word_of_int base) v)"
  have "0 \<notin> set ?s" and "length ?s < 2 ^ 32 - 1"
    using utoa_str_no_nul utoa_str_length32 [of "word_of_int base" v] word_of_int_base [OF assms] by auto
  then have "cstr (utoa_emit (length ?s) ?s buf m) buf (rev (take (length ?s) ?s))"
    by (intro utoa_emit_cstr) auto
  then show ?thesis by (simp add: utoa_emits [OF assms])
qed

lemma utoa_outside:
  assumes "2 \<le> base" and "base \<le> 16" and "\<And>k. k \<le> length (utoa_str (word_of_int base) v) \<Longrightarrow> x \<noteq> buf + word_of_nat k"
  shows "utoa v buf base m x = m x"
  using assms(3) by (simp add: utoa_emits [OF assms(1,2)] utoa_emit_outside)

lemma utoa_str_decimal:
  "list_all is_digit (utoa_str 10 v) \<and> dec_from 0 (utoa_str 10 v) = uint v \<and> utoa_str 10 v \<noteq> []"
  using utoa_loop_decimal [of v] utoa_loop_step [of v 10] by (auto simp: utoa_str_def is_digit_def)

definition itoa_str :: "int \<Rightarrow> u8 list" where
  "itoa_str v = (if v < 0 then 0x2D # utoa_str 10 (word_of_int (- v)) else utoa_str 10 (word_of_int v))"

lemma itoa_cstr: "cstr (itoa v buf m) buf (itoa_str v)"
proof -
  have "utoa u (buf + 1) 10 m' buf = m' buf" for u m'
  proof (rule utoa_outside)
    fix k assume "k \<le> length (utoa_str (word_of_int 10) u)"
    also have "\<dots> \<le> 32" by (rule utoa_str_length32) simp
    finally show "buf \<noteq> buf + 1 + word_of_nat k" by (intro off_range_neq [of k 33]) auto
  qed auto
  then show ?thesis
    using utoa_cstr [of 10 _ "buf + 1"] utoa_cstr [of 10 _ buf] by (simp add: itoa_def itoa_str_def)
qed

lemma itoa_str_length: "INT_MIN \<le> v \<Longrightarrow> v \<le> INT_MAX \<Longrightarrow> length (itoa_str v) \<le> 11"
proof -
  have "length (utoa_str 10 u) \<le> 10" for u
    by (rule utoa_str_length) (auto intro: less_trans [OF unat_u32_lt])
  then show ?thesis by (auto simp: itoa_str_def intro: le_trans [of _ 10 11])
qed

lemma itoa_outside:
  assumes "INT_MIN \<le> v" and "v \<le> INT_MAX" and "\<And>k. k < 12 \<Longrightarrow> x \<noteq> buf + word_of_nat k"
  shows "itoa v buf m x = m x"
proof (cases "v < 0")
  case True
  have "utoa (word_of_int (- v)) (buf + 1) 10 (m(buf := 0x2D)) x = (m(buf := 0x2D)) x"
  proof (rule utoa_outside)
    fix k assume "k \<le> length (utoa_str (word_of_int 10) (word_of_int (- v)))"
    then have "Suc k < 12" using itoa_str_length [OF assms(1,2)] True by (simp add: itoa_str_def)
    from assms(3) [OF this] show "x \<noteq> buf + 1 + word_of_nat k" by (simp add: algebra_simps)
  qed auto
  with True assms(3) [of 0] show ?thesis by (simp add: itoa_def)
next
  case False
  have "k < 12" if "k \<le> length (utoa_str (word_of_int 10) (word_of_int v))" for k
    using that itoa_str_length [OF assms(1,2)] False by (simp add: itoa_str_def)
  then have "utoa (word_of_int v) buf 10 m x = m x"
    using assms(3) by (intro utoa_outside) auto
  with False show ?thesis by (simp add: itoa_def)
qed

lemma uint_u32_of_int: "0 \<le> k \<Longrightarrow> k < 2 ^ 32 \<Longrightarrow> uint (word_of_int k :: u32) = k"
  by (simp add: uint_word_of_int)

lemma atoi_skip_id: "m s \<noteq> 0x20 \<Longrightarrow> m s \<noteq> 0x09 \<Longrightarrow> atoi_skip m s = Some s"
  by (simp add: atoi_skip.simps)

lemma atoi_unsigned:
  assumes "cstr m s (utoa_str 10 u)" and "uint u \<le> INT_MAX"
  shows "atoi_digits m s 0 = Some (uint u)"
  using atoi_digits_cstr [OF assms(1)] assms(2) utoa_str_decimal [of u] by simp

lemma cstr_head: "cstr m s xs \<Longrightarrow> xs \<noteq> [] \<Longrightarrow> m s = hd xs"
  by (cases xs) auto

lemma atoi_itoa_str:
  assumes "cstr m s (itoa_str v)" and "INT_MIN < v" and "v \<le> INT_MAX"
  shows "atoi m s = Some v"
proof (cases "v < 0")
  case True
  then have c: "m s = 0x2D" "cstr m (s + 1) (utoa_str 10 (word_of_int (- v)))"
    using assms(1) by (auto simp: itoa_str_def)
  have u: "uint (word_of_int (- v) :: u32) = - v" using assms True by (intro uint_u32_of_int) auto
  have "atoi_digits m (s + 1) 0 = Some (- v)"
    using atoi_unsigned [OF c(2)] assms(2) unfolding u by simp
  with c(1) show ?thesis by (simp add: atoi_def atoi_skip_id)
next
  case False
  let ?ds = "utoa_str 10 (word_of_int v)"
  have c: "cstr m s ?ds" and d: "list_all is_digit ?ds" "?ds \<noteq> []"
    using assms(1) False utoa_str_decimal [of "word_of_int v"] by (auto simp: itoa_str_def)
  have "is_digit (m s)" using c d cstr_head [OF c] by (cases ?ds) auto
  then have "m s \<noteq> 0x20" "m s \<noteq> 0x09" "m s \<noteq> 0x2D" "m s \<noteq> 0x2B" by (auto simp: is_digit_def)
  moreover have "uint (word_of_int v :: u32) = v" using assms False by (intro uint_u32_of_int) auto
  ultimately show ?thesis using atoi_unsigned [OF c] assms(3) by (simp add: atoi_def atoi_skip_id)
qed

section \<open>Properties\<close>

text \<open>\<^verbatim>\<open>memmove\<close> copies \<open>n\<close> bytes correctly for every overlap of the two ranges (neither
  running past the end of the address space) and changes no byte outside the target.\<close>

theorem memmove_correct:
  assumes "no_wrap dst n" and "no_wrap src n"
  shows "bytes (memmove dst src n m) dst (unat n) = bytes m src (unat n)
    \<and> (\<forall>x. (\<forall>i < unat n. x \<noteq> dst + word_of_nat i) \<longrightarrow> memmove dst src n m x = m x)"
  using memmove_bytes [OF assms] memmove_outside by blast

theorem memmove_correct_witness:
  "bytes (memmove 101 100 3 (\<lambda>a. ucast a)) 101 3 = [100, 101, 102]"
proof -
  have "no_wrap 101 3" and "no_wrap 100 3" by (simp_all add: no_wrap_def)
  from memmove_correct [OF this, of "\<lambda>a. ucast a"] show ?thesis
    by (simp add: bytes_def upt_rec)
qed

text \<open>\<^verbatim>\<open>strcmp\<close> returns on terminated strings; the result is zero exactly for equal strings,
  and negative exactly when the first is smaller in byte-wise lexicographic order.\<close>

theorem strcmp_correct:
  assumes "cstr m a xs" and "cstr m b ys"
  shows "\<exists>r. strcmp m a b = Some r \<and> (r = 0 \<longleftrightarrow> xs = ys)
    \<and> (r < 0 \<longleftrightarrow> (xs, ys) \<in> lexord {(x, y). x < y})"
proof -
  have n: "0 \<notin> set xs" "0 \<notin> set ys" using assms by (auto dest: cstr_no_nul)
  then have tw: "takeWhile (\<lambda>c. c \<noteq> 0) (xs @ [0]) = xs" by (subst takeWhile_append2) auto
  from strcmp_l_returns [of "xs @ [0]" ys] n tw
  obtain r where "strcmp_l (xs @ [0]) (ys @ [0]) = Some r" "r = 0 \<longleftrightarrow> xs = ys" by auto
  with strcmp_l_order [OF n] strcmp_refines [OF assms] show ?thesis by auto
qed

theorem strcmp_correct_witness:
  "\<exists>r. strcmp ((\<lambda>a. 0)(8 := 97, 20 := 97, 21 := 98)) 8 20 = Some r \<and> r < 0"
  using strcmp_correct [of "(\<lambda>a. 0)(8 := 97, 20 := 97, 21 := 98)" 8 "[97]" 20 "[97, 98]"]
  by auto

text \<open>\<^verbatim>\<open>atoi\<close> reads back what \<^verbatim>\<open>itoa\<close> printed, for every \<^verbatim>\<open>int\<close> except the least one (whose
  magnitude overflows \<^verbatim>\<open>int\<close> inside \<^verbatim>\<open>atoi\<close>).\<close>

theorem atoi_itoa_roundtrip:
  assumes "INT_MIN < v" and "v \<le> INT_MAX"
  shows "atoi (itoa v buf m) buf = Some v"
  using itoa_cstr assms by (rule atoi_itoa_str)

theorem atoi_itoa_roundtrip_witness: "atoi (itoa (- 40321) 0x1000 (\<lambda>_. 0xCC)) 0x1000 = Some (- 40321)"
  using atoi_itoa_roundtrip [of "- 40321" "0x1000"] by simp

text \<open>\<^verbatim>\<open>itoa\<close> writes only the twelve bytes from its buffer on, for every \<^verbatim>\<open>int\<close>: the
  16-byte buffers of \<^verbatim>\<open>kprint_dec\<close> and of the boot counter cannot overflow.\<close>

theorem itoa_bounded:
  assumes "INT_MIN \<le> v" and "v \<le> INT_MAX" and "\<forall>k < 12. x \<noteq> buf + word_of_nat k"
  shows "itoa v buf m x = m x"
  using assms(1,2) by (rule itoa_outside) (use assms(3) in blast)

theorem itoa_bounded_witness: "itoa (- 2147483648) 0x1000 (\<lambda>_. 0xCC) 0x100C = 0xCC"
proof -
  have "list_all (\<lambda>k. (0x100C :: u32) \<noteq> 0x1000 + word_of_nat k) [0..<12]" by code_simp
  then have "\<forall>k < 12. (0x100C :: u32) \<noteq> 0x1000 + word_of_nat k" by (simp add: list_all_iff)
  from itoa_bounded [OF _ _ this, of "- 2147483648"] show ?thesis by simp
qed

end
