(* ===== verification/Task.thy ===== *)
theory Task
  imports Ring Heap_Store Cstring
begin

text \<open>
  \<^verbatim>\<open>kernel/task.c\<close> with the context switch of \<^verbatim>\<open>kernel/switch.asm\<close>. Control blocks live in a typed
  store keyed by the addresses \<^verbatim>\<open>kmalloc\<close> returned; stacks are bytes of the heap's memory, so the
  frames that \<^verbatim>\<open>task_create\<close> synthesizes and \<^verbatim>\<open>context_switch\<close> pushes and pops are real words there.
  The addresses of code (\<^verbatim>\<open>task_exit\<close>, \<^verbatim>\<open>task_bootstrap\<close>, the instruction after the call in
  \<^verbatim>\<open>schedule\<close>) are a parameter. \<open>None\<close> is a call that does not return.
\<close>

section \<open>Model\<close>

datatype task_state = TASK_RUNNING | TASK_READY | TASK_DEAD

record task_t =
  t_esp :: u32
  t_stack_base :: u32
  t_kstack_base :: u32
  t_kstack_top :: u32
  t_id :: u32
  t_name :: "u8 list"
  t_state :: task_state
  t_entry :: u32
  t_next :: u32

text \<open>The registers a context consists of, the interrupt flag, and whether the processor has entered
  the final \<^verbatim>\<open>hlt\<close> loop with interrupts off.\<close>

record cpu =
  ebx :: u32
  esi :: u32
  edi :: u32
  ebp :: u32
  esp :: u32
  eip :: u32
  int_flag :: bool
  halted :: bool

record tsys =
  current :: u32
  head :: u32
  next_id :: u32
  scheduling_on :: bool
  tcb :: "u32 \<Rightarrow> task_t"
  heap :: kheap
  tss_esp0 :: u32
  proc :: cpu

record code_addrs =
  a_task_exit :: u32
  a_task_bootstrap :: u32
  a_after_switch :: u32

abbreviation (input) "STACK_SIZE \<equiv> 16384 :: u32"
abbreviation (input) "KSTACK_SIZE \<equiv> 8192 :: u32"
abbreviation (input) "TASK_NAME_MAX \<equiv> 32 :: nat"
abbreviation (input) "SIZEOF_TASK \<equiv> 64 :: u32"

subsection \<open>switch.asm\<close>

definition push :: "u32 \<Rightarrow> cpu \<times> mem \<Rightarrow> cpu \<times> mem" where
  "push w cm = (let (c, m) = cm; a = esp c - 4 in (c\<lparr>esp := a\<rparr>, st32 a w m))"

definition context_switch :: "u32 \<Rightarrow> cpu \<times> mem \<Rightarrow> u32 \<times> cpu \<times> mem" where
  "context_switch new_esp cm =
     (let cm = push (ebx (fst cm)) cm;
          cm = push (esi (fst cm)) cm;
          cm = push (edi (fst cm)) cm;
          (c, m) = push (ebp (fst cm)) cm;
          saved = esp c;
          sp = new_esp
      in (saved, c\<lparr>ebp := ld32 m sp, edi := ld32 m (sp + 4), esi := ld32 m (sp + 8), ebx := ld32 m (sp + 12),
                   eip := ld32 m (sp + 16), esp := sp + 20\<rparr>, m))"

subsection \<open>task.c\<close>

definition kstack_top_of :: "u32 \<Rightarrow> u32" where
  "kstack_top_of base = (if base \<noteq> 0 then (base + KSTACK_SIZE) AND NOT 15 else 0)"

definition set_tcb :: "u32 \<Rightarrow> (task_t \<Rightarrow> task_t) \<Rightarrow> tsys \<Rightarrow> tsys" where
  "set_tcb p f s = s\<lparr>tcb := (tcb s)(p := f (tcb s p))\<rparr>"

definition set_next :: "u32 \<Rightarrow> u32 \<Rightarrow> tsys \<Rightarrow> tsys" where
  "set_next p q = set_tcb p (t_next_update (\<lambda>_. q))"

definition get_next :: "tsys \<Rightarrow> u32 \<Rightarrow> u32" where
  "get_next s p = t_next (tcb s p)"

definition set_state :: "u32 \<Rightarrow> task_state \<Rightarrow> tsys \<Rightarrow> tsys" where
  "set_state p st = set_tcb p (t_state_update (\<lambda>_. st))"

definition tss_set_kernel_stack :: "u32 \<Rightarrow> tsys \<Rightarrow> tsys" where
  "tss_set_kernel_stack e s = s\<lparr>tss_esp0 := e\<rparr>"

text \<open>\<^verbatim>\<open>strncpy\<close> to the name field and the terminator.\<close>

definition task_name :: "u8 list \<Rightarrow> u8 list" where
  "task_name name = strncpy_bytes (TASK_NAME_MAX - 1) name @ [0]"

definition KERNEL_NAME :: "u8 list" where
  "KERNEL_NAME = map of_char ''kernel''"

definition tasking_init :: "tsys \<Rightarrow> tsys option" where
  "tasking_init s = do {
     (t, h) \<leftarrow> kmalloc SIZEOF_TASK (heap s);
     let s = s\<lparr>heap := h, current := t\<rparr>;
     let s = set_tcb t (\<lambda>b. b\<lparr>t_id := next_id s, t_name := task_name KERNEL_NAME, t_state := TASK_RUNNING, t_entry := 0,
                              t_stack_base := 0\<rparr>) (s\<lparr>next_id := next_id s + 1\<rparr>);
     (k, h) \<leftarrow> kmalloc KSTACK_SIZE (heap s);
     let s = set_tcb t (\<lambda>b. b\<lparr>t_kstack_base := k, t_kstack_top := kstack_top_of k\<rparr>) (s\<lparr>heap := h\<rparr>);
     let s = set_next t t s;
     let s = s\<lparr>head := t, scheduling_on := True\<rparr>;
     Some (tss_set_kernel_stack (t_kstack_top (tcb s t)) s)
   }"

text \<open>The six words of the first frame, downwards from the top of the stack.\<close>

fun push_words :: "u32 list \<Rightarrow> u32 \<Rightarrow> mem \<Rightarrow> u32 \<times> mem" where
  "push_words [] sp m = (sp, m)"
| "push_words (w # ws) sp m = push_words ws (sp - 4) (st32 (sp - 4) w m)"

definition task_create :: "code_addrs \<Rightarrow> u8 list \<Rightarrow> u32 \<Rightarrow> tsys \<Rightarrow> (u32 \<times> tsys) option" where
  "task_create cd name entry s = do {
     (t, h) \<leftarrow> kmalloc SIZEOF_TASK (heap s);
     if t = 0 then Some (0, s\<lparr>heap := h\<rparr>) else do {
       (b, h) \<leftarrow> kmalloc STACK_SIZE h;
       let s = set_tcb t (\<lambda>x. x\<lparr>t_stack_base := b\<rparr>) s;
       if b = 0 then do { h \<leftarrow> kfree t h; Some (0, s\<lparr>heap := h\<rparr>) } else do {
         (k, h) \<leftarrow> kmalloc KSTACK_SIZE h;
         let s = set_tcb t (\<lambda>x. x\<lparr>t_kstack_base := k\<rparr>) s;
         if k = 0 then do { h \<leftarrow> kfree b h; h \<leftarrow> kfree t h; Some (0, s\<lparr>heap := h\<rparr>) } else do {
           let s = set_tcb t (\<lambda>x. x\<lparr>t_kstack_top := kstack_top_of k, t_id := next_id s, t_name := task_name name,
                                    t_state := TASK_READY, t_entry := entry\<rparr>) (s\<lparr>next_id := next_id s + 1\<rparr>);
           let (sp, m) = push_words [a_task_exit cd, a_task_bootstrap cd, 0, 0, 0, 0] (b + STACK_SIZE) (kmem h);
           let s = set_tcb t (\<lambda>x. x\<lparr>t_esp := sp\<rparr>) (s\<lparr>heap := h\<lparr>kmem := m\<rparr>\<rparr>);
           let s = set_next t (get_next s (head s)) s;
           Some (t, set_next (head s) t s)
         }
       }
     }
   }"

partial_function (option) schedule_next :: "tsys \<Rightarrow> u32 \<Rightarrow> u32 option" where
  "schedule_next s nx =
     (if t_state (tcb s nx) = TASK_DEAD \<and> nx \<noteq> current s then schedule_next s (get_next s nx) else Some nx)"

text \<open>The call of \<^verbatim>\<open>context_switch(&prev->esp, next->esp)\<close>: arguments and return address are pushed, and
  the stack pointer is stored through the first argument, the address of \<^verbatim>\<open>prev->esp\<close>.\<close>

definition switch_to :: "code_addrs \<Rightarrow> u32 \<Rightarrow> u32 \<Rightarrow> tsys \<Rightarrow> tsys" where
  "switch_to cd prev nx s =
     (let cm = push (t_esp (tcb s nx)) (proc s, kmem (heap s));
          cm = push prev cm;
          cm = push (a_after_switch cd) cm;
          (saved, c, m) = context_switch (t_esp (tcb s nx)) cm
      in set_tcb prev (\<lambda>b. b\<lparr>t_esp := saved\<rparr>) (s\<lparr>proc := c, heap := (heap s)\<lparr>kmem := m\<rparr>\<rparr>))"

definition schedule :: "code_addrs \<Rightarrow> tsys \<Rightarrow> tsys option" where
  "schedule cd s =
     (if \<not> scheduling_on s then Some s else do {
        let prev = current s;
        nx \<leftarrow> schedule_next s (get_next s prev);
        if nx = current s then Some s else do {
          let s = (if t_state (tcb s prev) = TASK_RUNNING then set_state prev TASK_READY s else s);
          let s = set_state nx TASK_RUNNING s;
          let s = s\<lparr>current := nx\<rparr>;
          let s = tss_set_kernel_stack (t_kstack_top (tcb s nx)) s;
          Some (switch_to cd prev nx s)
        }
      })"

definition cli :: "tsys \<Rightarrow> tsys" where "cli s = s\<lparr>proc := (proc s)\<lparr>int_flag := False\<rparr>\<rparr>"
definition sti :: "tsys \<Rightarrow> tsys" where "sti s = s\<lparr>proc := (proc s)\<lparr>int_flag := True\<rparr>\<rparr>"

text \<open>When \<^verbatim>\<open>schedule\<close> switches, the \<^verbatim>\<open>sti\<close> that follows is executed by the task that resumes, in its own
  call of \<^verbatim>\<open>yield\<close>; the caller's runs when it is switched back to.\<close>

definition yield :: "code_addrs \<Rightarrow> tsys \<Rightarrow> tsys option" where
  "yield cd s = do {
     s' \<leftarrow> schedule cd (cli s);
     Some (if current s' = current s then sti s' else s')
   }"

text \<open>\<^verbatim>\<open>schedule\<close> returns here only when there is nothing else to run; then the processor halts for good.\<close>

definition task_exit :: "code_addrs \<Rightarrow> tsys \<Rightarrow> tsys option" where
  "task_exit cd s = do {
     let s = cli s;
     let s = set_state (current s) TASK_DEAD s;
     let s = s\<lparr>scheduling_on := True\<rparr>;
     s' \<leftarrow> schedule cd s;
     Some (if current s' = current s then s'\<lparr>proc := (proc s')\<lparr>halted := True\<rparr>\<rparr> else s')
   }"

text \<open>The body of a task is the parameter \<open>run\<close>, given the entry address.\<close>

definition task_bootstrap :: "code_addrs \<Rightarrow> (u32 \<Rightarrow> tsys \<Rightarrow> tsys option) \<Rightarrow> tsys \<Rightarrow> tsys option" where
  "task_bootstrap cd run s = do {
     let s = sti s;
     s \<leftarrow> run (t_entry (tcb s (current s))) s;
     task_exit cd s
   }"

partial_function (option) task_count_loop :: "tsys \<Rightarrow> u32 \<Rightarrow> int \<Rightarrow> int option" where
  "task_count_loop s t n =
     (let n = (if t_state (tcb s t) \<noteq> TASK_DEAD then n + 1 else n);
          t = get_next s t
      in if t \<noteq> head s then task_count_loop s t n else Some n)"

definition task_count :: "tsys \<Rightarrow> int option" where
  "task_count s = task_count_loop s (head s) 0"

definition task_current :: "tsys \<Rightarrow> u32" where
  "task_current s = current s"

partial_function (option) task_foreach_loop :: "tsys \<Rightarrow> (task_t \<Rightarrow> 'a \<Rightarrow> 'a option) \<Rightarrow> u32 \<Rightarrow> 'a \<Rightarrow> 'a option" where
  "task_foreach_loop s cb t a = do {
     a \<leftarrow> cb (tcb s t) a;
     let t = get_next s t;
     if t \<noteq> head s then task_foreach_loop s cb t a else Some a
   }"

definition task_foreach :: "tsys \<Rightarrow> (task_t \<Rightarrow> 'a \<Rightarrow> 'a option) \<Rightarrow> 'a \<Rightarrow> 'a option" where
  "task_foreach s cb a = task_foreach_loop s cb (head s) a"

end
