(* ===== verification/Task_Props.thy ===== *)
theory Task_Props
  imports Task
begin

text \<open>
  Correctness of the scheduler: the ring of control blocks, the states, the stacks and the contexts
  saved on them, over every history of task creation, switches, exits, arbitrary execution of the
  running task on its own stacks, and other users of the heap.
\<close>

lemma set_tcb_simps [simp]:
  "tcb (set_tcb p f s) = (tcb s)(p := f (tcb s p))" "current (set_tcb p f s) = current s" "head (set_tcb p f s) = head s"
  "next_id (set_tcb p f s) = next_id s" "scheduling_on (set_tcb p f s) = scheduling_on s" "heap (set_tcb p f s) = heap s"
  "tss_esp0 (set_tcb p f s) = tss_esp0 s" "proc (set_tcb p f s) = proc s"
  by (simp_all add: set_tcb_def)

interpretation tr: ring_store get_next set_next
  by unfold_locales (simp add: fun_eq_iff get_next_def set_next_def)

section \<open>Words on stacks\<close>

text \<open>Context \<open>c\<close> is saved at address \<open>a\<close>, the way \<^verbatim>\<open>context_switch\<close> expects it.\<close>

definition saved_at :: "mem \<Rightarrow> nat \<Rightarrow> cpu \<Rightarrow> bool" where
  "saved_at m a c \<longleftrightarrow> ldn m a = ebp c \<and> ldn m (a + 4) = edi c \<and> ldn m (a + 8) = esi c \<and> ldn m (a + 12) = ebx c
     \<and> ldn m (a + 16) = eip c \<and> esp c = word_of_nat (a + 20)"

text \<open>What a task sees when it is resumed after the call in \<^verbatim>\<open>schedule\<close>.\<close>

definition suspended :: "code_addrs \<Rightarrow> cpu \<Rightarrow> cpu" where
  "suspended cd c = c\<lparr>eip := a_after_switch cd, esp := esp c - 8\<rparr>"

text \<open>The first context of a task: all registers zero, about to enter \<^verbatim>\<open>task_bootstrap\<close> with the address
  of \<^verbatim>\<open>task_exit\<close> to return to.\<close>

definition first_context :: "code_addrs \<Rightarrow> u32 \<Rightarrow> cpu" where
  "first_context cd base = \<lparr>ebx = 0, esi = 0, edi = 0, ebp = 0, esp = base + STACK_SIZE - 4, eip = a_task_bootstrap cd,
     int_flag = False, halted = False\<rparr>"

definition resumes :: "cpu \<Rightarrow> cpu \<Rightarrow> bool" where
  "resumes c c' \<longleftrightarrow> ebx c' = ebx c \<and> esi c' = esi c \<and> edi c' = edi c \<and> ebp c' = ebp c \<and> esp c' = esp c \<and> eip c' = eip c"

lemma saved_at_same: "same_on X m m' \<Longrightarrow> {a..<a + 20} \<subseteq> X \<Longrightarrow> a + 20 \<le> 2 ^ 32 \<Longrightarrow> saved_at m a c \<Longrightarrow> saved_at m' a c"
proof -
  assume h: "same_on X m m'" "{a..<a + 20} \<subseteq> X" "a + 20 \<le> 2 ^ 32" "saved_at m a c"
  have "ldn m' (a + k) = ldn m (a + k)" if "k \<le> 16" for k
    by (rule same_on_ldn [OF h(1)]) (use h(2,3) that in auto)
  from this [of 0] this [of 4] this [of 8] this [of 12] this [of 16] h(4) show ?thesis by (simp add: saved_at_def)
qed

lemma word_sub: "k \<le> e \<Longrightarrow> word_of_nat e - word_of_nat k = (word_of_nat (e - k) :: u32)"
  by (simp add: of_nat_diff)

lemma push_nat:
  "4 \<le> e \<Longrightarrow> push w (c\<lparr>esp := word_of_nat e\<rparr>, m) = (c\<lparr>esp := word_of_nat (e - 4)\<rparr>, stn (e - 4) w m)"
  using word_sub [of 4 e] by (simp add: push_def stn_def Let_def)

definition switch_mem :: "code_addrs \<Rightarrow> u32 \<Rightarrow> u32 \<Rightarrow> cpu \<Rightarrow> nat \<Rightarrow> mem \<Rightarrow> mem" where
  "switch_mem cd prev new_esp c e m = stn (e - 28) (ebp c) (stn (e - 24) (edi c) (stn (e - 20) (esi c) (stn (e - 16) (ebx c)
     (stn (e - 12) (a_after_switch cd) (stn (e - 8) prev (stn (e - 4) new_esp m))))))"

lemma switch_to_eq:
  assumes "esp (proc s) = word_of_nat e" and "28 \<le> e" and "t_esp (tcb s nx) = word_of_nat a"
    and "saved_at (switch_mem cd prev (word_of_nat a) (proc s) e (kmem (heap s))) a c"
  shows "switch_to cd prev nx s = set_tcb prev (\<lambda>b. b\<lparr>t_esp := word_of_nat (e - 28)\<rparr>)
    (s\<lparr>proc := (proc s)\<lparr>ebx := ebx c, esi := esi c, edi := edi c, ebp := ebp c, esp := esp c, eip := eip c\<rparr>,
       heap := (heap s)\<lparr>kmem := switch_mem cd prev (word_of_nat a) (proc s) e (kmem (heap s))\<rparr>\<rparr>)"
proof -
  obtain c0 where c0: "proc s = c0\<lparr>esp := word_of_nat e\<rparr>" using assms(1) that [of "proc s"] by simp
  have ge: "4 \<le> e" "4 \<le> e - 4" "4 \<le> e - 8" "4 \<le> e - 12" "4 \<le> e - 16" "4 \<le> e - 20" "4 \<le> e - 24" using assms(2) by auto
  note sv = assms(4) [unfolded saved_at_def switch_mem_def]
  show ?thesis
    using sv by (simp add: switch_to_def context_switch_def c0 push_nat ge assms(3) ld32_off switch_mem_def del: of_nat_diff)
qed

lemma switch_mem_same:
  assumes "28 \<le> e" and "e < 2 ^ 32"
  shows "same_on (- {e - 28..<e}) m (switch_mem cd prev w c e m)"
proof -
  have st: "same_on (- {e - 28..<e}) m (stn (e - k) v m')" if "same_on (- {e - 28..<e}) m m'" "k \<le> 28" "4 \<le> k" for k m' v
    by (rule same_on_trans [OF that(1) same_on_stn]) (use assms that(2,3) in auto)
  show ?thesis unfolding switch_mem_def by (intro st same_on_refl) simp_all
qed

lemma switch_mem_saved:
  assumes "28 \<le> e" and "e < 2 ^ 32" and "esp c = word_of_nat e"
  shows "saved_at (switch_mem cd prev w c e m) (e - 28) (suspended cd c)"
proof -
  obtain b where e: "e = b + 28" using assms(1) by (metis le_add_diff_inverse2)
  show ?thesis using assms(2,3) word_sub [of 8 e]
    by (simp add: saved_at_def suspended_def switch_mem_def ldn_stn_other e add.commute)
qed

section \<open>The invariant\<close>

text \<open>The memory a task may touch: its stack and its ring-0 stack; the initial task runs on the boot stack
  below the heap.\<close>

definition own_ptrs :: "tsys \<Rightarrow> u32 \<Rightarrow> nat set" where
  "own_ptrs s t = {unat t, unat (t_kstack_base (tcb s t))} \<union> (if t = head s then {} else {unat (t_stack_base (tcb s t))})"

definition area :: "tsys \<Rightarrow> u32 \<Rightarrow> nat set" where
  "area s t = (let k = unat (t_kstack_base (tcb s t)); b = unat (t_stack_base (tcb s t))
     in {k..<k + 8192} \<union> (if t = head s then {..<HEAP_LO} else {b..<b + 16384}))"

definition task_mem :: "tsys \<Rightarrow> (nat \<rightharpoonup> nat) \<Rightarrow> u32 \<Rightarrow> bool" where
  "task_mem s L t \<longleftrightarrow> L (unat t) = Some 64 \<and> L (unat (t_kstack_base (tcb s t))) = Some 8192
     \<and> (t \<noteq> head s \<longrightarrow> L (unat (t_stack_base (tcb s t))) = Some 16384)
     \<and> t_kstack_top (tcb s t) = kstack_top_of (t_kstack_base (tcb s t))"

text \<open>A task that is not running has its context saved in its own memory.\<close>

definition parked :: "tsys \<Rightarrow> u32 \<Rightarrow> cpu \<Rightarrow> bool" where
  "parked s t c \<longleftrightarrow> (let a = unat (t_esp (tcb s t)) in {a..<a + 20} \<subseteq> area s t \<and> saved_at (kmem (heap s)) a c)"

abbreviation alive :: "tsys \<Rightarrow> u32 \<Rightarrow> bool" where
  "alive s t \<equiv> t_state (tcb s t) \<noteq> TASK_DEAD"

text \<open>\<open>C\<close> gives every task on the ring the context it is to resume with.\<close>

definition ring_ok :: "tsys \<Rightarrow> (nat \<rightharpoonup> nat) \<Rightarrow> (u32 \<rightharpoonup> cpu) \<Rightarrow> u32 list \<Rightarrow> bool" where
  "ring_ok s L C xs \<longleftrightarrow> heap_holds (heap s) L \<and> scheduling_on s \<and> ring (get_next s) (head s) xs \<and> set xs = dom C
     \<and> current s \<in> set xs
     \<and> (\<forall>t \<in> set xs. task_mem s L t)
     \<and> (\<forall>t \<in> set xs. \<forall>u \<in> set xs. t \<noteq> u \<longrightarrow> own_ptrs s t \<inter> own_ptrs s u = {})
     \<and> tss_esp0 s = t_kstack_top (tcb s (current s))
     \<and> (\<forall>t \<in> set xs. t \<noteq> current s \<longrightarrow> alive s t \<longrightarrow> parked s t (the (C t)))"

text \<open>Exactly the current task is running; when the processor has halted, every task is dead.\<close>

definition states_ok :: "tsys \<Rightarrow> u32 list \<Rightarrow> bool" where
  "states_ok s xs \<longleftrightarrow> (\<forall>t \<in> set xs. t_state (tcb s t) = TASK_RUNNING \<longleftrightarrow> t = current s \<and> \<not> halted (proc s))
     \<and> (halted (proc s) \<longrightarrow> (\<forall>t \<in> set xs. \<not> alive s t))"

lemma ring_okD:
  assumes "ring_ok s L C xs"
  shows "heap_holds (heap s) L" and "scheduling_on s" and "ring (get_next s) (head s) xs" and "set xs = dom C"
    and "current s \<in> set xs" and "\<And>t. t \<in> set xs \<Longrightarrow> task_mem s L t"
    and "\<And>t u. t \<in> set xs \<Longrightarrow> u \<in> set xs \<Longrightarrow> t \<noteq> u \<Longrightarrow> own_ptrs s t \<inter> own_ptrs s u = {}"
    and "tss_esp0 s = t_kstack_top (tcb s (current s))"
    and "\<And>t. t \<in> set xs \<Longrightarrow> t \<noteq> current s \<Longrightarrow> alive s t \<Longrightarrow> parked s t (the (C t))"
  using assms by (auto simp: ring_ok_def)

lemma area_bound:
  assumes "heap_holds (heap s) L" and "task_mem s L t" and "x \<in> area s t"
  shows "x < 2 ^ 31"
  using assms(2,3) kh.held_bounds [OF assms(1)] by (fastforce simp: area_def task_mem_def Let_def split: if_splits)

lemma area_disjoint:
  assumes "heap_holds (heap s) L" and "task_mem s L t" and "task_mem s L u" and "own_ptrs s t \<inter> own_ptrs s u = {}"
  shows "area s t \<inter> area s u = {}"
proof -
  have nh: "\<not> (t = head s \<and> u = head s)" using assms(4) by (auto simp: own_ptrs_def)
  have lo: "{p..<p + n} \<inter> {..<HEAP_LO} = {}" if "L p = Some n" for p n
    using kh.held_bounds [OF assms(1) that] by auto
  note dj = kh.block_disjoint [OF assms(1)]
  let ?k = "\<lambda>t. unat (t_kstack_base (tcb s t))" and ?b = "\<lambda>t. unat (t_stack_base (tcb s t))"
  have kt: "L (?k t) = Some 8192" "L (?k u) = Some 8192" using assms(2,3) by (auto simp: task_mem_def)
  have bt: "t \<noteq> head s \<Longrightarrow> L (?b t) = Some 16384" "u \<noteq> head s \<Longrightarrow> L (?b u) = Some 16384" using assms(2,3) by (auto simp: task_mem_def)
  have ne: "?k t \<noteq> ?k u" "t \<noteq> head s \<Longrightarrow> ?b t \<noteq> ?k u" "u \<noteq> head s \<Longrightarrow> ?k t \<noteq> ?b u"
    "t \<noteq> head s \<Longrightarrow> u \<noteq> head s \<Longrightarrow> ?b t \<noteq> ?b u" using assms(4) by (auto simp: own_ptrs_def)
  note d1 = dj [OF kt ne(1)]
  note d2 = dj [OF bt(1) kt(2) ne(2)] and d3 = dj [OF kt(1) bt(2) ne(3)] and d4 = dj [OF bt ne(4)]
  show ?thesis
    using nh d1 d2 d3 d4 lo [OF kt(1)] lo [OF kt(2)] lo [OF bt(1)] lo [OF bt(2)]
    by (cases "t = head s"; cases "u = head s") (simp_all add: area_def Let_def Int_Un_distrib Int_Un_distrib2 Int_commute)
qed

lemma area_held:
  assumes "task_mem s L t" shows "area s t \<subseteq> held L \<union> - {HEAP_LO..<HEAP_END}"
proof -
  have "{k..<k + 8192} \<subseteq> held L" if "L k = Some 8192" for k using that by (rule kh.block_held)
  moreover have "{b..<b + 16384} \<subseteq> held L" if "L b = Some 16384" for b using that by (rule kh.block_held)
  ultimately show ?thesis using assms by (auto simp: area_def task_mem_def Let_def)
qed

lemma area_apart:
  assumes "heap_holds (heap s) L" and "task_mem s L t" and p: "L p = Some n" "p \<notin> own_ptrs s t"
  shows "area s t \<inter> {p..<p + n} = {}"
proof -
  have lo: "HEAP_LO < p" using kh.held_bounds [OF assms(1) p(1)] by simp
  have bl: "{q..<q + k} \<inter> {p..<p + n} = {}" if "L q = Some k" "q \<in> own_ptrs s t" for q k
    by (rule kh.block_disjoint [OF assms(1) that(1) p(1)]) (use that(2) p(2) in auto)
  have k: "L (unat (t_kstack_base (tcb s t))) = Some 8192" "t \<noteq> head s \<Longrightarrow> L (unat (t_stack_base (tcb s t))) = Some 16384"
    using assms(2) by (simp_all add: task_mem_def)
  show ?thesis
    using bl [OF k(1)] bl [OF k(2)] lo by (cases "t = head s") (auto simp: area_def own_ptrs_def Let_def Int_Un_distrib2)
qed

text \<open>What of the state a parked task depends on.\<close>

lemma area_cong:
  "t_kstack_base (tcb s' t) = t_kstack_base (tcb s t) \<Longrightarrow> t_stack_base (tcb s' t) = t_stack_base (tcb s t) \<Longrightarrow>
    head s' = head s \<Longrightarrow> area s' t = area s t \<and> own_ptrs s' t = own_ptrs s t"
  by (simp add: area_def own_ptrs_def)

lemma parked_same:
  assumes "parked s t c" and "heap_holds (heap s) L" and "task_mem s L t"
    and "same_on (area s t) (kmem (heap s)) (kmem (heap s'))"
    and "t_esp (tcb s' t) = t_esp (tcb s t)" and "t_kstack_base (tcb s' t) = t_kstack_base (tcb s t)"
    and "t_stack_base (tcb s' t) = t_stack_base (tcb s t)" and "head s' = head s"
  shows "parked s' t c"
proof -
  let ?a = "unat (t_esp (tcb s t))"
  have sub: "{?a..<?a + 20} \<subseteq> area s t" and sv: "saved_at (kmem (heap s)) ?a c" using assms(1) by (auto simp: parked_def Let_def)
  have "?a + 19 < 2 ^ 31" by (rule area_bound [OF assms(2,3) subsetD [OF sub]]) simp
  then have "saved_at (kmem (heap s')) ?a c" using saved_at_same [OF assms(4) sub _ sv] by simp
  then show ?thesis using sub area_cong [of s' t s] assms(5-8) by (simp add: parked_def Let_def)
qed

text \<open>Steps that leave the control blocks on the ring and the memory of the parked tasks alone.\<close>

lemma ring_ok_cong:
  assumes ok: "ring_ok s L C xs" and tcb: "\<And>t. t \<in> set xs \<Longrightarrow> tcb s' t = tcb s t"
    and glob: "current s' = current s" "head s' = head s" "scheduling_on s' = scheduling_on s" "tss_esp0 s' = tss_esp0 s"
    and "heap_holds (heap s') L'" and L': "\<And>t p. t \<in> set xs \<Longrightarrow> p \<in> own_ptrs s t \<Longrightarrow> L' p = L p"
    and same: "\<And>t. t \<in> set xs \<Longrightarrow> t \<noteq> current s \<Longrightarrow> same_on (area s t) (kmem (heap s)) (kmem (heap s'))"
  shows "ring_ok s' L' C xs"
proof -
  note D = ring_okD [OF ok]
  have rg: "ring (get_next s') (head s') xs" using ring_cong [OF D(3), of "get_next s'"] tcb glob(2) by (simp add: get_next_def)
  have g: "own_ptrs s' t = own_ptrs s t" if "t \<in> set xs" for t using tcb [OF that] glob(2) by (simp add: own_ptrs_def)
  have m: "task_mem s' L' t" if t: "t \<in> set xs" for t
  proof -
    have p: "L' p = L p" if "p \<in> own_ptrs s t" for p by (rule L' [OF t that])
    show ?thesis using D(6) [OF t] p tcb [OF t] glob(2) by (simp add: task_mem_def own_ptrs_def)
  qed
  have "parked s' t (the (C t))" if "t \<in> set xs" "t \<noteq> current s" "alive s t" for t
    by (rule parked_same [OF D(9) [OF that] D(1) D(6) [OF that(1)] same [OF that(1,2)]]) (simp_all add: tcb that(1) glob)
  then show ?thesis unfolding ring_ok_def using D(2,4,5,7,8) rg g m assms(7) glob tcb by simp
qed

section \<open>Choosing the next task\<close>

lemma find_Some_mem: "List.find P xs = Some x \<Longrightarrow> x \<in> set xs \<and> P x"
  by (auto simp: find_Some_iff)

lemma schedule_next_find:
  "path (get_next s) nx ys (current s) \<Longrightarrow> current s \<notin> set ys \<Longrightarrow>
    schedule_next s nx = Some (case List.find (alive s) ys of None \<Rightarrow> current s | Some t \<Rightarrow> t)"
proof (induction ys arbitrary: nx)
  case Nil
  then show ?case by (simp add: schedule_next.simps)
next
  case (Cons y ys)
  then show ?case by (subst schedule_next.simps) auto
qed

text \<open>The state changes of \<^verbatim>\<open>schedule\<close> before the switch.\<close>

definition dispatch :: "u32 \<Rightarrow> tsys \<Rightarrow> tsys" where
  "dispatch nx s = (let s = (if t_state (tcb s (current s)) = TASK_RUNNING then set_state (current s) TASK_READY s else s);
     s = set_state nx TASK_RUNNING s; s = s\<lparr>current := nx\<rparr> in tss_set_kernel_stack (t_kstack_top (tcb s nx)) s)"

lemma schedule_eq:
  assumes "ring (get_next s) (current s) (current s # ys)" and "scheduling_on s"
  shows "schedule cd s = Some (case List.find (alive s) ys of None \<Rightarrow> s | Some nx \<Rightarrow> switch_to cd (current s) nx (dispatch nx s))"
proof -
  have p: "path (get_next s) (get_next s (current s)) ys (current s)" "current s \<notin> set ys" using assms(1) by (auto simp: ring_def)
  show ?thesis
  proof (cases "List.find (alive s) ys")
    case None
    then show ?thesis using assms(2) schedule_next_find [OF p] by (simp add: schedule_def Let_def)
  next
    case (Some nx)
    then have "nx \<noteq> current s" using p(2) find_Some_mem [OF Some] by auto
    then show ?thesis using Some assms(2) schedule_next_find [OF p] by (simp add: schedule_def Let_def dispatch_def)
  qed
qed

text \<open>Stack space for the call of \<^verbatim>\<open>context_switch\<close> in the running task's own memory.\<close>

definition room :: "tsys \<Rightarrow> bool" where
  "room s \<longleftrightarrow> 28 \<le> unat (esp (proc s)) \<and> {unat (esp (proc s)) - 28..<unat (esp (proc s))} \<subseteq> area s (current s)"

lemma dispatch_simps:
  assumes "nx \<noteq> current s"
  shows "current (dispatch nx s) = nx" "head (dispatch nx s) = head s" "heap (dispatch nx s) = heap s" "proc (dispatch nx s) = proc s"
    "scheduling_on (dispatch nx s) = scheduling_on s" "tss_esp0 (dispatch nx s) = t_kstack_top (tcb s nx)"
    "get_next (dispatch nx s) = get_next s"
    "t_esp (tcb (dispatch nx s) t) = t_esp (tcb s t)" "t_kstack_base (tcb (dispatch nx s) t) = t_kstack_base (tcb s t)"
    "t_stack_base (tcb (dispatch nx s) t) = t_stack_base (tcb s t)" "t_kstack_top (tcb (dispatch nx s) t) = t_kstack_top (tcb s t)"
    "t_state (tcb (dispatch nx s) t) = (if t = nx then TASK_RUNNING else if t = current s \<and> t_state (tcb s t) = TASK_RUNNING
       then TASK_READY else t_state (tcb s t))"
  using assms by (auto simp: dispatch_def Let_def set_state_def tss_set_kernel_stack_def get_next_def fun_eq_iff)

lemma switch_ok:
  assumes ok: "ring_ok s L C xs" and "room s" and nx: "nx \<in> set xs" "nx \<noteq> current s" "alive s nx"
    and s': "s' = switch_to cd (current s) nx (dispatch nx s)"
  shows "ring_ok s' L (C(current s \<mapsto> suspended cd (proc s))) xs" and "current s' = nx" and "resumes (the (C nx)) (proc s')"
    and "halted (proc s') = halted (proc s)" and "int_flag (proc s') = int_flag (proc s)" and "get_next s' = get_next s"
    and "\<And>t. t_state (tcb s' t) = t_state (tcb (dispatch nx s) t)"
proof -
  note D = ring_okD [OF ok]
  let ?e = "unat (esp (proc s))" and ?a = "unat (t_esp (tcb s nx))" and ?c = "the (C nx)"
  let ?m = "switch_mem cd (current s) (word_of_nat ?a) (proc s) ?e (kmem (heap s))"
  have lt: "?e < 2 ^ 32" using unat_u32_lt [of "esp (proc s)"] by simp
  have r: "28 \<le> ?e" "{?e - 28..<?e} \<subseteq> area s (current s)" using assms(2) by (auto simp: room_def)
  have dj: "area s (current s) \<inter> area s t = {}" if "t \<in> set xs" "t \<noteq> current s" for t
    using area_disjoint [OF D(1) D(6) [OF D(5)] D(6) [OF that(1)]] D(7) [OF D(5) that(1)] that(2) by blast
  have same: "same_on (area s t) (kmem (heap s)) ?m" if "t \<in> set xs" "t \<noteq> current s" for t
    by (rule same_on_mono [OF switch_mem_same [OF r(1) lt]]) (use dj [OF that] r(2) in auto)
  have pk: "{?a..<?a + 20} \<subseteq> area s nx" "saved_at (kmem (heap s)) ?a ?c" using D(9) [OF nx] by (auto simp: parked_def Let_def)
  have "?a + 19 < 2 ^ 31" by (rule area_bound [OF D(1) D(6) [OF nx(1)] subsetD [OF pk(1)]]) simp
  then have sv: "saved_at ?m ?a ?c" using saved_at_same [OF same [OF nx(1,2)] pk(1) _ pk(2)] by simp
  have eq: "s' = set_tcb (current s) (\<lambda>b. b\<lparr>t_esp := word_of_nat (?e - 28)\<rparr>)
    ((dispatch nx s)\<lparr>proc := (proc s)\<lparr>ebx := ebx ?c, esi := esi ?c, edi := edi ?c, ebp := ebp ?c, esp := esp ?c, eip := eip ?c\<rparr>,
       heap := (heap s)\<lparr>kmem := ?m\<rparr>\<rparr>)"
    unfolding s' using switch_to_eq [of "dispatch nx s" ?e nx ?a cd "current s" ?c] r(1) sv by (simp add: dispatch_simps [OF nx(2)])
  note S = dispatch_simps [OF nx(2)]
  show 1: "current s' = nx" "get_next s' = get_next s"
    by (auto simp: eq S get_next_def fun_eq_iff fun_cong [OF S(7), unfolded get_next_def])
  show "resumes ?c (proc s')" "halted (proc s') = halted (proc s)" "int_flag (proc s') = int_flag (proc s)"
    by (auto simp: eq S resumes_def)
  show st: "t_state (tcb s' t) = t_state (tcb (dispatch nx s) t)" for t by (simp add: eq)
  have ar: "area s' t = area s t" "own_ptrs s' t = own_ptrs s t" for t using area_cong [of s' t s] by (auto simp: eq S)
  have mem: "task_mem s' L t" if "t \<in> set xs" for t using D(6) [OF that] by (auto simp: task_mem_def eq S)
  have g: "head s' = head s" "scheduling_on s'" "tss_esp0 s' = t_kstack_top (tcb s' nx)" using D(2) nx(2) by (simp_all add: eq S)
  have dm: "dom (C(current s \<mapsto> suspended cd (proc s))) = dom C" using D(4,5) by auto
  have "heap_holds (heap s') L"
  proof -
    have "same_on ({HEAP_LO..<HEAP_END} - held L) (kmem (heap s)) ?m"
      by (rule same_on_mono [OF switch_mem_same [OF r(1) lt]]) (use r(2) area_held [OF D(6) [OF D(5)]] in blast)
    from kh.write_inv [OF D(1) this] show ?thesis by (simp add: eq)
  qed
  moreover have "parked s' t (the ((C(current s \<mapsto> suspended cd (proc s))) t))" if "t \<in> set xs" "t \<noteq> nx" "alive s' t" for t
  proof (cases "t = current s")
    case True
    have "saved_at ?m (?e - 28) (suspended cd (proc s))" by (rule switch_mem_saved) (use r(1) in simp_all)
    moreover have "{?e - 28..<?e - 28 + 20} \<subseteq> area s t"
      unfolding True by (rule order_trans [OF _ r(2)]) (use r(1) in auto)
    moreover have "unat (word_of_nat (?e - 28) :: u32) = ?e - 28" by (rule unat_of_nat_u32) (use lt in linarith)
    ultimately show ?thesis using True ar(1) [of t] by (simp add: parked_def eq Let_def del: of_nat_diff)
  next
    case False
    have "alive s t" using that False by (simp add: st S split: if_splits)
    from parked_same [OF D(9) [OF that(1) False this] D(1) D(6) [OF that(1)], of s'] False same [OF that(1) False]
    show ?thesis by (simp add: eq S)
  qed
  ultimately show "ring_ok s' L (C(current s \<mapsto> suspended cd (proc s))) xs"
    unfolding ring_ok_def 1 ar g(1) dm using D(3,4,7) nx(1) mem g(2,3) by blast
qed

text \<open>The tasks that take part in scheduling, in the order of the ring, the current one first.\<close>

definition run_queue :: "tsys \<Rightarrow> u32 list \<Rightarrow> bool" where
  "run_queue s q \<longleftrightarrow> (\<exists>ys. ring (get_next s) (current s) (current s # ys) \<and> q = current s # filter (alive s) ys)"

lemma ring_from_current:
  assumes "ring_ok s L C xs"
  shows "\<exists>ys. ring (get_next s) (current s) (current s # ys) \<and> set (current s # ys) = set xs"
  using ring_rotate [OF ring_okD(3,5) [OF assms]] by auto

lemma run_queue_unique:
  assumes "run_queue s q" and "run_queue s q'" shows "q = q'"
  using assms ring_unique by (fastforce simp: run_queue_def)

lemma find_filter: "List.find P xs = (case filter P xs of [] \<Rightarrow> None | y # ys \<Rightarrow> Some y)"
  by (induction xs) auto

lemma filter_hd: "filter P xs = y # zs \<Longrightarrow> \<exists>us vs. xs = us @ y # vs \<and> filter P us = [] \<and> zs = filter P vs"
  by (metis filter_eq_ConsD filter_False)

text \<open>One call of \<^verbatim>\<open>schedule\<close>, with the current task running or just dead.\<close>

lemma schedule_ok:
  assumes ok: "ring_ok s L C xs" and "room s" and st: "\<And>t. t \<in> set xs \<Longrightarrow> t \<noteq> current s \<Longrightarrow> t_state (tcb s t) \<noteq> TASK_RUNNING"
    and "t_state (tcb s (current s)) \<noteq> TASK_READY" and "\<not> halted (proc s)"
    and q: "run_queue s (current s # q)"
  shows "case q of [] \<Rightarrow> schedule cd s = Some s \<and> (\<forall>t \<in> set xs. t \<noteq> current s \<longrightarrow> \<not> alive s t)
    | nx # q' \<Rightarrow> \<exists>s'. schedule cd s = Some s' \<and> current s' = nx \<and> nx \<noteq> current s
        \<and> ring_ok s' L (C(current s \<mapsto> suspended cd (proc s))) xs \<and> states_ok s' xs
        \<and> resumes (the (C nx)) (proc s') \<and> int_flag (proc s') = int_flag (proc s) \<and> \<not> halted (proc s')
        \<and> run_queue s' (q @ (if alive s (current s) then [current s] else []))"
proof -
  from q obtain ys where ys: "ring (get_next s) (current s) (current s # ys)" "q = filter (alive s) ys" by (auto simp: run_queue_def)
  from ring_from_current [OF ok] obtain zs where zs: "ring (get_next s) (current s) (current s # zs)" "set (current s # zs) = set xs" by blast
  have set: "set (current s # ys) = set xs" using ring_unique [OF ys(1) zs(1)] zs(2) by simp
  note eq = schedule_eq [OF ys(1) ring_okD(2) [OF ok], of cd]
  show ?thesis
  proof (cases q)
    case Nil
    then have "List.find (alive s) ys = None" "\<forall>t \<in> set ys. \<not> alive s t" using ys(2) by (auto simp: find_None_iff filter_empty_conv)
    then show ?thesis using Nil eq set by auto
  next
    case (Cons nx q')
    then have f: "List.find (alive s) ys = Some nx" using ys(2) by (simp add: find_filter)
    from find_Some_mem [OF f] have nx: "nx \<in> set ys" "alive s nx" by auto
    have ne: "nx \<noteq> current s" using nx(1) ys(1) by (auto simp: ring_def)
    have nxs: "nx \<in> set xs" using nx(1) set by auto
    let ?s = "switch_to cd (current s) nx (dispatch nx s)"
    note W = switch_ok [OF ok assms(2) nxs ne nx(2) refl, of cd]
    have state: "t_state (tcb ?s t) = (if t = nx then TASK_RUNNING else if t = current s \<and> t_state (tcb s t) = TASK_RUNNING
       then TASK_READY else t_state (tcb s t))" for t
      using W(7) dispatch_simps(12) [OF ne] by simp
    have sok: "states_ok ?s xs"
      using W(2,4) state st assms(4,5) by (auto simp: states_ok_def)
    obtain us vs where uv: "ys = us @ nx # vs" "filter (alive s) us = []" "q' = filter (alive s) vs"
      using filter_hd [of "alive s" ys nx q'] ys(2) Cons by auto
    have "ring (get_next ?s) nx (nx # vs @ current s # us)" using ys(1) uv(1) W(6) by (auto simp: ring_def)
    moreover have "filter (alive ?s) (vs @ current s # us) = q' @ (if alive s (current s) then [current s] else [])"
    proof -
      have al: "alive ?s t = alive s t" for t using nx(2) state [of t] by auto
      show ?thesis unfolding al using uv(2,3) by simp
    qed
    ultimately have "run_queue ?s (q @ (if alive s (current s) then [current s] else []))"
      unfolding run_queue_def W(2) Cons by (metis append_Cons)
    moreover have "schedule cd s = Some ?s" using eq f by simp
    ultimately show ?thesis using Cons W(1-5) sok ne assms(5) by auto
  qed
qed

section \<open>Creating tasks\<close>

lemma push_first_frame:
  assumes "b + 16384 \<le> 2 ^ 31"
  shows "\<exists>m'. push_words [a_task_exit cd, a_task_bootstrap cd, 0, 0, 0, 0] (word_of_nat b + STACK_SIZE) m = (word_of_nat (b + 16360), m')
    \<and> same_on (- {b..<b + 16384}) m m' \<and> saved_at m' (b + 16360) (first_context cd (word_of_nat b))"
proof -
  have st: "same_on (- {b..<b + 16384}) m (stn (b + k) v m')" if "same_on (- {b..<b + 16384}) m m'" "k + 4 \<le> 16384" for k m' v
    by (rule same_on_trans [OF that(1) same_on_stn]) (use assms that(2) in auto)
  let ?m = "stn (b + 16360) 0 (stn (b + 16364) 0 (stn (b + 16368) 0 (stn (b + 16372) 0
     (stn (b + 16376) (a_task_bootstrap cd) (stn (b + 16380) (a_task_exit cd) m)))))"
  have "push_words [a_task_exit cd, a_task_bootstrap cd, 0, 0, 0, 0] (word_of_nat b + STACK_SIZE) m = (word_of_nat (b + 16360), ?m)"
    by (simp add: stn_def add.commute)
  moreover have "same_on (- {b..<b + 16384}) m ?m" by (intro st same_on_refl) simp_all
  moreover have "saved_at ?m (b + 16360) (first_context cd (word_of_nat b))"
    using assms by (simp add: saved_at_def first_context_def ldn_stn_other add.assoc)
  ultimately show ?thesis by blast
qed

text \<open>Linking a prepared control block behind the head of the ring.\<close>

lemma ring_ok_insert:
  assumes ok: "ring_ok s L C xs" and "t \<notin> set xs" and "task_mem s L t" and "\<And>u. u \<in> set xs \<Longrightarrow> own_ptrs s t \<inter> own_ptrs s u = {}"
    and "parked s t c"
  shows "ring_ok (set_next (head s) t (set_next t (get_next s (head s)) s)) L (C(t \<mapsto> c)) (head s # t # tl xs)" (is "ring_ok ?s _ _ ?xs")
proof -
  note D = ring_okD [OF ok]
  have xs: "xs = head s # tl xs" by (rule ring_Cons [OF D(3)])
  have set: "set ?xs = insert t (set xs)" using xs by (metis insert_commute list.simps(15))
  have T: "t_state (tcb ?s u) = t_state (tcb s u)" "t_esp (tcb ?s u) = t_esp (tcb s u)" "t_kstack_base (tcb ?s u) = t_kstack_base (tcb s u)"
    "t_stack_base (tcb ?s u) = t_stack_base (tcb s u)" "t_kstack_top (tcb ?s u) = t_kstack_top (tcb s u)" for u
    by (simp_all add: set_next_def)
  have G: "current ?s = current s" "head ?s = head s" "scheduling_on ?s = scheduling_on s" "tss_esp0 ?s = tss_esp0 s" "heap ?s = heap s"
    by (simp_all add: set_next_def)
  have A: "area ?s u = area s u" "own_ptrs ?s u = own_ptrs s u" "task_mem ?s L u = task_mem s L u" "parked ?s u d = parked s u d" for u d
    using T [of u] G area_cong [of ?s u s] by (simp_all add: task_mem_def parked_def)
  have "ring (get_next ?s) (head s) ?xs" by (rule tr.insert_after [OF D(3) assms(2)])
  moreover have "\<forall>u \<in> insert t (set xs). \<forall>v \<in> insert t (set xs). u \<noteq> v \<longrightarrow> own_ptrs s u \<inter> own_ptrs s v = {}"
    using D(7) assms(4) by blast
  moreover have "\<forall>u \<in> insert t (set xs). u \<noteq> current s \<longrightarrow> alive s u \<longrightarrow> parked s u (the ((C(t \<mapsto> c)) u))"
    using D(9) assms(2,5) by auto
  ultimately show ?thesis unfolding ring_ok_def T G A set using D(1,2,4-6,8) assms(3) by simp
qed

lemma own_ptrs_held: "task_mem s L t \<Longrightarrow> p \<in> own_ptrs s t \<Longrightarrow> p \<in> dom L"
  by (auto simp: task_mem_def own_ptrs_def split: if_splits)

lemma ring_ok_malloc:
  assumes ok: "ring_ok s L C xs" and "heap_holds h' (L(p \<mapsto> n))" and "p \<notin> dom L"
    and "same_on (held L \<union> - {HEAP_LO..<HEAP_END}) (kmem (heap s)) (kmem h')"
  shows "ring_ok (s\<lparr>heap := h'\<rparr>) (L(p \<mapsto> n)) C xs"
proof (rule ring_ok_cong [OF ok])
  fix t q assume "t \<in> set xs" "q \<in> own_ptrs s t"
  then have "q \<in> dom L" by (metis own_ptrs_held ring_okD(6) [OF ok])
  then show "(L(p \<mapsto> n)) q = L q" using assms(3) by auto
next
  fix t assume "t \<in> set xs"
  then show "same_on (area s t) (kmem (heap s)) (kmem (heap (s\<lparr>heap := h'\<rparr>)))"
    using same_on_mono [OF assms(4) area_held [OF ring_okD(6) [OF ok]]] by simp
qed (use assms(2) in simp_all)

lemma ring_ok_free:
  assumes ok: "ring_ok s L C xs" and "heap_holds h' (L(p := None))" and "\<And>t. t \<in> set xs \<Longrightarrow> p \<notin> own_ptrs s t"
    and "same_on (held (L(p := None)) \<union> - {HEAP_LO..<HEAP_END}) (kmem (heap s)) (kmem h')"
  shows "ring_ok (s\<lparr>heap := h'\<rparr>) (L(p := None)) C xs"
proof (rule ring_ok_cong [OF ok])
  show L: "(L(p := None)) q = L q" if "t \<in> set xs" "q \<in> own_ptrs s t" for t q using that assms(3) by auto
  fix t assume t: "t \<in> set xs"
  have "task_mem s (L(p := None)) t" using ring_okD(6) [OF ok t] L [OF t] assms(3) [OF t] by (auto simp: task_mem_def own_ptrs_def)
  from same_on_mono [OF assms(4) area_held [OF this]]
  show "same_on (area s t) (kmem (heap s)) (kmem (heap (s\<lparr>heap := h'\<rparr>)))" by simp
qed (use assms(2) in simp_all)

lemma ring_ok_tcb: "ring_ok s L C xs \<Longrightarrow> t \<notin> set xs \<Longrightarrow> ring_ok (set_tcb t f s) L C xs"
  by (rule ring_ok_cong [of s L C xs]) (auto simp: ring_okD(1))

lemma fresh_not_member: "ring_ok s L C xs \<Longrightarrow> unat t \<notin> dom L \<Longrightarrow> t \<notin> set xs"
  by (metis domI ring_okD(6) task_mem_def)

text \<open>The new blocks hold the control block, the stack with its first frame and the ring-0 stack.\<close>

lemma new_task_ok:
  assumes ok: "ring_ok s L C xs" and "heap_holds h3 (L(unat t \<mapsto> 64, unat b \<mapsto> 16384, unat k \<mapsto> 8192))"
    and "same_on (held L \<union> - {HEAP_LO..<HEAP_END}) (kmem (heap s)) (kmem h3)"
    and fresh: "unat t \<notin> dom L" "unat b \<notin> dom (L(unat t \<mapsto> 64))" "unat k \<notin> dom (L(unat t \<mapsto> 64, unat b \<mapsto> 16384))"
    and pw: "push_words [a_task_exit cd, a_task_bootstrap cd, 0, 0, 0, 0] (b + STACK_SIZE) (kmem h3) = (sp, m)"
    and s': "s' = s\<lparr>next_id := i, heap := h3\<lparr>kmem := m\<rparr>, tcb := (tcb s)(t := x)\<rparr>"
    and x: "t_stack_base x = b" "t_kstack_base x = k" "t_kstack_top x = kstack_top_of k" "t_esp x = sp"
  shows "ring_ok (set_next (head s) t (set_next t (get_next s' (head s)) s')) (L(unat t \<mapsto> 64, unat b \<mapsto> 16384, unat k \<mapsto> 8192))
    (C(t \<mapsto> first_context cd b)) (head s # t # tl xs)"
proof -
  let ?L = "L(unat t \<mapsto> 64, unat b \<mapsto> 16384, unat k \<mapsto> 8192)"
  note D = ring_okD [OF ok]
  have nt: "t \<notin> set xs" by (rule fresh_not_member [OF ok fresh(1)])
  have Lb: "?L (unat t) = Some 64" "?L (unat b) = Some 16384" "?L (unat k) = Some 8192" using fresh by auto
  have bb: "HEAP_LO < unat b" "unat b + 16384 \<le> HEAP_END" using kh.held_bounds [OF assms(2) Lb(2)] by auto
  have pf: "sp = word_of_nat (unat b + 16360)" "same_on (- {unat b..<unat b + 16384}) (kmem h3) m"
    "saved_at m (unat b + 16360) (first_context cd b)"
    using push_first_frame [of "unat b" cd "kmem h3"] bb pw by auto
  have old: "?L p = L p" if "p \<in> dom L" for p using that fresh by auto
  have inter: "held L \<inter> {unat b..<unat b + 16384} = {}"
  proof -
    have "{p..<p + n} \<inter> {unat b..<unat b + 16384} = {}" if "L p = Some n" for p n
    proof (rule kh.block_disjoint [OF assms(2) _ Lb(2)])
      show "?L p = Some n" using that old [of p] by (simp add: domI)
      show "p \<noteq> unat b" using that fresh(2) by auto
    qed
    then show ?thesis unfolding held_def by fastforce
  qed
  have ok': "ring_ok s' ?L C xs"
  proof (rule ring_ok_cong [OF ok])
    have "same_on ({HEAP_LO..<HEAP_END} - held ?L) (kmem h3) m"
      by (rule same_on_mono [OF pf(2)]) (use kh.block_held [of ?L, OF Lb(2)] in auto)
    from kh.write_inv [OF assms(2) this] show "heap_holds (heap s') ?L" by (simp add: s')
    fix u assume u: "u \<in> set xs"
    show "tcb s' u = tcb s u" using u nt by (auto simp: s')
    show "?L p = L p" if "p \<in> own_ptrs s u" for p using old own_ptrs_held [OF D(6) [OF u] that] .
    have ar: "area s u \<subseteq> held L \<union> - {HEAP_LO..<HEAP_END}" by (rule area_held [OF D(6) [OF u]])
    have "same_on (area s u) (kmem h3) m" by (rule same_on_mono [OF pf(2)]) (use ar inter bb in auto)
    with same_on_mono [OF assms(3) ar] show "same_on (area s u) (kmem (heap s)) (kmem (heap s'))" by (auto simp: s' intro: same_on_trans)
  qed (simp_all add: s')
  have hd: "t \<noteq> head s" using nt ringD(4) [OF D(3)] by auto
  have tm: "task_mem s' ?L t" using Lb x hd by (simp add: task_mem_def s')
  have "own_ptrs s' t \<inter> own_ptrs s' u = {}" if "u \<in> set xs" for u
  proof -
    have "own_ptrs s' u \<subseteq> dom L" using own_ptrs_held [OF D(6) [OF that]] that nt by (auto simp: own_ptrs_def s' split: if_splits)
    moreover have "own_ptrs s' t \<inter> dom L = {}" using fresh x by (auto simp: own_ptrs_def s')
    ultimately show ?thesis by blast
  qed
  moreover have "parked s' t (first_context cd b)"
  proof -
    have "unat sp = unat b + 16360" unfolding pf(1) by (rule unat_of_nat_u32) (use bb in simp)
    then show ?thesis using pf(3) hd x by (auto simp: parked_def area_def s' Let_def)
  qed
  ultimately show ?thesis using ring_ok_insert [OF ok' nt tm] by (simp add: s')
qed

lemma kmalloc_cases:
  assumes "heap_holds h L" and "unat sz = n" and "0 < n \<and> n \<le> 0xFFFFFFF8"
  obtains "kmalloc sz h = Some (0, h)"
  | p h' where "kmalloc sz h = Some (p, h')" and "p \<noteq> 0" and "unat p \<notin> dom L" and "heap_holds h' (L(unat p \<mapsto> n))"
      and "same_on (held L \<union> - {HEAP_LO..<HEAP_END}) (kmem h) (kmem h')"
proof -
  have "sz \<noteq> 0" using assms(2,3) by auto
  with kh.malloc_returns [OF assms(1), of sz] assms(2,3) that show ?thesis by (auto simp: wp_def split: if_splits)
qed

lemma kfree_undoes:
  assumes "heap_holds h (L(unat p \<mapsto> n))" and "unat p \<notin> dom L"
  obtains h' where "kfree p h = Some h'" and "heap_holds h' L" and "same_on (held L \<union> - {HEAP_LO..<HEAP_END}) (kmem h) (kmem h')"
proof -
  have "(L(unat p \<mapsto> n))(unat p := None) = L" using assms(2) by (auto simp: fun_eq_iff)
  with kh.free_returns [OF assms(1), of "unat p" n] that show ?thesis by (auto simp: wp_def)
qed

lemma held_upd: "unat p \<notin> dom L \<Longrightarrow> held L \<subseteq> held (L(unat p \<mapsto> n))"
  unfolding held_def by (smt (verit, best) Collect_mono domI fun_upd_other)

lemma same_on_step:
  assumes "same_on (held L \<union> X) m m'" and "same_on (held (L(unat p \<mapsto> n)) \<union> X) m' m''" and "unat p \<notin> dom L"
  shows "same_on (held L \<union> X) m m''"
  using same_on_trans [OF assms(1) same_on_mono [OF assms(2)]] held_upd [OF assms(3), of n] by blast

text \<open>The outcome of \<^verbatim>\<open>task_create\<close>: a failure leaves the tasks and the heap's blocks as they were.\<close>

definition task_create_post :: "code_addrs \<Rightarrow> u8 list \<Rightarrow> u32 \<Rightarrow> tsys \<Rightarrow> (nat \<rightharpoonup> nat) \<Rightarrow> (u32 \<rightharpoonup> cpu) \<Rightarrow> u32 list \<Rightarrow> u32 \<Rightarrow> tsys \<Rightarrow> bool" where
  "task_create_post cd name entry s L C xs t s' \<longleftrightarrow> current s' = current s \<and> head s' = head s \<and> proc s' = proc s \<and>
     (if t = 0 then ring_ok s' L C xs \<and> (\<forall>u \<in> set xs. tcb s' u = tcb s u)
      else let x = tcb s' t in t \<notin> set xs
        \<and> ring_ok s' (L(unat t \<mapsto> 64, unat (t_stack_base x) \<mapsto> 16384, unat (t_kstack_base x) \<mapsto> 8192))
            (C(t \<mapsto> first_context cd (t_stack_base x))) (head s # t # tl xs)
        \<and> t_state x = TASK_READY \<and> t_entry x = entry \<and> t_name x = task_name name \<and> t_id x = next_id s \<and> next_id s' = next_id s + 1
        \<and> (\<forall>u \<in> set xs. t_state (tcb s' u) = t_state (tcb s u)))"

lemma create_fails:
  assumes "ring_ok s L C xs" and "unat t \<notin> dom L" and "heap_holds h L" and "same_on (held L \<union> - {HEAP_LO..<HEAP_END}) (kmem (heap s)) (kmem h)"
  shows "task_create_post cd name entry s L C xs 0 (s\<lparr>tcb := (tcb s)(t := x), heap := h\<rparr>)"
proof -
  note D = ring_okD [OF assms(1)]
  have nt: "t \<notin> set xs" by (rule fresh_not_member [OF assms(1,2)])
  have "ring_ok (s\<lparr>tcb := (tcb s)(t := x), heap := h\<rparr>) L C xs"
    by (rule ring_ok_cong [OF assms(1)]) (use nt assms(3) same_on_mono [OF assms(4) area_held [OF D(6)]] in auto)
  then show ?thesis using nt by (auto simp: task_create_post_def)
qed

lemma task_create_ok:
  assumes ok: "ring_ok s L C xs"
  shows "wp (task_create cd name entry s) (\<lambda>(t, s'). task_create_post cd name entry s L C xs t s')"
proof -
  note D = ring_okD [OF ok]
  have u: "unat (64 :: u32) = 64" "unat (16384 :: u32) = 16384" "unat (8192 :: u32) = 8192" by simp_all
  have l: "0 < (64 :: nat) \<and> 64 \<le> (0xFFFFFFF8 :: nat)" "0 < (16384 :: nat) \<and> 16384 \<le> (0xFFFFFFF8 :: nat)"
    "0 < (8192 :: nat) \<and> 8192 \<le> (0xFFFFFFF8 :: nat)" by simp_all
  show ?thesis
  proof (cases rule: kmalloc_cases [OF D(1) u(1) l(1), case_names fail1 ok1])
    case fail1
    then show ?thesis using ok by (simp add: task_create_def task_create_post_def)
  next
    case (ok1 t h1)
    show ?thesis
    proof (cases rule: kmalloc_cases [OF ok1(4) u(2) l(2), case_names fail2 ok2])
      case fail2
      from kfree_undoes [OF ok1(4,3)] obtain h where h: "kfree t h1 = Some h" "heap_holds h L"
        "same_on (held L \<union> - {HEAP_LO..<HEAP_END}) (kmem h1) (kmem h)" .
      from create_fails [OF ok ok1(3) h(2) same_on_trans [OF ok1(5) h(3)]] fail2 ok1(1,2) h(1)
      show ?thesis by (simp add: task_create_def set_tcb_def Let_def)
    next
      case (ok2 b h2)
      show ?thesis
      proof (cases rule: kmalloc_cases [OF ok2(4) u(3) l(3), case_names fail3 ok3])
        case fail3
        from kfree_undoes [OF ok2(4,3)] obtain h where h: "kfree b h2 = Some h" "heap_holds h (L(unat t \<mapsto> 64))"
          "same_on (held (L(unat t \<mapsto> 64)) \<union> - {HEAP_LO..<HEAP_END}) (kmem h2) (kmem h)" .
        from kfree_undoes [OF h(2) ok1(3)] obtain h' where h': "kfree t h = Some h'" "heap_holds h' L"
          "same_on (held L \<union> - {HEAP_LO..<HEAP_END}) (kmem h) (kmem h')" .
        have "same_on (held L \<union> - {HEAP_LO..<HEAP_END}) (kmem (heap s)) (kmem h')"
          using same_on_step [OF ok1(5) same_on_trans [OF ok2(5) h(3)] ok1(3)] h'(3) by (rule same_on_trans)
        from create_fails [OF ok ok1(3) h'(2) this] fail3 ok1(1,2) ok2(1,2) h(1) h'(1)
        show ?thesis by (simp add: task_create_def set_tcb_def Let_def)
      next
        case (ok3 k h3)
        have same: "same_on (held L \<union> - {HEAP_LO..<HEAP_END}) (kmem (heap s)) (kmem h3)"
          using same_on_step [OF ok1(5) same_on_step [OF ok2(5) ok3(5) ok2(3)] ok1(3)] .
        obtain sp m where pw: "push_words [a_task_exit cd, a_task_bootstrap cd, 0, 0, 0, 0] (b + STACK_SIZE) (kmem h3) = (sp, m)"
          by (metis surj_pair)
        have nt: "t \<notin> set xs" "t \<noteq> head s" using fresh_not_member [OF ok ok1(3)] ringD(4) [OF D(3)] by auto
        note R = new_task_ok [OF ok ok3(4) same ok1(3) ok2(3) ok3(3) pw refl]
        show ?thesis
          using R [of "(tcb s t)\<lparr>t_stack_base := b, t_kstack_base := k, t_kstack_top := kstack_top_of k, t_id := next_id s,
               t_name := task_name name, t_state := TASK_READY, t_entry := entry, t_esp := sp\<rparr>" "next_id s + 1"]
            ok1(1,2) ok2(1,2) ok3(1,2) pw nt
          by (simp add: task_create_def set_tcb_def Let_def task_create_post_def set_next_def get_next_def del: push_words.simps)
      qed
    qed
  qed
qed

section \<open>Histories\<close>

text \<open>From the promotion of the boot context on: tasks are created, the running task computes on its own
  stacks and registers, other code uses blocks of the heap that belong to no task, the timer or the
  running task switches, tasks exit. \<open>L\<close> records the blocks held, \<open>C\<close> the context each task left
  with. A halted processor takes no further step.\<close>

inductive task_reach :: "code_addrs \<Rightarrow> tsys \<Rightarrow> (nat \<rightharpoonup> nat) \<Rightarrow> (u32 \<rightharpoonup> cpu) \<Rightarrow> bool" for cd where
  boot: "heap s = kheap_init m \<Longrightarrow> \<not> halted (proc s) \<Longrightarrow> tasking_init s = Some s' \<Longrightarrow>
    task_reach cd s' [unat (current s') \<mapsto> 64, unat (t_kstack_base (tcb s' (current s'))) \<mapsto> 8192] [current s' \<mapsto> proc s]"
| create: "task_reach cd s L C \<Longrightarrow> \<not> halted (proc s) \<Longrightarrow> task_create cd name entry s = Some (t, s') \<Longrightarrow>
    task_reach cd s'
      (if t = 0 then L else L(unat t \<mapsto> 64, unat (t_stack_base (tcb s' t)) \<mapsto> 16384, unat (t_kstack_base (tcb s' t)) \<mapsto> 8192))
      (if t = 0 then C else C(t \<mapsto> first_context cd (t_stack_base (tcb s' t))))"
| run: "task_reach cd s L C \<Longrightarrow> \<not> halted (proc s) \<Longrightarrow> same_on (- area s (current s)) (kmem (heap s)) m \<Longrightarrow> \<not> halted c \<Longrightarrow>
    task_reach cd (s\<lparr>heap := (heap s)\<lparr>kmem := m\<rparr>, proc := c\<rparr>) L C"
| alloc: "task_reach cd s L C \<Longrightarrow> \<not> halted (proc s) \<Longrightarrow> sz \<noteq> 0 \<Longrightarrow> unat sz \<le> 0xFFFFFFF8 \<Longrightarrow> kmalloc sz (heap s) = Some (p, h) \<Longrightarrow>
    task_reach cd (s\<lparr>heap := h\<rparr>) (if p = 0 then L else L(unat p \<mapsto> unat sz)) C"
| free: "task_reach cd s L C \<Longrightarrow> \<not> halted (proc s) \<Longrightarrow> L p = Some n \<Longrightarrow> \<forall>t \<in> dom C. p \<notin> own_ptrs s t \<Longrightarrow>
    kfree (word_of_nat p) (heap s) = Some h \<Longrightarrow> task_reach cd (s\<lparr>heap := h\<rparr>) (L(p := None)) C"
| store: "task_reach cd s L C \<Longrightarrow> \<not> halted (proc s) \<Longrightarrow> L p = Some n \<Longrightarrow> \<forall>t \<in> dom C. p \<notin> own_ptrs s t \<Longrightarrow>
    same_on (- {p..<p + n}) (kmem (heap s)) m \<Longrightarrow> task_reach cd (s\<lparr>heap := (heap s)\<lparr>kmem := m\<rparr>\<rparr>) L C"
| switch: "task_reach cd s L C \<Longrightarrow> \<not> halted (proc s) \<Longrightarrow> room s \<Longrightarrow> schedule cd s = Some s' \<Longrightarrow>
    task_reach cd s' L (C(current s \<mapsto> suspended cd (proc s)))"
| give_up: "task_reach cd s L C \<Longrightarrow> \<not> halted (proc s) \<Longrightarrow> room s \<Longrightarrow> yield cd s = Some s' \<Longrightarrow>
    task_reach cd s' L (C(current s \<mapsto> suspended cd (proc (cli s))))"
| exit: "task_reach cd s L C \<Longrightarrow> \<not> halted (proc s) \<Longrightarrow> room s \<Longrightarrow> task_exit cd s = Some s' \<Longrightarrow>
    task_reach cd s' L (C(current s \<mapsto> suspended cd (proc (cli s))))"

definition tasks_ok :: "tsys \<Rightarrow> (nat \<rightharpoonup> nat) \<Rightarrow> (u32 \<rightharpoonup> cpu) \<Rightarrow> u32 list \<Rightarrow> bool" where
  "tasks_ok s L C xs \<longleftrightarrow> ring_ok s L C xs \<and> states_ok s xs"

lemma ring_ok_context:
  assumes "ring_ok s L C xs" shows "ring_ok s L (C(current s \<mapsto> c)) xs"
proof -
  note D = ring_okD [OF assms]
  have eq: "dom (C(current s \<mapsto> c)) = dom C" using D(4,5) by (simp add: insert_absorb)
  show ?thesis unfolding ring_ok_def eq using D by simp
qed

lemma ring_ok_proc: "ring_ok s L C xs \<Longrightarrow> ring_ok (s\<lparr>proc := c\<rparr>) L C xs"
  by (rule ring_ok_cong [of s L C xs]) (auto simp: ring_okD(1))

lemma queue_from_ring: "ring_ok s L C xs \<Longrightarrow> \<exists>q. run_queue s (current s # q)"
  using ring_from_current unfolding run_queue_def by blast

lemma schedule_keeps:
  assumes "tasks_ok s L C xs" and "\<not> halted (proc s)" and "room s" and "schedule cd s = Some s'"
  shows "tasks_ok s' L (C(current s \<mapsto> suspended cd (proc s))) xs"
proof -
  have ok: "ring_ok s L C xs" and st: "\<And>t. t \<in> set xs \<Longrightarrow> t_state (tcb s t) = TASK_RUNNING \<longleftrightarrow> t = current s"
    using assms(1,2) by (auto simp: tasks_ok_def states_ok_def)
  from queue_from_ring [OF ok] obtain q where q: "run_queue s (current s # q)" by blast
  have "t_state (tcb s (current s)) \<noteq> TASK_READY" using st [OF ring_okD(5) [OF ok]] by simp
  from schedule_ok [OF ok assms(3) _ this assms(2) q, of cd] st assms(1,4) ring_ok_context [OF ok]
  show ?thesis by (auto simp: tasks_ok_def split: list.splits)
qed

text \<open>The state in which \<^verbatim>\<open>task_exit\<close> calls \<^verbatim>\<open>schedule\<close>.\<close>

definition exiting :: "tsys \<Rightarrow> tsys" where
  "exiting s = (set_state (current s) TASK_DEAD (cli s))\<lparr>scheduling_on := True\<rparr>"

lemma task_exit_eq:
  "task_exit cd s = do { s' \<leftarrow> schedule cd (exiting s); Some (if current s' = current s then s'\<lparr>proc := (proc s')\<lparr>halted := True\<rparr>\<rparr> else s') }"
  by (simp add: task_exit_def Let_def cli_def set_state_def exiting_def)

lemma exiting_simps:
  "get_next (exiting s) = get_next s" "proc (exiting s) = proc (cli s)" "current (exiting s) = current s" "head (exiting s) = head s"
  "heap (exiting s) = heap s" "tss_esp0 (exiting s) = tss_esp0 s" "scheduling_on (exiting s)"
  "t_state (tcb (exiting s) t) = (if t = current s then TASK_DEAD else t_state (tcb s t))"
  "t_esp (tcb (exiting s) t) = t_esp (tcb s t)" "t_kstack_base (tcb (exiting s) t) = t_kstack_base (tcb s t)"
  "t_stack_base (tcb (exiting s) t) = t_stack_base (tcb s t)" "t_kstack_top (tcb (exiting s) t) = t_kstack_top (tcb s t)"
  by (auto simp: set_state_def cli_def get_next_def fun_eq_iff exiting_def)

lemma exiting_ok:
  assumes "tasks_ok s L C xs" and "\<not> halted (proc s)" and "room s" and "run_queue s (current s # q)"
  shows "ring_ok (exiting s) L C xs" and "case q of
      [] \<Rightarrow> schedule cd (exiting s) = Some (exiting s) \<and> (\<forall>t \<in> set xs. \<not> alive (exiting s) t)
    | nx # q' \<Rightarrow> \<exists>s'. schedule cd (exiting s) = Some s' \<and> current s' = nx \<and> nx \<noteq> current s
        \<and> ring_ok s' L (C(current s \<mapsto> suspended cd (proc (cli s)))) xs \<and> states_ok s' xs \<and> run_queue s' q"
proof -
  let ?s = "exiting s"
  note S = exiting_simps [of s]
  have ok: "ring_ok s L C xs" and st: "\<And>t. t \<in> set xs \<Longrightarrow> t_state (tcb s t) = TASK_RUNNING \<longleftrightarrow> t = current s"
    using assms(1,2) by (auto simp: tasks_ok_def states_ok_def)
  have ar: "area ?s t = area s t" "own_ptrs ?s t = own_ptrs s t" "task_mem ?s L t = task_mem s L t" "parked ?s t c = parked s t c" for t c
    using area_cong [of ?s t s] S by (simp_all add: task_mem_def parked_def)
  show ok': "ring_ok ?s L C xs" unfolding ring_ok_def ar S using ring_okD [OF ok] S(7) by simp
  have rm: "room ?s" using assms(3) by (simp add: room_def ar S(2,3), simp add: cli_def)
  have h: "\<not> halted (proc ?s)" unfolding S using assms(2) by (simp add: cli_def)
  have q: "run_queue ?s (current ?s # q)"
  proof -
    from assms(4) obtain ys where ys: "ring (get_next s) (current s) (current s # ys)" "q = filter (alive s) ys" by (auto simp: run_queue_def)
    then have "q = filter (alive ?s) ys" using S(8) by (auto simp: ring_def intro!: filter_cong)
    with ys(1) show ?thesis unfolding run_queue_def S(1,3) by blast
  qed
  have st': "t_state (tcb ?s t) \<noteq> TASK_RUNNING" if "t \<in> set xs" "t \<noteq> current ?s" for t using that st S(3,8) by simp
  have d: "t_state (tcb ?s (current ?s)) = TASK_DEAD" using S(3,8) by simp
  then have nr: "t_state (tcb ?s (current ?s)) \<noteq> TASK_READY" by simp
  show "case q of
      [] \<Rightarrow> schedule cd ?s = Some ?s \<and> (\<forall>t \<in> set xs. \<not> alive ?s t)
    | nx # q' \<Rightarrow> \<exists>s'. schedule cd ?s = Some s' \<and> current s' = nx \<and> nx \<noteq> current s
        \<and> ring_ok s' L (C(current s \<mapsto> suspended cd (proc (cli s)))) xs \<and> states_ok s' xs \<and> run_queue s' q"
    using schedule_ok [OF ok' rm st' nr h q, of cd] d S(2,3) by (auto split: list.splits)
qed

lemma exit_keeps:
  assumes "tasks_ok s L C xs" and "\<not> halted (proc s)" and "room s" and "task_exit cd s = Some s'"
  shows "tasks_ok s' L (C(current s \<mapsto> suspended cd (proc (cli s)))) xs"
proof -
  have "ring_ok s L C xs" using assms(1) by (simp add: tasks_ok_def)
  from queue_from_ring [OF this] obtain q where q: "run_queue s (current s # q)" by blast
  note W = exiting_ok [OF assms(1-3) q]
  show ?thesis
  proof (cases q)
    case Nil
    with W(2) [of cd] have W': "schedule cd (exiting s) = Some (exiting s)" "\<forall>t \<in> set xs. \<not> alive (exiting s) t" by auto
    have s': "s' = (exiting s)\<lparr>proc := (proc (exiting s))\<lparr>halted := True\<rparr>\<rparr>"
      using W'(1) assms(4) by (simp add: task_exit_eq exiting_simps)
    have "states_ok s' xs" using W'(2) by (auto simp: s' states_ok_def)
    moreover have "ring_ok s' L (C(current s \<mapsto> suspended cd (proc (cli s)))) xs"
      using ring_ok_context [OF ring_ok_proc [OF W(1)]] by (simp add: s' exiting_simps)
    ultimately show ?thesis by (simp add: tasks_ok_def)
  next
    case (Cons nx q')
    then show ?thesis using W(2) [of cd] assms(4) by (auto simp: tasks_ok_def task_exit_eq)
  qed
qed

lemma yield_keeps:
  assumes "tasks_ok s L C xs" and "\<not> halted (proc s)" and "room s" and "yield cd s = Some s'"
  shows "tasks_ok s' L (C(current s \<mapsto> suspended cd (proc (cli s)))) xs"
proof -
  have pr: "proc (cli s) = (proc s)\<lparr>int_flag := False\<rparr>" by (simp add: cli_def)
  have ok: "tasks_ok (cli s) L C xs"
    using assms(1) ring_ok_proc [of s L C xs "(proc s)\<lparr>int_flag := False\<rparr>"] by (simp add: tasks_ok_def states_ok_def cli_def)
  have "room (cli s)" using assms(3) by (simp add: room_def cli_def area_def)
  moreover from assms(4) obtain s1 where s1: "schedule cd (cli s) = Some s1" "s' = (if current s1 = current s then sti s1 else s1)"
    by (auto simp: yield_def split: bind_splits)
  ultimately have "tasks_ok s1 L (C(current s \<mapsto> suspended cd (proc (cli s)))) xs"
    using schedule_keeps [OF ok _ _ s1(1)] assms(2) by (simp add: cli_def)
  moreover from this have "tasks_ok (sti s1) L (C(current s \<mapsto> suspended cd (proc (cli s)))) xs"
    using ring_ok_proc [of s1 L _ xs "(proc s1)\<lparr>int_flag := True\<rparr>"] by (simp add: tasks_ok_def sti_def states_ok_def)
  ultimately show ?thesis using s1(2) by simp
qed

lemma create_keeps:
  assumes "tasks_ok s L C xs" and "\<not> halted (proc s)" and "task_create_post cd name entry s L C xs t s'"
  shows "\<exists>ys. tasks_ok s'
      (if t = 0 then L else L(unat t \<mapsto> 64, unat (t_stack_base (tcb s' t)) \<mapsto> 16384, unat (t_kstack_base (tcb s' t)) \<mapsto> 8192))
      (if t = 0 then C else C(t \<mapsto> first_context cd (t_stack_base (tcb s' t)))) ys"
proof (cases "t = 0")
  case True
  then show ?thesis using assms by (intro exI [of _ xs]) (auto simp: tasks_ok_def states_ok_def task_create_post_def)
next
  case False
  have ok: "ring_ok s L C xs" using assms(1) by (simp add: tasks_ok_def)
  have "xs = head s # tl xs" by (rule ring_Cons [OF ring_okD(3) [OF ok]])
  then have set: "set (head s # t # tl xs) = insert t (set xs)" by (metis insert_commute list.simps(15))
  have P: "t \<notin> set xs" "t_state (tcb s' t) = TASK_READY" "current s' = current s" "proc s' = proc s"
    "\<forall>u \<in> set xs. t_state (tcb s' u) = t_state (tcb s u)"
    using assms(3) False by (auto simp: task_create_post_def Let_def)
  have cur: "current s \<in> set xs" using assms(1) ring_okD(5) unfolding tasks_ok_def by blast
  have "states_ok s' (head s # t # tl xs)"
    unfolding states_ok_def set using P assms(1,2) cur by (auto simp: tasks_ok_def states_ok_def)
  then show ?thesis using assms(3) False by (intro exI [of _ "head s # t # tl xs"]) (simp add: task_create_post_def tasks_ok_def Let_def)
qed

text \<open>The heap of a freshly booted kernel has room for the first task.\<close>

lemma tasking_init_ok:
  assumes "heap s = kheap_init m" and "\<not> halted (proc s)"
  shows "\<exists>s' t k. tasking_init s = Some s' \<and> current s' = t \<and> t_kstack_base (tcb s' t) = k
    \<and> tasks_ok s' [unat t \<mapsto> 64, unat k \<mapsto> 8192] [t \<mapsto> c] [t]
    \<and> heap_ok (heap s') [(64, False), (8192, False), (4186012, True)] \<and> proc s' = proc s \<and> head s' = t"
proof -
  have u: "unat (64 :: u32) = 64" "unat (8192 :: u32) = 8192" by simp_all
  have l: "0 < (64 :: nat) \<and> 64 \<le> (0xFFFFFFF8 :: nat)" "0 < (8192 :: nat) \<and> 8192 \<le> (0xFFFFFFF8 :: nat)" by simp_all
  have A: "unat (ALIGN8 64) = 64" "unat (ALIGN8 8192) = 8192" by (simp_all add: unat_ALIGN8)
  from kmalloc_refines [OF heap_ok_init, of 64 m] obtain h1 where
    h1: "kmalloc 64 (kheap_init m) = Some (0x40000C, h1)" "heap_ok h1 [(64, False), (0x3FFFA8, True)]" by (auto simp: A)
  from kmalloc_refines [OF h1(2), of 8192] obtain h2 where
    h2: "kmalloc 8192 h1 = Some (0x400058, h2)" and bs: "heap_ok h2 [(64, False), (8192, False), (4186012, True)]" by (auto simp: A)
  have "heap_holds (kheap_init m) Map.empty" by (rule kheap_reach_inv [OF kheap_reach.init])
  from kmalloc_cases [OF this u(1) l(1)] h1(1) have i1: "heap_holds h1 [unat (0x40000C :: u32) \<mapsto> 64]" by fastforce
  from kmalloc_cases [OF this u(2) l(2)] h2 have i2: "heap_holds h2 [unat (0x40000C :: u32) \<mapsto> 64, unat (0x400058 :: u32) \<mapsto> 8192]" by fastforce
  define s' where "s' = the (tasking_init s)"
  have s': "tasking_init s = Some s'" "current s' = 0x40000C" "head s' = 0x40000C" "t_kstack_base (tcb s' 0x40000C) = 0x400058" "heap s' = h2"
    "scheduling_on s'" "t_next (tcb s' 0x40000C) = 0x40000C" "t_kstack_top (tcb s' 0x40000C) = kstack_top_of 0x400058"
    "tss_esp0 s' = kstack_top_of 0x400058" "t_state (tcb s' 0x40000C) = TASK_RUNNING" "proc s' = proc s"
    using h1(1) h2 assms(1)
    by (simp_all add: s'_def tasking_init_def Let_def set_tcb_def set_next_def tss_set_kernel_stack_def)
  have "ring_ok s' [unat (0x40000C :: u32) \<mapsto> 64, unat (0x400058 :: u32) \<mapsto> 8192] [0x40000C \<mapsto> c] [0x40000C]"
    using i2 s' by (simp add: ring_ok_def get_next_def task_mem_def own_ptrs_def)
  moreover have "states_ok s' [0x40000C]" using s' assms(2) by (simp add: states_ok_def)
  ultimately show ?thesis using s'(1-5,11) bs by (simp add: tasks_ok_def)
qed

lemma task_reach_ok: "task_reach cd s L C \<Longrightarrow> \<exists>xs. tasks_ok s L C xs"
proof (induction rule: task_reach.induct)
  case (boot s m s')
  from tasking_init_ok [OF boot(1,2), of "proc s"] boot(3) show ?case by (metis option.inject)
next
  case (create s L C name entry t s')
  then obtain xs where xs: "tasks_ok s L C xs" by blast
  then have "task_create_post cd name entry s L C xs t s'"
    using wpD [OF task_create_ok] create.hyps(3) unfolding tasks_ok_def by fastforce
  with create_keeps [OF xs create.hyps(2)] show ?case by blast
next
  case (run s L C m c)
  then obtain xs where xs: "tasks_ok s L C xs" by blast
  then have ok: "ring_ok s L C xs" by (simp add: tasks_ok_def)
  note D = ring_okD [OF ok]
  have "heap_holds ((heap s)\<lparr>kmem := m\<rparr>) L"
    by (rule kh.write_inv [OF D(1) same_on_mono [OF run.hyps(3)]]) (use area_held [OF D(6) [OF D(5)]] in auto)
  moreover have "same_on (area s t) (kmem (heap s)) m" if "t \<in> set xs" "t \<noteq> current s" for t
    using that area_disjoint [OF D(1) D(6) [OF that(1)] D(6) [OF D(5)] D(7) [OF that(1) D(5) that(2)]] same_on_mono [OF run.hyps(3)] by blast
  ultimately have "ring_ok (s\<lparr>heap := (heap s)\<lparr>kmem := m\<rparr>, proc := c\<rparr>) L C xs" by (intro ring_ok_cong [OF ok]) simp_all
  then show ?case using xs run.hyps(2,4) by (intro exI [of _ xs]) (simp add: tasks_ok_def states_ok_def)
next
  case (alloc s L C sz p h)
  then obtain xs where xs: "tasks_ok s L C xs" by blast
  then have ok: "ring_ok s L C xs" by (simp add: tasks_ok_def)
  have "p = 0 \<and> h = heap s \<or> p \<noteq> 0 \<and> ring_ok (s\<lparr>heap := h\<rparr>) (L(unat p \<mapsto> unat sz)) C xs"
    using kh.malloc_returns [OF ring_okD(1) [OF ok] alloc.hyps(3,4)] alloc.hyps(5) ring_ok_malloc [OF ok] by (auto split: if_splits)
  then show ?case using xs by (intro exI [of _ xs]) (auto simp: tasks_ok_def states_ok_def)
next
  case (free s L C p n h)
  then obtain xs where xs: "tasks_ok s L C xs" by blast
  then have ok: "ring_ok s L C xs" by (simp add: tasks_ok_def)
  have "ring_ok (s\<lparr>heap := h\<rparr>) (L(p := None)) C xs"
    using kh.free_returns [OF ring_okD(1) [OF ok] free.hyps(3)] free.hyps(4,5) ring_okD(4) [OF ok]
    by (intro ring_ok_free [OF ok]) auto
  then have "tasks_ok (s\<lparr>heap := h\<rparr>) (L(p := None)) C xs" using xs by (simp add: tasks_ok_def states_ok_def)
  then show ?case by (rule exI)
next
  case (store s L C p n m)
  then obtain xs where xs: "tasks_ok s L C xs" by blast
  then have ok: "ring_ok s L C xs" by (simp add: tasks_ok_def)
  note D = ring_okD [OF ok]
  have "heap_holds ((heap s)\<lparr>kmem := m\<rparr>) L"
    by (rule kh.write_inv [OF D(1) same_on_mono [OF store.hyps(5)]]) (use heldI [of L p n, OF store.hyps(3)] in auto)
  moreover have "same_on (area s t) (kmem (heap s)) m" if "t \<in> set xs" for t
    using area_apart [OF D(1) D(6) [OF that] store.hyps(3)] store.hyps(4) D(4) that same_on_mono [OF store.hyps(5)] by blast
  ultimately have "ring_ok (s\<lparr>heap := (heap s)\<lparr>kmem := m\<rparr>\<rparr>) L C xs" by (intro ring_ok_cong [OF ok]) simp_all
  then show ?case using xs by (intro exI [of _ xs]) (simp add: tasks_ok_def states_ok_def)
next
  case (switch s L C s')
  then show ?case using schedule_keeps by blast
next
  case (give_up s L C s')
  then show ?case using yield_keeps by blast
next
  case (exit s L C s')
  then show ?case using exit_keeps by blast
qed

section \<open>Round robin\<close>

lemma queue_members:
  assumes "ring_ok s L C xs" and "run_queue s q" and "alive s (current s)"
  shows "distinct q" and "set q = {t \<in> dom C. alive s t}" and "hd q = current s"
proof -
  from assms(2) obtain ys where ys: "ring (get_next s) (current s) (current s # ys)" "q = current s # filter (alive s) ys"
    by (auto simp: run_queue_def)
  from ring_from_current [OF assms(1)] ring_unique [OF ys(1)] have "set (current s # ys) = set xs" by blast
  then show "distinct q" "set q = {t \<in> dom C. alive s t}" "hd q = current s"
    using ys ring_okD(4) [OF assms(1)] assms(3) by (auto simp: ring_def)
qed

lemma schedule_rotates:
  assumes "tasks_ok s L C xs" and "\<not> halted (proc s)" and "room s" and "run_queue s q"
  shows "\<exists>s'. schedule cd s = Some s' \<and> run_queue s' (rotate1 q) \<and> \<not> halted (proc s')"
proof -
  have ok: "ring_ok s L C xs" and st: "\<And>t. t \<in> set xs \<Longrightarrow> t_state (tcb s t) = TASK_RUNNING \<longleftrightarrow> t = current s"
    using assms(1,2) by (auto simp: tasks_ok_def states_ok_def)
  have al: "t_state (tcb s (current s)) = TASK_RUNNING" using st [OF ring_okD(5) [OF ok]] by simp
  then have nr: "t_state (tcb s (current s)) \<noteq> TASK_READY" by simp
  from assms(4) obtain p where q: "q = current s # p" by (auto simp: run_queue_def)
  from schedule_ok [OF ok assms(3) _ nr assms(2) assms(4) [unfolded q], of cd] st al assms(2,4)
  show ?thesis by (auto simp: q split: list.splits)
qed

lemma exit_removes:
  assumes "tasks_ok s L C xs" and "\<not> halted (proc s)" and "room s" and "run_queue s q"
  shows "\<exists>s'. task_exit cd s = Some s' \<and> (if tl q = [] then halted (proc s') else run_queue s' (tl q))"
proof -
  from assms(4) obtain p where q: "q = current s # p" by (auto simp: run_queue_def)
  note W = exiting_ok(2) [OF assms(1-3) assms(4) [unfolded q], of cd]
  show ?thesis using W by (cases p) (auto simp: q task_exit_eq exiting_simps)
qed

text \<open>\<open>n\<close> calls of \<^verbatim>\<open>schedule\<close>, with anything the running tasks do on their own stacks in between.\<close>

inductive sched_run :: "code_addrs \<Rightarrow> nat \<Rightarrow> tsys \<Rightarrow> tsys \<Rightarrow> bool" for cd where
  start: "sched_run cd 0 s s"
| compute: "sched_run cd n s s1 \<Longrightarrow> same_on (- area s1 (current s1)) (kmem (heap s1)) m \<Longrightarrow> \<not> halted c \<Longrightarrow>
    sched_run cd n s (s1\<lparr>heap := (heap s1)\<lparr>kmem := m\<rparr>, proc := c\<rparr>)"
| tick: "sched_run cd n s s1 \<Longrightarrow> room s1 \<Longrightarrow> schedule cd s1 = Some s2 \<Longrightarrow> sched_run cd (Suc n) s s2"

lemma run_queue_heap: "run_queue (s\<lparr>heap := h, proc := c\<rparr>) q = run_queue s q"
  by (simp add: run_queue_def get_next_def [abs_def])

lemma sched_run_queue:
  assumes "sched_run cd n s s'" and "task_reach cd s L C" and "\<not> halted (proc s)" and "run_queue s q"
  shows "\<exists>C'. task_reach cd s' L C' \<and> \<not> halted (proc s') \<and> run_queue s' (rotate n q)"
  using assms
proof (induction rule: sched_run.induct)
  case (start s)
  then show ?case by auto
next
  case (compute n s s1 m c)
  then obtain C' where C': "task_reach cd s1 L C'" "\<not> halted (proc s1)" "run_queue s1 (rotate n q)" by blast
  from task_reach.run [OF C'(1,2) compute.hyps(2,3)] C'(3) compute.hyps(3) show ?case by (auto simp: run_queue_heap)
next
  case (tick n s s1 s2)
  then obtain C' where C': "task_reach cd s1 L C'" "\<not> halted (proc s1)" "run_queue s1 (rotate n q)" by blast
  obtain xs where "tasks_ok s1 L C' xs" using task_reach_ok [OF C'(1)] by blast
  from schedule_rotates [OF this C'(2) tick.hyps(2) C'(3), of cd] tick.hyps(3)
  show ?case using task_reach.switch [OF C'(1,2) tick.hyps(2,3)] by auto
qed

section \<open>The walks over the ring\<close>

lemma task_count_path:
  "path (get_next s) t ts (head s) \<Longrightarrow> ts \<noteq> [] \<Longrightarrow> head s \<notin> set (tl ts) \<Longrightarrow>
    task_count_loop s t n = Some (n + int (length (filter (alive s) ts)))"
proof (induction ts arbitrary: t n)
  case (Cons u ts)
  show ?case
  proof (cases ts)
    case Nil
    then show ?thesis using Cons.prems by (subst task_count_loop.simps) (auto simp: Let_def)
  next
    case (Cons v vs)
    with Cons.IH [of "get_next s u"] Cons.prems show ?thesis by (subst task_count_loop.simps) (auto simp: Let_def)
  qed
qed simp

fun visit :: "(task_t \<Rightarrow> 'a \<Rightarrow> 'a option) \<Rightarrow> task_t list \<Rightarrow> 'a \<Rightarrow> 'a option" where
  "visit cb [] a = Some a"
| "visit cb (b # bs) a = do { a \<leftarrow> cb b a; visit cb bs a }"

lemma task_foreach_path:
  "path (get_next s) t ts (head s) \<Longrightarrow> ts \<noteq> [] \<Longrightarrow> head s \<notin> set (tl ts) \<Longrightarrow>
    task_foreach_loop s cb t a = visit cb (map (tcb s) ts) a"
proof (induction ts arbitrary: t a)
  case (Cons u ts)
  show ?case
  proof (cases ts)
    case Nil
    then show ?thesis using Cons.prems by (subst task_foreach_loop.simps) (cases "cb (tcb s u) a"; auto simp: Let_def)
  next
    case (Cons v vs)
    with Cons.IH [of "get_next s u"] Cons.prems show ?thesis by (subst task_foreach_loop.simps) (cases "cb (tcb s u) a"; auto simp: Let_def)
  qed
qed simp

lemma ring_walks:
  assumes "ring (get_next s) (head s) xs"
  shows "task_count s = Some (int (length (filter (alive s) xs)))" and "task_foreach s cb a = visit cb (map (tcb s) xs) a"
proof -
  have p: "path (get_next s) (head s) xs (head s)" "xs \<noteq> []" "head s \<notin> set (tl xs)"
    using assms ring_Cons [OF assms] by (auto simp: ring_def) (metis distinct.simps(2))
  show "task_count s = Some (int (length (filter (alive s) xs)))" using task_count_path [OF p, of 0] by (simp add: task_count_def)
  show "task_foreach s cb a = visit cb (map (tcb s) xs) a" using task_foreach_path [OF p] by (simp add: task_foreach_def)
qed

section \<open>Properties\<close>

text \<open>A booted kernel, for the witnesses.\<close>

definition boot_state :: tsys where
  "boot_state = \<lparr>current = 0, head = 0, next_id = 0, scheduling_on = False,
     tcb = (\<lambda>_. \<lparr>t_esp = 0, t_stack_base = 0, t_kstack_base = 0, t_kstack_top = 0, t_id = 0, t_name = [], t_state = TASK_RUNNING,
       t_entry = 0, t_next = 0\<rparr>), heap = kheap_init (\<lambda>_. 0), tss_esp0 = 0,
     proc = \<lparr>ebx = 1, esi = 2, edi = 3, ebp = 4, esp = 0x90000, eip = 5, int_flag = False, halted = False\<rparr>\<rparr>"

lemma booted:
  "\<exists>s L C. task_reach cd s L C \<and> tasks_ok s L C [current s] \<and> \<not> halted (proc s) \<and> esp (proc s) = 0x90000 \<and> head s = current s
    \<and> heap_ok (heap s) [(64, False), (8192, False), (4186012, True)]"
proof -
  have p: "\<not> halted (proc boot_state)" "heap boot_state = kheap_init (\<lambda>_. 0)" "esp (proc boot_state) = 0x90000" by (simp_all add: boot_state_def)
  from tasking_init_ok [OF p(2,1), of "proc boot_state"] obtain s where
    s: "tasking_init boot_state = Some s" "tasks_ok s [unat (current s) \<mapsto> 64, unat (t_kstack_base (tcb s (current s))) \<mapsto> 8192]
      [current s \<mapsto> proc boot_state] [current s]" "heap_ok (heap s) [(64, False), (8192, False), (4186012, True)]"
      "proc s = proc boot_state" "head s = current s" by blast
  show ?thesis using task_reach.boot [OF p(2,1) s(1), of cd] s(2-5) p(1,3) by metis
qed

text \<open>A second task, ready to run.\<close>

lemma two_tasks:
  "\<exists>s L C t. task_reach cd s L C \<and> \<not> halted (proc s) \<and> room s \<and> run_queue s [current s, t] \<and> t \<noteq> current s"
proof -
  from booted obtain s L C where s: "task_reach cd s L C" "tasks_ok s L C [current s]" "\<not> halted (proc s)" "esp (proc s) = 0x90000"
    "head s = current s" "heap_ok (heap s) [(64, False), (8192, False), (4186012, True)]" by blast
  have ok: "ring_ok s L C [current s]" using s(2) by (simp add: tasks_ok_def)
  have A: "unat (ALIGN8 64) = 64" "unat (ALIGN8 16384) = 16384" "unat (ALIGN8 8192) = 8192" by (simp_all add: unat_ALIGN8)
  from kmalloc_refines [OF s(6), of 64] obtain h1 where h1: "kmalloc 64 (heap s) = Some (4202596, h1)"
    "heap_ok h1 [(64, False), (8192, False), (64, False), (4185936, True)]" by (auto simp: A)
  from kmalloc_refines [OF h1(2), of 16384] obtain h2 where h2: "kmalloc 16384 h1 = Some (4202672, h2)"
    "heap_ok h2 [(64, False), (8192, False), (64, False), (16384, False), (4169540, True)]" by (auto simp: A)
  from kmalloc_refines [OF h2(2), of 8192] obtain h3 where h3: "kmalloc 8192 h2 = Some (4219068, h3)" by (auto simp: A)
  obtain s' where s': "task_create cd [] 0 s = Some (4202596, s')"
    using h1(1) h2(1) h3 by (simp add: task_create_def Let_def split: prod.split)
  have P: "task_create_post cd [] 0 s L C [current s] 4202596 s'" using wpD [OF task_create_ok [OF ok, of cd "[]" 0]] s' by auto
  let ?t = "4202596 :: u32"
  have ne: "?t \<noteq> current s" using P by (auto simp: task_create_post_def Let_def)
  have al: "alive s' ?t" "current s' = current s" "head s' = head s" "proc s' = proc s" using P by (auto simp: task_create_post_def Let_def)
  have "ring (get_next s') (current s') [current s', ?t]" using P s(5) ring_okD(3) unfolding task_create_post_def Let_def by fastforce
  then have "run_queue s' [current s', ?t]" using al(1) by (auto simp: run_queue_def)
  moreover have "room s'" using al s(4,5) by (auto simp: room_def area_def Let_def)
  ultimately show ?thesis using task_reach.create [OF s(1,3) s'] s(3) al(2,4) ne by metis
qed

text \<open>C4. In every history the control blocks form one ring without repetition that contains the current
  task; exactly the current task is running (or every task is dead and the processor has halted); the
  stacks of different tasks do not overlap; the TSS points to the current task's ring-0 stack; and
  \<^verbatim>\<open>task_create\<close>, \<^verbatim>\<open>schedule\<close>, \<^verbatim>\<open>task_count\<close> (the number of tasks that are not dead) and \<^verbatim>\<open>task_foreach\<close>
  (every task once) return.\<close>

theorem task_history_safe:
  assumes "task_reach cd s L C"
  shows "\<exists>xs. ring (get_next s) (head s) xs \<and> set xs = dom C \<and> current s \<in> set xs \<and> states_ok s xs
    \<and> (\<forall>t \<in> set xs. \<forall>u \<in> set xs. t \<noteq> u \<longrightarrow> area s t \<inter> area s u = {})
    \<and> tss_esp0 s = kstack_top_of (t_kstack_base (tcb s (current s)))
    \<and> (\<exists>r. task_create cd name entry s = Some r) \<and> (\<exists>s'. schedule cd s = Some s')
    \<and> task_count s = Some (int (length (filter (alive s) xs)))
    \<and> task_foreach s (\<lambda>b bs. Some (bs @ [b])) [] = Some (map (tcb s) xs)"
proof -
  from task_reach_ok [OF assms] obtain xs where xs: "tasks_ok s L C xs" by blast
  then have ok: "ring_ok s L C xs" and st: "states_ok s xs" by (auto simp: tasks_ok_def)
  note D = ring_okD [OF ok]
  have "\<exists>r. task_create cd name entry s = Some r" using task_create_ok [OF ok, of cd name entry] by (auto simp: wp_def)
  moreover have "\<exists>s'. schedule cd s = Some s'" using ring_from_current [OF ok] schedule_eq [OF _ D(2)] by blast
  moreover have "visit (\<lambda>b bs. Some (bs @ [b])) zs bs = Some (bs @ zs)" for zs bs :: "task_t list" by (induction zs arbitrary: bs) auto
  then have "task_foreach s (\<lambda>b bs. Some (bs @ [b])) [] = Some (map (tcb s) xs)"
    using ring_walks(2) [OF D(3), of "\<lambda>b bs. Some (bs @ [b])" "[]"] by simp
  moreover have "area s t \<inter> area s u = {}" if "t \<in> set xs" "u \<in> set xs" "t \<noteq> u" for t u
    using area_disjoint [OF D(1) D(6) [OF that(1)] D(6) [OF that(2)] D(7) [OF that]] .
  moreover have "tss_esp0 s = kstack_top_of (t_kstack_base (tcb s (current s)))" using D(8) D(6) [OF D(5)] by (simp add: task_mem_def)
  ultimately show ?thesis using D(3-5) st ring_walks(1) [OF D(3)] by (intro exI [of _ xs]) simp
qed

theorem task_history_safe_witness:
  "\<exists>cd s L C xs. task_reach cd s L C \<and> ring (get_next s) (head s) xs \<and> states_ok s xs \<and> task_count s = Some (int (length (filter (alive s) xs)))"
proof -
  from booted obtain s L C where r: "task_reach cd s L C" by blast
  from task_history_safe [OF r, of "[]" 0] r show ?thesis by blast
qed

text \<open>C6. A switch resumes the next task exactly where it left: in every history, when \<^verbatim>\<open>schedule\<close> switches, the
  callee-saved registers, stack pointer and instruction pointer become those the next task had when it was
  switched away from (or those of a fresh entry into \<^verbatim>\<open>task_bootstrap\<close>), whatever the other tasks and
  other users of the heap did since; a dead task is never switched to.\<close>

theorem task_switch_resumes:
  assumes "task_reach cd s L C" and "\<not> halted (proc s)" and "room s" and "schedule cd s = Some s'" and "current s' \<noteq> current s"
  shows "resumes (the (C (current s'))) (proc s') \<and> alive s (current s') \<and> t_state (tcb s' (current s')) = TASK_RUNNING
    \<and> tss_esp0 s' = t_kstack_top (tcb s' (current s'))"
proof -
  from task_reach_ok [OF assms(1)] obtain xs where "tasks_ok s L C xs" by blast
  then have ok: "ring_ok s L C xs" and st: "\<And>t. t \<in> set xs \<Longrightarrow> t_state (tcb s t) = TASK_RUNNING \<longleftrightarrow> t = current s"
    using assms(2) by (auto simp: tasks_ok_def states_ok_def)
  from queue_from_ring [OF ok] obtain q where q: "run_queue s (current s # q)" by blast
  have nr: "t_state (tcb s (current s)) \<noteq> TASK_READY" using st [OF ring_okD(5) [OF ok]] by simp
  note W = schedule_ok [OF ok assms(3) _ nr assms(2) q, of cd]
  show ?thesis
  proof (cases q)
    case Nil
    then show ?thesis using W st assms(4,5) by auto
  next
    case (Cons nx q')
    have "\<forall>t \<in> set q. alive s t" using q by (auto simp: run_queue_def)
    then have al: "alive s nx" using Cons by simp
    from W Cons st assms(4) have s': "current s' = nx" "resumes (the (C nx)) (proc s')" "\<not> halted (proc s')"
      "ring_ok s' L (C(current s \<mapsto> suspended cd (proc s))) xs" "states_ok s' xs" by auto
    then show ?thesis using al ring_okD(5,8) [OF s'(4)] by (auto simp: states_ok_def)
  qed
qed

theorem task_switch_resumes_witness:
  "\<exists>cd s L C s'. schedule cd s = Some s' \<and> current s' \<noteq> current s \<and> resumes (the (C (current s'))) (proc s') \<and> task_reach cd s L C"
proof -
  from two_tasks obtain s L C t where s: "task_reach cd s L C" "\<not> halted (proc s)" "room s" "run_queue s [current s, t]" "t \<noteq> current s" by blast
  from task_reach_ok [OF s(1)] obtain xs where xs: "tasks_ok s L C xs" by blast
  from schedule_rotates [OF xs s(2-4), of cd] obtain s' where s': "schedule cd s = Some s'" "run_queue s' [t, current s]" by auto
  then have "current s' = t" by (auto simp: run_queue_def)
  with task_switch_resumes [OF s(1-3) s'(1)] s(1,5) s'(1) show ?thesis by metis
qed

text \<open>C20. Round robin: \<^verbatim>\<open>schedule\<close> refines the rotation of a queue, the tasks that are not dead in ring order with the
  current one first; \<^verbatim>\<open>task_exit\<close> refines the removal of its head.\<close>

theorem schedule_round_robin:
  assumes "task_reach cd s L C" and "\<not> halted (proc s)" and "room s" and "run_queue s q"
  shows "distinct q \<and> set q = {t \<in> dom C. alive s t} \<and> hd q = current s
    \<and> (\<exists>s'. schedule cd s = Some s' \<and> run_queue s' (rotate1 q))
    \<and> (\<exists>s'. task_exit cd s = Some s' \<and> (if tl q = [] then halted (proc s') else run_queue s' (tl q)))"
proof -
  from task_reach_ok [OF assms(1)] obtain xs where xs: "tasks_ok s L C xs" by blast
  then have ok: "ring_ok s L C xs" by (simp add: tasks_ok_def)
  have "alive s (current s)" using xs ring_okD(5) [OF ok] assms(2) by (auto simp: tasks_ok_def states_ok_def)
  from queue_members [OF ok assms(4) this] schedule_rotates [OF xs assms(2-4), of cd] exit_removes [OF xs assms(2-4), of cd]
  show ?thesis by blast
qed

theorem schedule_round_robin_witness:
  "\<exists>cd s s' s'' a b. run_queue s [a, b] \<and> schedule cd s = Some s' \<and> run_queue s' [b, a] \<and> task_exit cd s = Some s'' \<and> run_queue s'' [b]"
proof -
  from two_tasks obtain s L C t where s: "task_reach cd s L C" "\<not> halted (proc s)" "room s" "run_queue s [current s, t]" by blast
  from schedule_round_robin [OF this] obtain s' s'' where "schedule cd s = Some s'" "run_queue s' [t, current s]"
    "task_exit cd s = Some s''" "run_queue s'' [t]" by auto
  with s(4) show ?thesis by blast
qed

text \<open>C21. Every task gets its turn: between two creations or exits, after \<open>n\<close> timer ticks or other calls of
  \<^verbatim>\<open>schedule\<close>, with anything the running tasks do on their own stacks in between, the running task is the
  one \<open>n\<close> places along the queue, cyclically; so each of \<open>k\<close> live tasks runs within any \<open>k\<close> calls.\<close>

theorem every_task_runs:
  assumes "task_reach cd s L C" and "\<not> halted (proc s)" and "run_queue s q" and "sched_run cd n s s'"
  shows "current s' = q ! (n mod length q) \<and> (\<forall>t \<in> dom C. alive s t \<longrightarrow> (\<exists>k < length q. q ! k = t))"
proof -
  from task_reach_ok [OF assms(1)] obtain xs where xs: "tasks_ok s L C xs" by blast
  then have ok: "ring_ok s L C xs" by (simp add: tasks_ok_def)
  have "alive s (current s)" using xs ring_okD(5) [OF ok] assms(2) by (auto simp: tasks_ok_def states_ok_def)
  note M = queue_members [OF ok assms(3) this]
  from assms(3) have ne: "q \<noteq> []" by (auto simp: run_queue_def)
  from sched_run_queue [OF assms(4,1-3)] have "run_queue s' (rotate n q)" by blast
  then have "current s' = hd (rotate n q)" by (auto simp: run_queue_def)
  then have "current s' = q ! (n mod length q)" using hd_rotate_conv_nth [OF ne, of n] by simp
  moreover have "\<exists>k < length q. q ! k = t" if "t \<in> dom C" "alive s t" for t using that M(2) by (metis (mono_tags, lifting) in_set_conv_nth mem_Collect_eq)
  ultimately show ?thesis by blast
qed

theorem every_task_runs_witness:
  "\<exists>cd s t s'. sched_run cd 1 s s' \<and> run_queue s [current s, t] \<and> current s' = t"
proof -
  from two_tasks obtain s L C t where s: "task_reach cd s L C" "\<not> halted (proc s)" "room s" "run_queue s [current s, t]" by blast
  from task_reach_ok [OF s(1)] obtain xs where xs: "tasks_ok s L C xs" by blast
  from schedule_rotates [OF xs s(2-4), of cd] obtain s' where s': "schedule cd s = Some s'" by auto
  have r: "sched_run cd 1 s s'" using sched_run.tick [OF sched_run.start s(3) s'] by simp
  from every_task_runs [OF s(1,2,4) r] r s(4) show ?thesis by auto
qed

text \<open>\<^verbatim>\<open>task_create\<close> fails cleanly: it returns; when it returns 0, no task and no block of the heap is added or
  lost; otherwise the new task is READY with its name, entry and the next id, sits on the ring behind the
  head, and its first switch enters \<^verbatim>\<open>task_bootstrap\<close>.\<close>

theorem task_create_outcome:
  assumes "task_reach cd s L C" and "\<not> halted (proc s)"
  shows "\<exists>t s' xs ys. task_create cd name entry s = Some (t, s') \<and> ring (get_next s) (head s) xs \<and> ring (get_next s') (head s') ys
    \<and> (if t = 0 then heap_holds (heap s') L \<and> ys = xs \<and> (\<forall>u \<in> set xs. tcb s' u = tcb s u)
       else ys = head s # t # tl xs \<and> t \<notin> set xs \<and> parked s' t (first_context cd (t_stack_base (tcb s' t)))
         \<and> t_state (tcb s' t) = TASK_READY \<and> t_entry (tcb s' t) = entry \<and> t_name (tcb s' t) = task_name name
         \<and> t_id (tcb s' t) = next_id s)"
proof -
  from task_reach_ok [OF assms(1)] obtain xs where "tasks_ok s L C xs" by blast
  then have ok: "ring_ok s L C xs" by (simp add: tasks_ok_def)
  from task_create_ok [OF ok, of cd name entry] obtain t s' where
    r: "task_create cd name entry s = Some (t, s')" "task_create_post cd name entry s L C xs t s'" by (auto simp: wp_def)
  show ?thesis
  proof (cases "t = 0")
    case True
    then show ?thesis using r ring_okD(1,3) [OF ok] ring_okD(1,3) [of s' L C xs]
      by (intro exI [of _ t] exI [of _ s'] exI [of _ xs] exI [of _ xs]) (simp add: task_create_post_def)
  next
    case False
    let ?ys = "head s # t # tl xs"
    have P: "t \<notin> set xs" "t_state (tcb s' t) = TASK_READY" "t_entry (tcb s' t) = entry" "t_name (tcb s' t) = task_name name"
      "t_id (tcb s' t) = next_id s" "current s' = current s" "head s' = head s" using r(2) False by (auto simp: task_create_post_def Let_def)
    obtain L' where ok': "ring_ok s' L' (C(t \<mapsto> first_context cd (t_stack_base (tcb s' t)))) ?ys"
      using r(2) False unfolding task_create_post_def Let_def by auto
    have "parked s' t (first_context cd (t_stack_base (tcb s' t)))"
      using ring_okD(9) [OF ok', of t] P(1,2,6) ring_okD(5) [OF ok] by auto
    then show ?thesis using r(1) False P ring_okD(3) [OF ok] ring_okD(3) [OF ok']
      by (intro exI [of _ t] exI [of _ s'] exI [of _ xs] exI [of _ ?ys]) simp
  qed
qed

theorem task_create_outcome_witness:
  "\<exists>cd s s' t. task_create cd [65] 7 s = Some (t, s') \<and> (t \<noteq> 0 \<longrightarrow> t_name (tcb s' t) = task_name [65])"
proof -
  from booted obtain s L C where s: "task_reach cd s L C" "\<not> halted (proc s)" by blast
  from task_create_outcome [OF s, of "[65]" 7] show ?thesis by (auto split: if_splits)
qed

end
