(* ===== verification/Console.thy ===== *)
theory Console
  imports Prelude
begin

text \<open>
  The calls other parts of the kernel make to the screen driver (\<^verbatim>\<open>drivers/screen.h\<close>). Components that
  print (the shell, the exception handler, system calls) are modelled with the sequence of these calls as
  their output; the screen driver's model says what each call does to the display.
\<close>

datatype console_call =
    Kputc u8
  | Kprint "u8 list"
  | Kprint_dec int
  | Kprint_hex u32
  | Set_color u8
  | Clear_screen
  | Screen_init

type_synonym console = "console_call list"

text \<open>A string literal of the source.\<close>

definition str :: "string \<Rightarrow> u8 list" where
  "str s = map of_char s"

definition VGA_COLOR :: "u8 \<Rightarrow> u8 \<Rightarrow> u8" where
  "VGA_COLOR fg bg = push_bit 4 bg OR fg"

end
