(* ===== verification/Green.thy ===== *)
theory Green
  imports Task_Props Console
begin

text \<open>
  \<^verbatim>\<open>kernel/green.c\<close>: cooperative fibers on one kernel thread, and the demonstration in
  \<^verbatim>\<open>kernel/shell.c\<close> (\<^verbatim>\<open>gt_body\<close>, \<^verbatim>\<open>cmd_gt\<close>). A fiber runs from a switch to its next \<^verbatim>\<open>gt_yield\<close> or to
  the return of its entry function; such a step is a parameter, a function on the state \<open>'w\<close> the
  fibers share that also tells whether the entry function returned. The switch itself is
  \<^verbatim>\<open>context_switch\<close>, modelled with the tasks.
\<close>

section \<open>Model\<close>

datatype gt_state = GT_READY | GT_RUNNING | GT_DEAD

record gthread_t =
  g_esp :: u32
  g_stack_base :: u32
  g_state :: gt_state
  g_entry :: u32
  g_next :: u32

record gsys =
  g_ring :: u32
  g_current :: u32
  gthread :: "u32 \<Rightarrow> gthread_t"
  g_heap :: kheap

abbreviation (input) "GT_STACK_SIZE \<equiv> 4096 :: u32"
abbreviation (input) "SIZEOF_GTHREAD \<equiv> 20 :: u32"

definition set_gt :: "u32 \<Rightarrow> (gthread_t \<Rightarrow> gthread_t) \<Rightarrow> gsys \<Rightarrow> gsys" where
  "set_gt p f s = s\<lparr>gthread := (gthread s)(p := f (gthread s p))\<rparr>"

definition gt_next :: "gsys \<Rightarrow> u32 \<Rightarrow> u32" where
  "gt_next s p = g_next (gthread s p)"

definition set_gt_next :: "u32 \<Rightarrow> u32 \<Rightarrow> gsys \<Rightarrow> gsys" where
  "set_gt_next p q = set_gt p (g_next_update (\<lambda>_. q))"

definition set_gt_state :: "u32 \<Rightarrow> gt_state \<Rightarrow> gsys \<Rightarrow> gsys" where
  "set_gt_state p st = set_gt p (g_state_update (\<lambda>_. st))"

definition gt_init :: "gsys \<Rightarrow> gsys" where
  "gt_init s = s\<lparr>g_ring := 0, g_current := 0\<rparr>"

text \<open>The first parameter is the address of \<^verbatim>\<open>gt_trampoline\<close>.\<close>

definition gt_spawn :: "u32 \<Rightarrow> u32 \<Rightarrow> gsys \<Rightarrow> (int \<times> gsys) option" where
  "gt_spawn tramp fn s = do {
     (t, h) \<leftarrow> kmalloc SIZEOF_GTHREAD (g_heap s);
     if t = 0 then Some (- 1, s\<lparr>g_heap := h\<rparr>) else do {
       (b, h) \<leftarrow> kmalloc GT_STACK_SIZE h;
       let s = set_gt t (\<lambda>x. x\<lparr>g_stack_base := b\<rparr>) s;
       if b = 0 then do { h \<leftarrow> kfree t h; Some (- 1, s\<lparr>g_heap := h\<rparr>) } else do {
         let (sp, m) = push_words [tramp, 0, 0, 0, 0] (b + GT_STACK_SIZE) (kmem h);
         let s = set_gt t (\<lambda>x. x\<lparr>g_state := GT_READY, g_entry := fn, g_esp := sp\<rparr>) (s\<lparr>g_heap := h\<lparr>kmem := m\<rparr>\<rparr>);
         if g_ring s = 0 then Some (0, (set_gt_next t t s)\<lparr>g_ring := t\<rparr>)
         else Some (0, set_gt_next (g_ring s) t (set_gt_next t (gt_next s (g_ring s)) s))
       }
     }
   }"

partial_function (option) pick_next_loop :: "gsys \<Rightarrow> u32 \<Rightarrow> u32 \<Rightarrow> (u32 \<times> gsys) option" where
  "pick_next_loop s start t =
     (if g_state (gthread s t) = GT_READY then Some (t, s\<lparr>g_ring := gt_next s t\<rparr>)
      else (let t = gt_next s t in if t \<noteq> start then pick_next_loop s start t else Some (0, s)))"

definition pick_next :: "gsys \<Rightarrow> (u32 \<times> gsys) option" where
  "pick_next s = (if g_ring s = 0 then Some (0, s) else pick_next_loop s (g_ring s) (g_ring s))"

partial_function (option) free_all_loop :: "gsys \<Rightarrow> u32 \<Rightarrow> kheap \<Rightarrow> kheap option" where
  "free_all_loop s t h = do {
     let nx = gt_next s t;
     h \<leftarrow> kfree (g_stack_base (gthread s t)) h;
     h \<leftarrow> kfree t h;
     let t = nx;
     if t \<noteq> g_ring s then free_all_loop s t h else Some h
   }"

definition free_all :: "gsys \<Rightarrow> gsys option" where
  "free_all s =
     (if g_ring s = 0 then Some s else do {
        h \<leftarrow> free_all_loop s (g_ring s) (g_heap s);
        Some (s\<lparr>g_heap := h, g_ring := 0, g_current := 0\<rparr>)
      })"

text \<open>A switch to the fiber and back: one step, after which \<^verbatim>\<open>gt_trampoline\<close> marks a fiber whose entry
  function returned as dead before it yields for the last time.\<close>

definition gt_trampoline :: "(u32 \<Rightarrow> 'w \<Rightarrow> bool \<times> 'w) \<Rightarrow> gsys \<times> 'w \<Rightarrow> gsys \<times> 'w" where
  "gt_trampoline fib sw =
     (let (s, w) = sw; (fin, w) = fib (g_current s) w
      in (if fin then set_gt_state (g_current s) GT_DEAD s else s, w))"

partial_function (option) gt_run_loop :: "(u32 \<Rightarrow> 'w \<Rightarrow> bool \<times> 'w) \<Rightarrow> gsys \<Rightarrow> 'w \<Rightarrow> (gsys \<times> 'w) option" where
  "gt_run_loop fib s w = do {
     (nx, s) \<leftarrow> pick_next s;
     if nx = 0 then Some (s, w) else do {
       let s = set_gt_state nx GT_RUNNING (s\<lparr>g_current := nx\<rparr>);
       let (s, w) = gt_trampoline fib (s, w);
       let s = (if g_state (gthread s (g_current s)) = GT_RUNNING then set_gt_state (g_current s) GT_READY s else s);
       gt_run_loop fib s w
     }
   }"

definition gt_run :: "(u32 \<Rightarrow> 'w \<Rightarrow> bool \<times> 'w) \<Rightarrow> gsys \<Rightarrow> 'w \<Rightarrow> (gsys \<times> 'w) option" where
  "gt_run fib s w = do {
     (s, w) \<leftarrow> gt_run_loop fib s w;
     s \<leftarrow> free_all s;
     Some (s, w)
   }"

subsection \<open>The demonstration\<close>

text \<open>\<^verbatim>\<open>gt_body\<close>: the loop variable of each fiber lives on its stack, the counter and the output are shared.
  A slice is one iteration up to \<^verbatim>\<open>gt_yield\<close>, or the end of the loop.\<close>

record gt_world =
  gt_i :: "u32 \<Rightarrow> nat"
  gt_counter :: int
  gt_out :: console

definition gt_body :: "u32 \<Rightarrow> gt_world \<Rightarrow> bool \<times> gt_world" where
  "gt_body t w =
     (if gt_i w t < 5
      then (False, w\<lparr>gt_counter := gt_counter w + 1, gt_out := gt_out w @ [Kprint (str ''.'')], gt_i := (gt_i w)(t := gt_i w t + 1)\<rparr>)
      else (True, w))"

fun gt_spawn_all :: "u32 \<Rightarrow> u32 \<Rightarrow> nat \<Rightarrow> int \<Rightarrow> gsys \<Rightarrow> (int \<times> gsys) option" where
  "gt_spawn_all tramp fn 0 n s = Some (n, s)"
| "gt_spawn_all tramp fn (Suc k) n s = do {
     (r, s) \<leftarrow> gt_spawn tramp fn s;
     gt_spawn_all tramp fn k (if r = 0 then n + 1 else n) s
   }"

definition cmd_gt :: "u32 \<Rightarrow> u32 \<Rightarrow> gsys \<Rightarrow> (console \<times> gsys) option" where
  "cmd_gt tramp body s = do {
     let s = gt_init s;
     (n, s) \<leftarrow> gt_spawn_all tramp body 4 0 s;
     let out = [Kprint (str ''running ''), Kprint_dec n, Kprint (str '' green threads: '')];
     (s, w) \<leftarrow> gt_run gt_body s \<lparr>gt_i = (\<lambda>_. 0), gt_counter = 0, gt_out = out\<rparr>;
     Some (gt_out w @ [Kprint (str ''\<newline>gt done, counter = ''), Kprint_dec (gt_counter w), Kprint (str ''\<newline>'')], s)
   }"

end
