(* ===== verification/Green_Props.thy ===== *)
theory Green_Props
  imports Green
begin

text \<open>
  Correctness of the green threads: \<^verbatim>\<open>gt_run\<close> runs the fibers in round-robin order to completion, as the
  reference function \<open>round_robin\<close> on a plain queue does, and gives all their memory back.
\<close>

lemma set_gt_simps [simp]:
  "gthread (set_gt p f s) = (gthread s)(p := f (gthread s p))" "g_ring (set_gt p f s) = g_ring s"
  "g_current (set_gt p f s) = g_current s" "g_heap (set_gt p f s) = g_heap s"
  by (simp_all add: set_gt_def)

interpretation gr: ring_store gt_next set_gt_next
  by unfold_locales (simp add: fun_eq_iff gt_next_def set_gt_next_def)

section \<open>The reference scheduler\<close>

partial_function (option) round_robin :: "(u32 \<Rightarrow> 'w \<Rightarrow> bool \<times> 'w) \<Rightarrow> u32 list \<Rightarrow> 'w \<Rightarrow> 'w option" where
  "round_robin fib q w = (case q of [] \<Rightarrow> Some w
     | t # q' \<Rightarrow> let (fin, w') = fib t w in round_robin fib (if fin then q' else q' @ [t]) w')"

lemma round_robin_Nil [simp]: "round_robin fib [] w = Some w"
  by (subst round_robin.simps) simp

lemma round_robin_Cons:
  "round_robin fib (t # q) w = round_robin fib (if fst (fib t w) then q else q @ [t]) (snd (fib t w))"
  by (subst round_robin.simps) (simp add: case_prod_beta Let_def)

section \<open>The ring of fibers\<close>

abbreviation ready :: "gsys \<Rightarrow> u32 \<Rightarrow> bool" where
  "ready s t \<equiv> g_state (gthread s t) = GT_READY"

definition fiber_mem :: "gsys \<Rightarrow> (nat \<rightharpoonup> nat) \<Rightarrow> u32 \<Rightarrow> bool" where
  "fiber_mem s L t \<longleftrightarrow> L (unat t) = Some 20 \<and> L (unat (g_stack_base (gthread s t))) = Some 4096"

definition fiber_ptrs :: "gsys \<Rightarrow> u32 list \<Rightarrow> nat list" where
  "fiber_ptrs s xs = concat (map (\<lambda>t. [unat (g_stack_base (gthread s t)), unat t]) xs)"

text \<open>Between slices: the fibers form a ring that starts at \<^verbatim>\<open>g_ring\<close>, their blocks are held and apart, and
  none is running.\<close>

definition fibers_ok :: "gsys \<Rightarrow> (nat \<rightharpoonup> nat) \<Rightarrow> u32 list \<Rightarrow> bool" where
  "fibers_ok s L xs \<longleftrightarrow> heap_holds (g_heap s) L \<and> (if xs = [] then g_ring s = 0 else ring (gt_next s) (g_ring s) xs)
     \<and> (\<forall>t \<in> set xs. fiber_mem s L t) \<and> distinct (fiber_ptrs s xs) \<and> (\<forall>t \<in> set xs. g_state (gthread s t) \<noteq> GT_RUNNING)"

lemma fibers_okD:
  assumes "fibers_ok s L xs"
  shows "heap_holds (g_heap s) L" and "xs = [] \<Longrightarrow> g_ring s = 0" and "xs \<noteq> [] \<Longrightarrow> ring (gt_next s) (g_ring s) xs"
    and "\<And>t. t \<in> set xs \<Longrightarrow> fiber_mem s L t" and "distinct (fiber_ptrs s xs)"
    and "\<And>t. t \<in> set xs \<Longrightarrow> g_state (gthread s t) \<noteq> GT_RUNNING"
  using assms by (auto simp: fibers_ok_def split: if_splits)

lemma fiber_nonzero:
  assumes "fibers_ok s L xs" shows "0 \<notin> set xs"
proof
  assume "0 \<in> set xs"
  then have "L (unat (0 :: u32)) = Some 20" using fibers_okD(4) [OF assms, of 0] by (simp add: fiber_mem_def)
  with kh.held_ptr(1) [OF fibers_okD(1) [OF assms]] show False by blast
qed

lemma ring_entry:
  assumes "fibers_ok s L xs" and "xs \<noteq> []"
  shows "g_ring s \<noteq> 0" and "path (gt_next s) (g_ring s) xs (g_ring s)" and "g_ring s \<notin> set (tl xs)"
proof -
  note r = fibers_okD(3) [OF assms]
  show "g_ring s \<noteq> 0" using fiber_nonzero [OF assms(1)] ringD(4) [OF r] by auto
  show "path (gt_next s) (g_ring s) xs (g_ring s)" using r by (simp add: ring_def)
  show "g_ring s \<notin> set (tl xs)" using ringD(2) [OF r] ring_Cons [OF r] by (metis distinct.simps(2))
qed

lemma fiber_ptrs_simps [simp]:
  "fiber_ptrs s [] = []" "fiber_ptrs s (t # xs) = unat (g_stack_base (gthread s t)) # unat t # fiber_ptrs s xs"
  "fiber_ptrs s (xs @ ys) = fiber_ptrs s xs @ fiber_ptrs s ys"
  by (simp_all add: fiber_ptrs_def)

lemma fiber_ptrs_cong:
  "(\<And>t. t \<in> set xs \<Longrightarrow> g_stack_base (gthread s' t) = g_stack_base (gthread s t)) \<Longrightarrow> fiber_ptrs s' xs = fiber_ptrs s xs"
  by (induction xs) auto

lemma pick_next_path:
  "path (gt_next s) t ts start \<Longrightarrow> ts \<noteq> [] \<Longrightarrow> start \<notin> set (tl ts) \<Longrightarrow>
    pick_next_loop s start t = Some (case List.find (ready s) ts of None \<Rightarrow> (0, s) | Some u \<Rightarrow> (u, s\<lparr>g_ring := gt_next s u\<rparr>))"
proof (induction ts arbitrary: t)
  case (Cons u ts)
  show ?case
  proof (cases ts)
    case Nil
    then show ?thesis using Cons.prems by (subst pick_next_loop.simps) (auto simp: Let_def)
  next
    case (Cons v vs)
    with Cons.IH [of "gt_next s u"] Cons.prems show ?thesis by (subst pick_next_loop.simps) (auto simp: Let_def)
  qed
qed simp

lemma pick_next_eq:
  assumes "fibers_ok s L xs"
  shows "pick_next s = Some (case List.find (ready s) xs of None \<Rightarrow> (0, s) | Some u \<Rightarrow> (u, s\<lparr>g_ring := gt_next s u\<rparr>))"
  using pick_next_path [OF ring_entry(2) [OF assms] _ ring_entry(3) [OF assms]] ring_entry(1) [OF assms] fibers_okD(2) [OF assms]
  by (cases "xs = []") (auto simp: pick_next_def)

lemma ring_shift: "ring n x (x # xs) \<Longrightarrow> ring n (n x) (xs @ [x])"
  by (auto simp: ring_def)

text \<open>What one round of \<^verbatim>\<open>gt_run\<close>'s loop leaves: the chosen fiber is last in the ring, ready or dead.\<close>

definition after_slice :: "u32 \<Rightarrow> bool \<Rightarrow> gsys \<Rightarrow> gsys" where
  "after_slice u fin s = set_gt u (\<lambda>x. x\<lparr>g_state := if fin then GT_DEAD else GT_READY\<rparr>) (s\<lparr>g_ring := gt_next s u, g_current := u\<rparr>)"

lemma after_slice_ok:
  assumes ok: "fibers_ok s L xs" and xs: "xs = as @ u # bs"
  shows "fibers_ok (after_slice u fin s) L (bs @ as @ [u])"
proof -
  let ?s = "after_slice u fin s"
  note D = fibers_okD [OF ok]
  have sb: "g_stack_base (gthread ?s t) = g_stack_base (gthread s t)" for t by (simp add: after_slice_def)
  have nx: "gt_next ?s = gt_next s" by (auto simp: gt_next_def after_slice_def fun_eq_iff)
  have "ring (gt_next s) (g_ring s) (as @ u # bs)" using D(3) xs by simp
  then have "ring (gt_next s) u (u # bs @ as)" by (auto simp: ring_def)
  from ring_shift [OF this] have r: "ring (gt_next ?s) (g_ring ?s) (bs @ as @ [u])" unfolding nx by (simp add: after_slice_def)
  have p: "fiber_ptrs ?s zs = fiber_ptrs s zs" for zs by (rule fiber_ptrs_cong) (rule sb)
  have "distinct (fiber_ptrs s (bs @ as @ [u]))" using D(5) by (auto simp: xs)
  moreover have "fiber_mem ?s L t = fiber_mem s L t" for t by (simp add: fiber_mem_def sb)
  moreover have "g_state (gthread ?s t) \<noteq> GT_RUNNING" if "t \<in> set xs" for t using D(6) [OF that] by (simp add: after_slice_def)
  moreover have "g_heap ?s = g_heap s" by (simp add: after_slice_def)
  ultimately show ?thesis using D(1,4) r by (auto simp: fibers_ok_def xs p sb)
qed

lemma gt_run_loop_done:
  assumes "fibers_ok s L xs" and "filter (ready s) xs = []"
  shows "gt_run_loop fib s w = Some (s, w)"
proof -
  have "List.find (ready s) xs = None" using assms(2) by (simp add: find_None_iff filter_empty_conv)
  then show ?thesis by (subst gt_run_loop.simps) (simp add: pick_next_eq [OF assms(1)])
qed

lemma gt_run_loop_step:
  assumes ok: "fibers_ok s L xs" and q: "filter (ready s) xs = u # q" and f: "fib u w = (fin, w')"
  shows "\<exists>ys. gt_run_loop fib s w = gt_run_loop fib (after_slice u fin s) w' \<and> fibers_ok (after_slice u fin s) L ys
    \<and> filter (ready (after_slice u fin s)) ys = (if fin then q else q @ [u])
    \<and> set (fiber_ptrs (after_slice u fin s) ys) = set (fiber_ptrs s xs)"
proof -
  let ?s = "after_slice u fin s"
  from filter_hd [OF q] obtain as bs where ab: "xs = as @ u # bs" "filter (ready s) as = []" "q = filter (ready s) bs" by blast
  have "List.find (ready s) xs = Some u" using q by (simp add: find_filter)
  moreover have "u \<noteq> 0" using fiber_nonzero [OF ok] ab(1) by auto
  ultimately have "gt_run_loop fib s w = gt_run_loop fib ?s w'"
    using f by (subst gt_run_loop.simps) (simp add: pick_next_eq [OF ok] gt_trampoline_def set_gt_state_def set_gt_def after_slice_def gt_next_def)
  moreover have "distinct xs" using ok ringD(2) by (auto simp: fibers_ok_def split: if_splits)
  then have u: "u \<notin> set as" "u \<notin> set bs" using ab(1) by auto
  have st: "ready ?s t = ready s t" if "t \<noteq> u" for t using that by (simp add: after_slice_def)
  have "filter (ready ?s) zs = filter (ready s) zs" if "u \<notin> set zs" for zs using that st by (intro filter_cong refl) metis
  from this [OF u(1)] this [OF u(2)] have "filter (ready ?s) (bs @ as @ [u]) = (if fin then q else q @ [u])" using ab by (simp add: after_slice_def)
  moreover have "fiber_ptrs ?s zs = fiber_ptrs s zs" for zs by (rule fiber_ptrs_cong) (simp add: after_slice_def)
  then have "set (fiber_ptrs ?s (bs @ as @ [u])) = set (fiber_ptrs s (bs @ as @ [u]))" by (rule arg_cong)
  then have "set (fiber_ptrs ?s (bs @ as @ [u])) = set (fiber_ptrs s xs)" unfolding ab(1) by auto
  ultimately show ?thesis using after_slice_ok [OF ok ab(1)] by blast
qed

section \<open>Freeing the fibers\<close>

lemma free_all_path:
  "path (gt_next s) t ts (g_ring s) \<Longrightarrow> ts \<noteq> [] \<Longrightarrow> g_ring s \<notin> set (tl ts) \<Longrightarrow> heap_holds h L \<Longrightarrow>
    (\<And>u. u \<in> set ts \<Longrightarrow> fiber_mem s L u) \<Longrightarrow> distinct (fiber_ptrs s ts) \<Longrightarrow>
    wp (free_all_loop s t h) (\<lambda>h'. heap_holds h' (L |` (- set (fiber_ptrs s ts))))"
proof (induction ts arbitrary: t h L)
  case (Cons u ts)
  let ?b = "g_stack_base (gthread s u)"
  let ?L1 = "L(unat ?b := None)" and ?L2 = "L(unat ?b := None, unat u := None)"
  have m: "L (unat ?b) = Some 4096" "L (unat u) = Some 20" using Cons.prems(5) [of u] by (auto simp: fiber_mem_def)
  from kh.free_returns [OF Cons.prems(4) m(1)] obtain h1 where h1: "kfree ?b h = Some h1" "heap_holds h1 ?L1" by (auto simp: wp_def)
  have "?L1 (unat u) = Some 20" using m(2) Cons.prems(6) by simp
  have wu: "word_of_nat (unat u) = u" by simp
  from kh.free_returns [OF h1(2) \<open>?L1 (unat u) = Some 20\<close>] obtain h2 where h2: "kfree u h1 = Some h2" "heap_holds h2 ?L2"
    unfolding wp_def wu by blast
  have res: "?L2 |` (- X) = L |` (- insert (unat ?b) (insert (unat u) X))" for X by (auto simp: restrict_map_def fun_eq_iff)
  have t: "t = u" "path (gt_next s) (gt_next s u) ts (g_ring s)" using Cons.prems(1) by auto
  show ?case
  proof (cases ts)
    case Nil
    then have "free_all_loop s t h = Some h2" using t h1(1) h2(1) by (subst free_all_loop.simps) (simp add: Let_def)
    moreover have eq: "?L2 = L |` (- {unat ?b, unat u})" by (auto simp: restrict_map_def fun_eq_iff)
    have "heap_holds h2 (L |` (- set (fiber_ptrs s (u # ts))))" using h2(2) unfolding eq Nil by simp
    ultimately show ?thesis by simp
  next
    case (Cons v vs)
    have g: "gt_next s u \<noteq> g_ring s" using t(2) Cons Cons.prems(3) by auto
    have fm: "fiber_mem s ?L2 z" if "z \<in> set ts" for z
    proof -
      have "unat z \<in> set (fiber_ptrs s ts)" "unat (g_stack_base (gthread s z)) \<in> set (fiber_ptrs s ts)"
        using that by (auto simp: fiber_ptrs_def)
      then have "unat z \<noteq> unat ?b" "unat z \<noteq> unat u" "unat (g_stack_base (gthread s z)) \<noteq> unat ?b" "unat (g_stack_base (gthread s z)) \<noteq> unat u"
        using Cons.prems(6) by auto
      then show ?thesis using Cons.prems(5) [of z] that by (simp add: fiber_mem_def)
    qed
    have ne: "ts \<noteq> []" "g_ring s \<notin> set (tl ts)" "distinct (fiber_ptrs s ts)" using Cons Cons.prems(3,6) by auto
    have "wp (free_all_loop s (gt_next s u) h2) (\<lambda>h'. heap_holds h' (?L2 |` (- set (fiber_ptrs s ts))))"
      by (rule Cons.IH [OF t(2) ne(1,2) h2(2) fm ne(3)])
    then have "wp (free_all_loop s (gt_next s u) h2) (\<lambda>h'. heap_holds h' (L |` (- set (fiber_ptrs s (u # ts)))))"
      unfolding res by simp
    moreover have "free_all_loop s t h = free_all_loop s (gt_next s u) h2"
      using t(1) h1(1) h2(1) g by (subst free_all_loop.simps) (simp add: Let_def)
    ultimately show ?thesis by simp
  qed
qed simp

lemma free_all_ok:
  assumes "fibers_ok s L xs"
  shows "wp (free_all s) (\<lambda>s'. heap_holds (g_heap s') (L |` (- set (fiber_ptrs s xs))) \<and> g_ring s' = 0)"
proof (cases "xs = []")
  case True
  moreover have "L |` UNIV = L" by (simp add: restrict_map_def)
  ultimately show ?thesis using fibers_okD(1,2) [OF assms] by (simp add: free_all_def)
next
  case False
  have "wp (free_all_loop s (g_ring s) (g_heap s)) (\<lambda>h'. heap_holds h' (L |` (- set (fiber_ptrs s xs))))"
    by (rule free_all_path [OF ring_entry(2) [OF assms False] False ring_entry(3) [OF assms False] fibers_okD(1) [OF assms]
        fibers_okD(4) [OF assms] fibers_okD(5) [OF assms]])
  then show ?thesis using ring_entry(1) [OF assms False] by (auto simp: free_all_def wp_def)
qed

section \<open>Fibers that come to an end\<close>

text \<open>\<open>left t w\<close> is the number of yields fiber \<open>t\<close> has still to make.\<close>

locale fibers =
  fixes fib :: "u32 \<Rightarrow> 'w \<Rightarrow> bool \<times> 'w" and left :: "u32 \<Rightarrow> 'w \<Rightarrow> nat"
  assumes last: "left t w = 0 \<Longrightarrow> fst (fib t w)"
    and more: "0 < left t w \<Longrightarrow> \<not> fst (fib t w) \<and> left t (snd (fib t w)) = left t w - 1"
    and other: "u \<noteq> t \<Longrightarrow> left u (snd (fib t w)) = left u w"
begin

definition work :: "u32 list \<Rightarrow> 'w \<Rightarrow> nat" where
  "work q w = (\<Sum>t \<leftarrow> q. left t w + 1)"

lemma work_decreases:
  assumes "distinct (t # q)"
  shows "work (if fst (fib t w) then q else q @ [t]) (snd (fib t w)) < work (t # q) w"
proof -
  have "left x (snd (fib t w)) = left x w" if "x \<in> set q" for x using other [of x t w] that assms by auto
  then have q: "work q (snd (fib t w)) = work q w" unfolding work_def by (intro arg_cong [of _ _ sum_list] map_cong) simp_all
  show ?thesis using q last [of t w] more [of t w] by (cases "left t w") (auto simp: work_def)
qed

lemma run_loop_returns:
  assumes "fibers_ok s L xs" and "filter (ready s) xs = q"
  shows "\<exists>s' w' ys. gt_run_loop fib s w = Some (s', w') \<and> round_robin fib q w = Some w' \<and> fibers_ok s' L ys
    \<and> set (fiber_ptrs s' ys) = set (fiber_ptrs s xs)"
  using assms
proof (induction "work q w" arbitrary: q w s xs rule: less_induct)
  case less
  show ?case
  proof (cases q)
    case Nil
    then show ?thesis using less.prems gt_run_loop_done [OF less.prems(1), of fib w] by auto
  next
    case (Cons u q')
    obtain fin w' where f: "fib u w = (fin, w')" by (cases "fib u w")
    let ?s = "after_slice u fin s" and ?q = "if fin then q' else q' @ [u]"
    from gt_run_loop_step [where fib = fib and u = u and q = q' and w = w, OF less.prems(1)] less.prems(2) Cons f obtain ys where
      ys: "gt_run_loop fib s w = gt_run_loop fib ?s w'" "fibers_ok ?s L ys" "filter (ready ?s) ys = ?q"
        "set (fiber_ptrs ?s ys) = set (fiber_ptrs s xs)" by blast
    have "distinct xs" using less.prems(1) ringD(2) by (auto simp: fibers_ok_def split: if_splits)
    then have "distinct q" using less.prems(2) by auto
    then have "work ?q w' < work q w" using work_decreases [of u q' w] Cons f by simp
    from less.hyps [OF this ys(2,3)] show ?thesis using ys(1,4) Cons f by (auto simp: round_robin_Cons)
  qed
qed

lemma run_returns:
  assumes "fibers_ok s L xs"
  shows "\<exists>s' w'. gt_run fib s w = Some (s', w') \<and> round_robin fib (filter (ready s) xs) w = Some w' \<and> g_ring s' = 0
    \<and> heap_holds (g_heap s') (L |` (- set (fiber_ptrs s xs)))"
proof -
  from run_loop_returns [OF assms refl] obtain s1 w' ys where
    r: "gt_run_loop fib s w = Some (s1, w')" "round_robin fib (filter (ready s) xs) w = Some w'" "fibers_ok s1 L ys"
      "set (fiber_ptrs s1 ys) = set (fiber_ptrs s xs)" by blast
  from free_all_ok [OF r(3)] r(1,2,4) show ?thesis by (auto simp: wp_def gt_run_def)
qed

end

section \<open>Starting fibers\<close>

lemma push_words_same:
  "4 * length ws \<le> a \<Longrightarrow> a < 2 ^ 32 \<Longrightarrow>
    \<exists>m'. push_words ws (word_of_nat a) m = (word_of_nat (a - 4 * length ws), m') \<and> same_on (- {a - 4 * length ws..<a}) m m'"
proof (induction ws arbitrary: a m)
  case (Cons w ws)
  have st: "st32 (word_of_nat a - 4) w m = stn (a - 4) w m" "word_of_nat a - 4 = (word_of_nat (a - 4) :: u32)"
    using word_sub [of 4 a] Cons.prems(1) by (simp_all add: stn_def)
  have le: "4 * length ws \<le> a - 4" "a - 4 < 2 ^ 32" using Cons.prems by auto
  from Cons.IH [OF le, of "stn (a - 4) w m"] obtain m' where
    m': "push_words ws (word_of_nat (a - 4)) (stn (a - 4) w m) = (word_of_nat (a - 4 - 4 * length ws), m')"
      "same_on (- {a - 4 - 4 * length ws..<a - 4}) (stn (a - 4) w m) m'" by blast
  have "same_on (- {a - 4 * length (w # ws)..<a}) m (stn (a - 4) w m)" by (rule same_on_stn) (use Cons.prems in auto)
  moreover have "same_on (- {a - 4 * length (w # ws)..<a}) (stn (a - 4) w m) m'" by (rule same_on_mono [OF m'(2)]) auto
  ultimately have "same_on (- {a - 4 * length (w # ws)..<a}) m m'" by (rule same_on_trans)
  then show ?case using m'(1) by (simp add: st(2) stn_def del: of_nat_diff)
qed simp

text \<open>A batch: fibers that are all ready, on top of the blocks \<open>L0\<close> of other users of the heap.\<close>

definition batch :: "gsys \<Rightarrow> (nat \<rightharpoonup> nat) \<Rightarrow> u32 list \<Rightarrow> bool" where
  "batch s L0 xs \<longleftrightarrow> (\<exists>L. fibers_ok s L xs \<and> L |` (- set (fiber_ptrs s xs)) = L0) \<and> (\<forall>t \<in> set xs. ready s t)"

lemma fibers_ok_heap:
  assumes "fibers_ok s L xs" and "heap_holds h L" and "t \<notin> set xs"
  shows "fibers_ok (s\<lparr>gthread := (gthread s)(t := x), g_heap := h\<rparr>) L xs \<and>
    fiber_ptrs (s\<lparr>gthread := (gthread s)(t := x), g_heap := h\<rparr>) xs = fiber_ptrs s xs"
proof -
  let ?s = "s\<lparr>gthread := (gthread s)(t := x), g_heap := h\<rparr>"
  have p: "fiber_ptrs ?s xs = fiber_ptrs s xs" using assms(3) by (intro fiber_ptrs_cong) auto
  moreover have "ring (gt_next ?s) (g_ring s) xs" if "ring (gt_next s) (g_ring s) xs"
    using that assms(3) by (intro ring_cong [OF that]) (auto simp: gt_next_def)
  moreover have "gthread ?s u = gthread s u" if "u \<in> set xs" for u using that assms(3) by auto
  ultimately show ?thesis using assms(1,2) unfolding fibers_ok_def fiber_mem_def p by auto
qed

lemma fresh_fiber: "fibers_ok s L xs \<Longrightarrow> unat t \<notin> dom L \<Longrightarrow> t \<notin> set xs"
  using fibers_okD(4) by (fastforce simp: fiber_mem_def)

text \<open>Linking a fiber with fresh blocks into the ring.\<close>

lemma batch_insert:
  assumes ok: "fibers_ok s L xs" and L0: "L |` (- set (fiber_ptrs s xs)) = L0" and rd: "\<forall>t \<in> set xs. ready s t"
    and fresh: "unat t \<notin> dom L" "unat b \<notin> dom (L(unat t \<mapsto> 20))"
    and h: "heap_holds h (L(unat t \<mapsto> 20, unat b \<mapsto> 4096))" and x: "g_stack_base x = b" "g_state x = GT_READY"
  defines "s3 \<equiv> s\<lparr>g_heap := h, gthread := (gthread s)(t := x)\<rparr>"
  shows "\<exists>ys. batch (if g_ring s = 0 then (set_gt_next t t s3)\<lparr>g_ring := t\<rparr>
      else set_gt_next (g_ring s3) t (set_gt_next t (gt_next s3 (g_ring s3)) s3)) L0 ys \<and> length ys = length xs + 1" (is "\<exists>ys. batch ?s L0 ys \<and> _")
proof -
  let ?L = "L(unat t \<mapsto> 20, unat b \<mapsto> 4096)"
  note D = fibers_okD [OF ok]
  have nt: "t \<notin> set xs" by (rule fresh_fiber [OF ok fresh(1)])
  have G: "g_stack_base (gthread ?s u) = (if u = t then b else g_stack_base (gthread s u))"
    "g_state (gthread ?s u) = (if u = t then GT_READY else g_state (gthread s u))" "g_heap ?s = h" for u
    using x by (auto simp: s3_def set_gt_next_def)
  have dom: "p \<in> dom L" if "p \<in> set (fiber_ptrs s xs)" for p
    using that D(4) by (auto simp: fiber_ptrs_def fiber_mem_def)
  obtain ys where ys: "ring (gt_next ?s) (g_ring ?s) ys" "set ys = insert t (set xs)" "length ys = length xs + 1" "ys \<noteq> []"
    "set (fiber_ptrs ?s ys) = {unat t, unat b} \<union> set (fiber_ptrs s xs)" "distinct (fiber_ptrs ?s ys)"
  proof (cases "xs = []")
    case True
    then have "g_ring s = 0" using D(2) by simp
    moreover from this have "ring (gt_next ?s) (g_ring ?s) [t]" using gr.insert_first [of t s3] by (simp add: gt_next_def)
    moreover have "unat t \<noteq> unat b" using fresh(2) by auto
    moreover have "fiber_ptrs ?s [t] = [unat b, unat t]" unfolding fiber_ptrs_simps G by simp
    ultimately show ?thesis using True by (intro that [of "[t]"]) auto
  next
    case False
    note r = D(3) [OF False]
    have g0: "g_ring s \<noteq> 0" "g_ring s \<in> set xs" using ring_entry(1) [OF ok False] ringD(4) [OF r] by auto
    obtain zs where xs: "xs = g_ring s # zs" using ring_Cons [OF r] by blast
    have "gt_next s3 p = gt_next s p" if "p \<in> set xs" for p using that nt by (auto simp: gt_next_def s3_def)
    from ring_cong [OF r this] have "ring (gt_next s3) (g_ring s3) xs" by (simp add: s3_def)
    from gr.insert_after [OF this nt] have "ring (gt_next ?s) (g_ring ?s) (g_ring s # t # zs)"
      using g0(1) xs by (simp add: s3_def set_gt_next_def)
    moreover have fz: "fiber_ptrs ?s zs = fiber_ptrs s zs" using nt xs by (intro fiber_ptrs_cong) (auto simp: G(1))
    have "fiber_ptrs ?s (g_ring s # t # zs) = [unat (g_stack_base (gthread s (g_ring s))), unat (g_ring s), unat b, unat t] @ fiber_ptrs s zs"
      unfolding fiber_ptrs_simps fz G(1) using g0(2) nt by auto
    moreover have "unat t \<notin> set (fiber_ptrs s xs)" "unat b \<notin> set (fiber_ptrs s xs)" "unat t \<noteq> unat b" using dom fresh by auto
    ultimately show ?thesis using D(5) xs by (intro that [of "g_ring s # t # zs"]) auto
  qed
  have old: "?L p = L p" if "p \<in> dom L" for p using that fresh by auto
  have "fiber_mem ?s ?L u" if "u \<in> set ys" for u
  proof (cases "u = t")
    case True
    then show ?thesis using fresh(2) by (auto simp: fiber_mem_def G)
  next
    case False
    then have "fiber_mem s L u" using that ys(2) D(4) by auto
    then show ?thesis using False old [of "unat u"] old [of "unat (g_stack_base (gthread s u))"] by (auto simp: fiber_mem_def G dom_def)
  qed
  then have "fibers_ok ?s ?L ys"
    using ys h D(6) by (auto simp: fibers_ok_def G)
  moreover have "?L |` (- set (fiber_ptrs ?s ys)) = L0"
    unfolding ys(5) L0 [symmetric] using fresh by (auto simp: restrict_map_def fun_eq_iff)
  moreover have "\<forall>u \<in> set ys. ready ?s u" using rd ys(2) by (auto simp: G)
  ultimately show ?thesis using ys(3) unfolding batch_def by blast
qed

lemma gt_spawn_ok:
  assumes "batch s L0 xs"
  shows "wp (gt_spawn tramp fn s) (\<lambda>(r, s'). r = - 1 \<and> batch s' L0 xs \<or> r = 0 \<and> (\<exists>ys. batch s' L0 ys \<and> length ys = length xs + 1))"
proof -
  from assms obtain L where ok: "fibers_ok s L xs" and L0: "L |` (- set (fiber_ptrs s xs)) = L0" and rd: "\<forall>t \<in> set xs. ready s t"
    by (auto simp: batch_def)
  note D = fibers_okD [OF ok]
  have u: "unat (20 :: u32) = 20" "unat (4096 :: u32) = 4096" by simp_all
  have l: "0 < (20 :: nat) \<and> 20 \<le> (0xFFFFFFF8 :: nat)" "0 < (4096 :: nat) \<and> 4096 \<le> (0xFFFFFFF8 :: nat)" by simp_all
  show ?thesis
  proof (cases rule: kmalloc_cases [OF D(1) u(1) l(1), case_names fail1 ok1])
    case fail1
    then show ?thesis using assms by (simp add: gt_spawn_def)
  next
    case (ok1 t h1)
    have nt: "t \<notin> set xs" by (rule fresh_fiber [OF ok ok1(3)])
    show ?thesis
    proof (cases rule: kmalloc_cases [OF ok1(4) u(2) l(2), case_names fail2 ok2])
      case fail2
      from kfree_undoes [OF ok1(4,3)] obtain h where h: "kfree t h1 = Some h" "heap_holds h L" .
      have "batch (s\<lparr>gthread := (gthread s)(t := (gthread s t)\<lparr>g_stack_base := 0\<rparr>), g_heap := h\<rparr>) L0 xs"
        using fibers_ok_heap [OF ok h(2) nt, of "(gthread s t)\<lparr>g_stack_base := 0\<rparr>"] L0 rd nt unfolding batch_def by auto
      then show ?thesis using fail2 ok1(1,2) h(1) by (simp add: gt_spawn_def set_gt_def Let_def)
    next
      case (ok2 b h2)
      let ?L = "L(unat t \<mapsto> 20, unat b \<mapsto> 4096)"
      have Lb: "?L (unat b) = Some 4096" "?L (unat t) = Some 20" using ok2(3) by auto
      have bb: "HEAP_LO < unat b" "unat b + 4096 \<le> HEAP_END" using kh.held_bounds [OF ok2(4) Lb(1)] by auto
      have "word_of_nat (unat b + 4096) = b + GT_STACK_SIZE" by simp
      with push_words_same [of "[tramp, 0, 0, 0, 0]" "unat b + 4096" "kmem h2"] bb obtain sp m where
        pw: "push_words [tramp, 0, 0, 0, 0] (b + GT_STACK_SIZE) (kmem h2) = (sp, m)"
          "same_on (- {4076 + unat b..<unat b + 4096}) (kmem h2) m" by (auto simp del: push_words.simps)
      have hm: "heap_holds (h2\<lparr>kmem := m\<rparr>) ?L"
        by (rule kh.write_inv [OF ok2(4) same_on_mono [OF pw(2)]]) (use heldI [of ?L, OF Lb(1)] in auto)
      let ?x = "(gthread s t)\<lparr>g_stack_base := b, g_state := GT_READY, g_entry := fn, g_esp := sp\<rparr>"
      define s3 where "s3 = s\<lparr>g_heap := h2\<lparr>kmem := m\<rparr>, gthread := (gthread s)(t := ?x)\<rparr>"
      have x: "g_stack_base ?x = b" "g_state ?x = GT_READY" by simp_all
      note B = batch_insert [OF ok L0 rd ok1(3) ok2(3) hm x, folded s3_def]
      have "gt_spawn tramp fn s = Some (0, if g_ring s = 0 then (set_gt_next t t s3)\<lparr>g_ring := t\<rparr>
          else set_gt_next (g_ring s3) t (set_gt_next t (gt_next s3 (g_ring s3)) s3))"
        using ok1(1,2) ok2(1,2) pw(1) by (simp add: gt_spawn_def set_gt_def Let_def s3_def del: push_words.simps)
      with B show ?thesis by (auto split: if_splits)
    qed
  qed
qed

lemma gt_spawn_all_ok:
  "batch s L0 xs \<Longrightarrow> wp (gt_spawn_all tramp fn k n s)
    (\<lambda>(n', s'). \<exists>ys. batch s' L0 ys \<and> n' = n + int (length ys) - int (length xs) \<and> length xs \<le> length ys \<and> length ys \<le> length xs + k)"
proof (induction k arbitrary: n s xs)
  case (Suc k)
  from gt_spawn_ok [OF Suc.prems, of tramp fn] obtain r s1 where r: "gt_spawn tramp fn s = Some (r, s1)"
    "r = - 1 \<and> batch s1 L0 xs \<or> r = 0 \<and> (\<exists>ys. batch s1 L0 ys \<and> length ys = length xs + 1)" by (auto simp: wp_def)
  then show ?case
  proof (elim disjE conjE exE)
    assume "r = - 1" "batch s1 L0 xs"
    with Suc.IH [OF this(2), of n] r(1) show ?thesis by (fastforce simp: wp_def)
  next
    fix ys assume "r = 0" "batch s1 L0 ys" "length ys = length xs + 1"
    with Suc.IH [OF this(2), of "n + 1"] r(1) show ?thesis by (fastforce simp: wp_def)
  qed
qed (auto simp: wp_def)

section \<open>The demonstration\<close>

interpretation demo: fibers gt_body "\<lambda>t w. 5 - gt_i w t"
  by unfold_locales (auto simp: gt_body_def)

text \<open>Every yield of the demonstration counts one and prints one dot.\<close>

lemma demo_counts:
  assumes "distinct q" and "round_robin gt_body q w = Some w'"
  defines "n \<equiv> \<Sum>t \<leftarrow> q. 5 - gt_i w t"
  shows "gt_counter w' = gt_counter w + int n \<and> gt_out w' = gt_out w @ replicate n (Kprint (str ''.''))"
  using assms(1,2) unfolding n_def
proof (induction "demo.work q w" arbitrary: q w rule: less_induct)
  case less
  show ?case
  proof (cases q)
    case Nil
    then show ?thesis using less.prems by simp
  next
    case (Cons t q')
    let ?w = "snd (gt_body t w)" and ?q = "if fst (gt_body t w) then q' else q' @ [t]"
    have d: "distinct ?q" using less.prems(1) Cons by auto
    have rr: "round_robin gt_body ?q ?w = Some w'" using less.prems(2) Cons by (simp add: round_robin_Cons)
    have "demo.work ?q ?w < demo.work q w" using demo.work_decreases [of t q' w] less.prems(1) Cons by simp
    note ih = less.hyps [OF this d rr]
    have q': "map (\<lambda>u. 5 - gt_i ?w u) q' = map (\<lambda>u. 5 - gt_i w u) q'" using less.prems(1) Cons by (auto simp: gt_body_def)
    show ?thesis
    proof (cases "gt_i w t < 5")
      case True
      have "?q = q' @ [t]" "gt_i ?w t = Suc (gt_i w t)" using True by (simp_all add: gt_body_def)
      then have "(\<Sum>u \<leftarrow> q. 5 - gt_i w u) = Suc (\<Sum>u \<leftarrow> ?q. 5 - gt_i ?w u)"
        using Cons arg_cong [OF q', of sum_list] True by simp
      then show ?thesis using ih True by (simp add: gt_body_def)
    next
      case False
      then show ?thesis using ih Cons by (simp add: gt_body_def)
    qed
  qed
qed

section \<open>Properties\<close>

text \<open>A system without fibers, and one with a fiber, for the witnesses.\<close>

definition no_fibers :: gsys where
  "no_fibers = \<lparr>g_ring = 0, g_current = 0, gthread = (\<lambda>_. \<lparr>g_esp = 0, g_stack_base = 0, g_state = GT_DEAD, g_entry = 0, g_next = 0\<rparr>),
    g_heap = kheap_init (\<lambda>_. 0)\<rparr>"

lemma no_fibers_heap: "heap_holds (g_heap no_fibers) Map.empty"
  using kheap_reach_inv [OF kheap_reach.init] by (simp add: no_fibers_def)

lemma one_fiber: "\<exists>s L t. fibers_ok s L [t] \<and> ready s t"
proof -
  have A: "unat (ALIGN8 20) = 24" "unat (ALIGN8 4096) = 4096" by (simp_all add: unat_ALIGN8)
  from kmalloc_refines [OF heap_ok_init, of 20] obtain h1 where
    h1: "kmalloc 20 (kheap_init (\<lambda>_. 0)) = Some (0x40000C, h1)" "heap_ok h1 [(24, False), (4194256, True)]" by (auto simp: A)
  from kmalloc_refines [OF h1(2), of 4096] obtain h2 where h2: "kmalloc 4096 h1 = Some (0x400030, h2)" by (auto simp: A)
  have "batch no_fibers Map.empty []" using no_fibers_heap by (auto simp: batch_def fibers_ok_def no_fibers_def)
  from gt_spawn_ok [OF this, of 0 0] h1(1) h2 obtain s ys where "batch s Map.empty ys" "length ys = 1"
    by (auto simp: gt_spawn_def no_fibers_def wp_def Let_def split: if_splits)
  then obtain t where "ys = [t]" "batch s Map.empty [t]" by (auto simp: length_Suc_conv)
  then show ?thesis unfolding batch_def by (meson list.set_intros(1))
qed



text \<open>The demonstration \<^verbatim>\<open>cmd_gt\<close> returns, with as many fibers as could be allocated: it prints their number, five
  dots for each, and a counter of five times their number, and leaves the heap's blocks as they were.\<close>

theorem cmd_gt_counts:
  assumes "heap_holds (g_heap s) L"
  shows "\<exists>n s'. n \<le> 4 \<and> cmd_gt tramp body s = Some ([Kprint (str ''running ''), Kprint_dec (int n), Kprint (str '' green threads: '')]
      @ replicate (5 * n) (Kprint (str ''.'')) @ [Kprint (str ''\<newline>gt done, counter = ''), Kprint_dec (5 * int n), Kprint (str ''\<newline>'')], s')
    \<and> heap_holds (g_heap s') L"
proof -
  have "L |` UNIV = L" by (simp add: restrict_map_def)
  then have b: "batch (gt_init s) L []" using assms by (auto simp: batch_def fibers_ok_def gt_init_def intro!: exI [of _ L])
  from gt_spawn_all_ok [OF b, of tramp body 4 0] obtain s1 ys where
    s1: "gt_spawn_all tramp body 4 0 (gt_init s) = Some (int (length ys), s1)" "batch s1 L ys" "length ys \<le> 4" by (auto simp: wp_def)
  from s1(2) obtain L1 where L1: "fibers_ok s1 L1 ys" "L1 |` (- set (fiber_ptrs s1 ys)) = L" "\<forall>t \<in> set ys. ready s1 t" by (auto simp: batch_def)
  let ?out = "[Kprint (str ''running ''), Kprint_dec (int (length ys)), Kprint (str '' green threads: '')]"
  let ?w = "\<lparr>gt_i = (\<lambda>_. 0), gt_counter = 0, gt_out = ?out\<rparr>"
  have f: "filter (ready s1) ys = ys" using L1(3) by simp
  from demo.run_returns [OF L1(1), of ?w] obtain s2 w' where
    r: "gt_run gt_body s1 ?w = Some (s2, w')" "round_robin gt_body ys ?w = Some w'" "heap_holds (g_heap s2) L" unfolding L1(2) f by blast
  have "distinct ys" using L1(1) ringD(2) by (auto simp: fibers_ok_def split: if_splits)
  from demo_counts [OF this r(2)] have "gt_counter w' = 5 * int (length ys)" "gt_out w' = ?out @ replicate (5 * length ys) (Kprint (str ''.''))"
    by (simp_all add: sum_list_triv mult.commute)
  with s1(1,3) r(1,3) show ?thesis by (intro exI [of _ "length ys"] exI [of _ s2]) (simp add: cmd_gt_def Let_def)
qed

theorem cmd_gt_counts_witness:
  "\<exists>out s'. cmd_gt 1 2 no_fibers = Some (out, s') \<and> heap_holds (g_heap s') Map.empty"
  using cmd_gt_counts [OF no_fibers_heap, of 1 2] by blast

end
