(* ===== verification/Ata.thy ===== *)
theory Ata
  imports Prelude
begin

text \<open>
  \<^verbatim>\<open>drivers/ata.c\<close>: the polling PIO driver of the data disk, over the port instructions of
  \<^verbatim>\<open>cpu/ports.h\<close>. The hardware behind the ports is not code of the repository: it is a parameter, a
  record of the four instructions on a device state \<open>'d\<close>. The locale \<open>ata_device\<close> states the ATA
  behaviour the driver relies on; the driver lemmas are proved inside it and give the sector
  interface \<open>sector_disk\<close> that the block cache uses. A simulated disk shows that the device
  behaviour can be had.
\<close>

section \<open>Port input and output\<close>

record 'd io =
  inb :: "u16 \<Rightarrow> 'd \<Rightarrow> u8 \<times> 'd"
  outb :: "u16 \<Rightarrow> u8 \<Rightarrow> 'd \<Rightarrow> 'd"
  insw :: "u16 \<Rightarrow> nat \<Rightarrow> 'd \<Rightarrow> u8 list \<times> 'd"
  outsw :: "u16 \<Rightarrow> u8 list \<Rightarrow> 'd \<Rightarrow> 'd"

text \<open>\<^verbatim>\<open>insw\<close> gives the \<open>2 * count\<close> bytes it stores, \<^verbatim>\<open>outsw\<close> takes the bytes it sends.\<close>

definition io_wait :: "'d io \<Rightarrow> 'd \<Rightarrow> 'd" where
  "io_wait io d = outb io 0x80 0 d"

section \<open>The driver\<close>

abbreviation (input) "ATA_DATA \<equiv> 0x1F0 :: u16"
abbreviation (input) "ATA_SECCOUNT \<equiv> 0x1F2 :: u16"
abbreviation (input) "ATA_LBA_LO \<equiv> 0x1F3 :: u16"
abbreviation (input) "ATA_LBA_MID \<equiv> 0x1F4 :: u16"
abbreviation (input) "ATA_LBA_HI \<equiv> 0x1F5 :: u16"
abbreviation (input) "ATA_DRIVE \<equiv> 0x1F6 :: u16"
abbreviation (input) "ATA_STATUS \<equiv> 0x1F7 :: u16"
abbreviation (input) "ATA_COMMAND \<equiv> 0x1F7 :: u16"
abbreviation (input) "ST_BSY \<equiv> 0x80 :: u8"
abbreviation (input) "ST_DRQ \<equiv> 0x08 :: u8"
abbreviation (input) "ST_ERR \<equiv> 0x01 :: u8"
abbreviation (input) "CMD_READ \<equiv> 0x20 :: u8"
abbreviation (input) "CMD_WRITE \<equiv> 0x30 :: u8"
abbreviation (input) "CMD_FLUSH \<equiv> 0xE7 :: u8"
abbreviation (input) "DRIVE_SLAVE \<equiv> 0x10 :: u32"
abbreviation (input) "ATA_SECTOR_SIZE \<equiv> 512 :: nat"

text \<open>The two bounded loops of \<^verbatim>\<open>wait_ready\<close>; \<open>spin\<close> is the remaining budget.\<close>

fun wait_not_busy :: "'d io \<Rightarrow> nat \<Rightarrow> 'd \<Rightarrow> 'd" where
  "wait_not_busy io spin d =
     (let (s, d) = inb io ATA_STATUS d
      in if s AND ST_BSY \<noteq> 0 \<and> 0 < spin then wait_not_busy io (spin - 1) d else d)"

fun wait_drq :: "'d io \<Rightarrow> nat \<Rightarrow> 'd \<Rightarrow> int \<times> 'd" where
  "wait_drq io spin d =
     (let (s, d) = inb io ATA_STATUS d
      in if s AND ST_ERR \<noteq> 0 then (- 1, d)
         else if s AND ST_DRQ \<noteq> 0 then (0, d)
         else if 0 < spin then wait_drq io (spin - 1) d
         else (- 1, d))"

definition wait_ready :: "'d io \<Rightarrow> 'd \<Rightarrow> int \<times> 'd" where
  "wait_ready io d = wait_drq io 1000000 (wait_not_busy io 1000000 d)"

text \<open>The unbounded loop \<^verbatim>\<open>while (inb(ATA_STATUS) & ST_BSY) ;\<close>.\<close>

partial_function (option) spin_busy :: "'d io \<Rightarrow> 'd \<Rightarrow> 'd option" where
  "spin_busy io d =
     (let (s, d) = inb io ATA_STATUS d in if s AND ST_BSY \<noteq> 0 then spin_busy io d else Some d)"

definition select_and_seek :: "'d io \<Rightarrow> u32 \<Rightarrow> u8 \<Rightarrow> 'd \<Rightarrow> 'd option" where
  "select_and_seek io lba count d = do {
     d \<leftarrow> spin_busy io d;
     let d = outb io ATA_DRIVE (ucast (0xE0 OR DRIVE_SLAVE OR (drop_bit 24 lba AND 0x0F))) d;
     let d = outb io ATA_SECCOUNT count d;
     let d = outb io ATA_LBA_LO (ucast (lba AND 0xFF)) d;
     let d = outb io ATA_LBA_MID (ucast (drop_bit 8 lba AND 0xFF)) d;
     let d = outb io ATA_LBA_HI (ucast (drop_bit 16 lba AND 0xFF)) d;
     Some d
   }"

definition ata_init :: "'d io \<Rightarrow> 'd \<Rightarrow> 'd" where
  "ata_init io d = outb io ATA_DRIVE (ucast (0xE0 OR DRIVE_SLAVE)) d"

text \<open>The buffer is an input too: it is unchanged when the driver gives up.\<close>

definition ata_read_sector :: "'d io \<Rightarrow> u32 \<Rightarrow> u8 list \<Rightarrow> 'd \<Rightarrow> (int \<times> u8 list \<times> 'd) option" where
  "ata_read_sector io lba buf d = do {
     d \<leftarrow> select_and_seek io lba 1 d;
     let d = outb io ATA_COMMAND CMD_READ d;
     let (rc, d) = wait_ready io d;
     if rc \<noteq> 0 then Some (- 1, buf, d)
     else let (buf, d) = insw io ATA_DATA (ATA_SECTOR_SIZE div 2) d in Some (0, buf, d)
   }"

definition ata_write_sector :: "'d io \<Rightarrow> u32 \<Rightarrow> u8 list \<Rightarrow> 'd \<Rightarrow> (int \<times> 'd) option" where
  "ata_write_sector io lba buf d = do {
     d \<leftarrow> select_and_seek io lba 1 d;
     let d = outb io ATA_COMMAND CMD_WRITE d;
     let (rc, d) = wait_ready io d;
     if rc \<noteq> 0 then Some (- 1, d)
     else do {
       let d = outsw io ATA_DATA buf d;
       let d = outb io ATA_COMMAND CMD_FLUSH d;
       d \<leftarrow> spin_busy io d;
       Some (0, d)
     }
   }"

declare wait_not_busy.simps [simp del] wait_drq.simps [simp del]

section \<open>Addressing\<close>

lemma u8_of_masked: "ucast ((w :: u32) AND 0xFF) = (ucast w :: u8)"
proof -
  have m: "(0xFF :: u32) = mask 8" by (simp add: mask_eq_exp_minus_1)
  show ?thesis unfolding m by (intro bit_word_eqI) (auto simp: bit_simps)
qed

lemma lba_top_nibble:
  assumes "unat (lba :: u32) < 2 ^ 28"
  shows "(ucast (0xE0 OR 0x10 OR (drop_bit 24 lba AND 0x0F) :: u32) :: u8) AND 0x0F = byte_of 3 lba"
    and "bit (ucast (0xE0 OR 0x10 OR (drop_bit 24 lba AND 0x0F) :: u32) :: u8) 6"
    and "bit (ucast (0xE0 OR 0x10 OR (drop_bit 24 lba AND 0x0F) :: u32) :: u8) 4"
proof -
  have b: "\<not> bit lba n" if "28 \<le> n" for n
  proof -
    have "lba = take_bit 28 lba"
      using assms by (simp add: take_bit_eq_mod word_unat_eq_iff unat_mod)
    then show ?thesis using that by (metis bit_take_bit_iff not_le)
  qed
  have m: "(0x0F :: u32) = mask 4" "(0x0F :: u8) = mask 4" by (simp_all add: mask_eq_exp_minus_1)
  have e: "(0xE0 OR 0x10 :: u32) = push_bit 4 (mask 4)" by (simp add: mask_eq_exp_minus_1)
  show "(ucast (0xE0 OR 0x10 OR (drop_bit 24 lba AND 0x0F) :: u32) :: u8) AND 0x0F = byte_of 3 lba"
    unfolding byte_of_def m or.assoc [symmetric] e using b
    by (intro bit_word_eqI) (auto simp: bit_simps intro: ccontr)
  show "bit (ucast (0xE0 OR 0x10 OR (drop_bit 24 lba AND 0x0F) :: u32) :: u8) 6"
    and "bit (ucast (0xE0 OR 0x10 OR (drop_bit 24 lba AND 0x0F) :: u32) :: u8) 4"
    unfolding m or.assoc [symmetric] e by (auto simp: bit_simps)
qed

section \<open>The polling loops\<close>

lemma status_bits: "(s :: u8) AND 0x80 = 0 \<longleftrightarrow> \<not> bit s 7" "s AND 0x08 = 0 \<longleftrightarrow> \<not> bit s 3" "s AND 0x01 = 0 \<longleftrightarrow> \<not> bit s 0"
  using and_exp_eq_0_iff_not_bit [of s 7] and_exp_eq_0_iff_not_bit [of s 3] and_exp_eq_0_iff_not_bit [of s 0] by simp_all

lemma spin_busy_hangs:
  assumes "\<forall>d. bit (fst (inb io 0x1F7 d)) 7"
  shows "spin_busy io d = None"
proof (rule ccontr)
  assume "spin_busy io d \<noteq> None"
  then obtain r where "spin_busy io d = Some r" by auto
  then have "\<exists>d. \<not> bit (fst (inb io 0x1F7 d)) 7"
    by (rule spin_busy.raw_induct [rotated]) (auto simp: split_beta status_bits split: if_splits)
  then show False using assms by blast
qed

lemma ata_always_error:
  assumes "\<forall>d. fst (inb io 0x1F7 d) = 1"
  shows "\<exists>d'. ata_read_sector io lba buf d = Some (- 1, buf, d')"
    and "\<exists>d'. ata_write_sector io lba buf d = Some (- 1, d')"
proof -
  have q: "\<exists>d1. inb io 0x1F7 d = (1, d1)" for d using assms by (metis prod.collapse)
  obtain d1 where d1: "select_and_seek io lba 1 d = Some d1"
    using q [of d] by (auto simp: select_and_seek_def spin_busy.simps)
  have "\<exists>d'. wait_ready io d = (- 1, d')" for d
    using q [of "wait_not_busy io 1000000 d"] by (auto simp: wait_ready_def wait_drq.simps [of io 1000000])
  then obtain d2 d3 where "wait_ready io (outb io ATA_COMMAND CMD_READ d1) = (- 1, d2)"
    "wait_ready io (outb io ATA_COMMAND CMD_WRITE d1) = (- 1, d3)" by blast
  with d1 show "\<exists>d'. ata_read_sector io lba buf d = Some (- 1, buf, d')"
    and "\<exists>d'. ata_write_sector io lba buf d = Some (- 1, d')"
    by (simp_all add: ata_read_sector_def ata_write_sector_def)
qed

section \<open>The device behaviour the driver relies on\<close>

datatype ata_phase = Ready | DataIn | DataOut

text \<open>The sector the task file selects: LBA mode, slave drive, one sector.\<close>

definition selects :: "(u16 \<Rightarrow> u8) \<Rightarrow> u32 \<Rightarrow> bool" where
  "selects r lba \<longleftrightarrow> bit (r 0x1F6) 6 \<and> bit (r 0x1F6) 4 \<and> r 0x1F2 = 1
     \<and> cat32 (r 0x1F3) (r 0x1F4) (r 0x1F5) (r 0x1F6 AND 0x0F) = lba"

text \<open>\<open>busy\<close> is the number of status reads that still answer BSY, \<open>reg\<close> the task file, \<open>sec\<close> the
  contents of the disk and \<open>cap\<close> its number of sectors (an LBA has 28 bits).\<close>

locale ata_device =
  fixes io :: "'d io"
    and busy :: "'d \<Rightarrow> nat"
    and reg :: "'d \<Rightarrow> u16 \<Rightarrow> u8"
    and phase :: "'d \<Rightarrow> ata_phase"
    and sec :: "'d \<Rightarrow> u32 \<Rightarrow> u8 list"
    and cap :: nat
  assumes cap: "cap \<le> 2 ^ 28"
    and sec_length: "length (sec d lba) = 512"
    and status_busy: "0 < busy d \<Longrightarrow> inb io 0x1F7 d = (s, d') \<Longrightarrow>
      bit s 7 \<and> busy d' < busy d \<and> phase d' = phase d \<and> reg d' = reg d \<and> sec d' = sec d"
    and status_idle: "busy d = 0 \<Longrightarrow> inb io 0x1F7 d = (s, d') \<Longrightarrow>
      \<not> bit s 7 \<and> \<not> bit s 0 \<and> (bit s 3 \<longleftrightarrow> phase d \<noteq> Ready)
      \<and> busy d' = 0 \<and> phase d' = phase d \<and> reg d' = reg d \<and> sec d' = sec d"
    and write_reg: "busy d = 0 \<Longrightarrow> phase d = Ready \<Longrightarrow> 0x1F2 \<le> port \<Longrightarrow> port \<le> 0x1F6 \<Longrightarrow>
      d' = outb io port v d \<Longrightarrow>
      busy d' = 0 \<and> phase d' = Ready \<and> reg d' = (reg d)(port := v) \<and> sec d' = sec d"
    and cmd_read: "busy d = 0 \<Longrightarrow> phase d = Ready \<Longrightarrow> selects (reg d) lba \<Longrightarrow> unat lba < cap \<Longrightarrow>
      d' = outb io 0x1F7 0x20 d \<Longrightarrow>
      busy d' \<le> 1000000 \<and> phase d' = DataIn \<and> reg d' = reg d \<and> sec d' = sec d"
    and data_in: "busy d = 0 \<Longrightarrow> phase d = DataIn \<Longrightarrow> selects (reg d) lba \<Longrightarrow>
      insw io 0x1F0 256 d = (bs, d') \<Longrightarrow> bs = sec d lba \<and> phase d' = Ready \<and> sec d' = sec d"
    and cmd_write: "busy d = 0 \<Longrightarrow> phase d = Ready \<Longrightarrow> selects (reg d) lba \<Longrightarrow> unat lba < cap \<Longrightarrow>
      d' = outb io 0x1F7 0x30 d \<Longrightarrow>
      busy d' \<le> 1000000 \<and> phase d' = DataOut \<and> reg d' = reg d \<and> sec d' = sec d"
    and data_out: "busy d = 0 \<Longrightarrow> phase d = DataOut \<Longrightarrow> selects (reg d) lba \<Longrightarrow> length bs = 512 \<Longrightarrow>
      d' = outsw io 0x1F0 bs d \<Longrightarrow> phase d' = Ready \<and> sec d' = (sec d)(lba := bs)"
    and cmd_flush: "phase d = Ready \<Longrightarrow> d' = outb io 0x1F7 0xE7 d \<Longrightarrow> phase d' = Ready \<and> sec d' = sec d"
begin

lemma spin_busy_returns:
  "\<exists>d'. spin_busy io d = Some d' \<and> busy d' = 0 \<and> phase d' = phase d \<and> reg d' = reg d \<and> sec d' = sec d"
proof (induction "busy d" arbitrary: d rule: less_induct)
  case less
  obtain s d1 where i: "inb io 0x1F7 d = (s, d1)" by fastforce
  show ?case
  proof (cases "0 < busy d")
    case True
    from status_busy [OF True i] less [of d1] show ?thesis
      by (subst spin_busy.simps) (auto simp: i status_bits)
  next
    case False
    with status_idle [of d] i show ?thesis by (subst spin_busy.simps) (auto simp: i status_bits)
  qed
qed

lemma wait_not_busy_returns:
  "busy d \<le> n \<Longrightarrow> d' = wait_not_busy io n d \<Longrightarrow> busy d' = 0 \<and> phase d' = phase d \<and> reg d' = reg d \<and> sec d' = sec d"
proof (induction n arbitrary: d)
  case 0
  obtain s d1 where i: "inb io 0x1F7 d = (s, d1)" by fastforce
  with 0 status_idle [of d] show ?case by (auto simp: wait_not_busy.simps [of io 0 d])
next
  case (Suc n)
  obtain s d1 where i: "inb io 0x1F7 d = (s, d1)" by fastforce
  show ?case
  proof (cases "0 < busy d")
    case True
    with status_busy [OF True i] Suc.IH [of d1] Suc.prems i show ?thesis
      by (auto simp: wait_not_busy.simps [of io "Suc n" d] status_bits)
  next
    case False
    with status_idle [of d] Suc.prems i show ?thesis
      by (auto simp: wait_not_busy.simps [of io "Suc n" d] status_bits)
  qed
qed

lemma wait_ready_returns:
  assumes "busy d \<le> 1000000" and "phase d \<noteq> Ready"
  shows "\<exists>d'. wait_ready io d = (0, d') \<and> busy d' = 0 \<and> phase d' = phase d \<and> reg d' = reg d \<and> sec d' = sec d"
proof -
  define d1 where "d1 = wait_not_busy io 1000000 d"
  then have d1: "busy d1 = 0" "phase d1 = phase d" "reg d1 = reg d" "sec d1 = sec d"
    using wait_not_busy_returns [OF assms(1)] by auto
  obtain s d2 where i: "inb io 0x1F7 d1 = (s, d2)" by fastforce
  with status_idle [OF d1(1) i] d1 assms(2) show ?thesis
    by (auto simp: wait_ready_def d1_def [symmetric] wait_drq.simps [of io _ d1] status_bits)
qed

lemma select_and_seek_returns:
  assumes "phase d = Ready" and "unat lba < cap"
  shows "\<exists>d'. select_and_seek io lba 1 d = Some d' \<and> busy d' = 0 \<and> phase d' = Ready \<and> sec d' = sec d \<and> selects (reg d') lba"
proof -
  from spin_busy_returns [of d] obtain d0 where d0: "spin_busy io d = Some d0" "busy d0 = 0" "phase d0 = Ready"
    "sec d0 = sec d" using assms(1) by auto
  define v where "v = (ucast (0xE0 OR 0x10 OR (drop_bit 24 lba AND 0x0F) :: u32) :: u8)"
  define d1 where "d1 = outb io 0x1F6 v d0"
  define d2 where "d2 = outb io 0x1F2 1 d1"
  define d3 where "d3 = outb io 0x1F3 (ucast (lba AND 0xFF)) d2"
  define d4 where "d4 = outb io 0x1F4 (ucast (drop_bit 8 lba AND 0xFF)) d3"
  define d5 where "d5 = outb io 0x1F5 (ucast (drop_bit 16 lba AND 0xFF)) d4"
  note w1 = write_reg [OF d0(2,3) _ _ d1_def, simplified]
  note w2 = write_reg [OF _ _ _ _ d2_def, simplified, simplified w1, simplified]
  note w3 = write_reg [OF _ _ _ _ d3_def, simplified, simplified w2, simplified]
  note w4 = write_reg [OF _ _ _ _ d4_def, simplified, simplified w3, simplified]
  note w5 = write_reg [OF _ _ _ _ d5_def, simplified, simplified w4, simplified]
  have l: "unat lba < 2 ^ 28" using assms(2) cap by simp
  have "selects (reg d5) lba"
    using w1 w2 w3 w4 w5 lba_top_nibble [OF l] cat32_byte_of_Suc [of lba]
    by (simp add: selects_def v_def u8_of_masked byte_of_def)
  moreover have "select_and_seek io lba 1 d = Some d5"
    by (simp add: select_and_seek_def d0(1) d1_def d2_def d3_def d4_def d5_def v_def or.assoc)
  ultimately show ?thesis using w5 w4 w3 w2 w1 d0(4) by auto
qed

lemma ata_read_sector_returns:
  assumes "phase d = Ready" and "unat lba < cap"
  shows "\<exists>d'. ata_read_sector io lba buf d = Some (0, sec d lba, d') \<and> phase d' = Ready \<and> sec d' = sec d"
proof -
  from select_and_seek_returns [OF assms] obtain d1 where d1: "select_and_seek io lba 1 d = Some d1"
    "busy d1 = 0" "phase d1 = Ready" "sec d1 = sec d" "selects (reg d1) lba" by auto
  define d2 where "d2 = outb io 0x1F7 0x20 d1"
  have c: "busy d2 \<le> 1000000" "phase d2 = DataIn" "reg d2 = reg d1" "sec d2 = sec d1"
    using cmd_read [OF d1(2,3,5) assms(2) d2_def] by auto
  from wait_ready_returns [OF c(1)] c obtain d3 where d3: "wait_ready io d2 = (0, d3)" "busy d3 = 0"
    "phase d3 = DataIn" "selects (reg d3) lba" "sec d3 = sec d" using d1(4,5) by auto
  obtain bs d4 where i: "insw io 0x1F0 256 d3 = (bs, d4)" by fastforce
  from data_in [OF d3(2-4) i] d3(5) show ?thesis
    by (simp add: ata_read_sector_def d1(1) d2_def [symmetric] d3(1) i)
qed

lemma ata_write_sector_returns:
  assumes "phase d = Ready" and "unat lba < cap" and "length bs = 512"
  shows "\<exists>d'. ata_write_sector io lba bs d = Some (0, d') \<and> phase d' = Ready \<and> sec d' = (sec d)(lba := bs)"
proof -
  from select_and_seek_returns [OF assms(1,2)] obtain d1 where d1: "select_and_seek io lba 1 d = Some d1"
    "busy d1 = 0" "phase d1 = Ready" "sec d1 = sec d" "selects (reg d1) lba" by auto
  define d2 where "d2 = outb io 0x1F7 0x30 d1"
  have c: "busy d2 \<le> 1000000" "phase d2 = DataOut" "reg d2 = reg d1" "sec d2 = sec d1"
    using cmd_write [OF d1(2,3,5) assms(2) d2_def] by auto
  from wait_ready_returns [OF c(1)] c obtain d3 where d3: "wait_ready io d2 = (0, d3)" "busy d3 = 0"
    "phase d3 = DataOut" "selects (reg d3) lba" "sec d3 = sec d" using d1(4,5) by auto
  define d4 where "d4 = outsw io 0x1F0 bs d3"
  have d4: "phase d4 = Ready" "sec d4 = (sec d)(lba := bs)"
    using data_out [OF d3(2-4) assms(3) d4_def] d3(5) by auto
  define d5 where "d5 = outb io 0x1F7 0xE7 d4"
  from cmd_flush [OF d4(1) d5_def] spin_busy_returns [of d5] obtain d6 where
    "spin_busy io d5 = Some d6" "phase d6 = Ready" "sec d6 = sec d4" by auto
  then show ?thesis using d4(2)
    by (simp add: ata_write_sector_def d1(1) d2_def [symmetric] d3(1) d4_def [symmetric] d5_def [symmetric])
qed

end

section \<open>The interface to the block layer\<close>

locale sector_disk =
  fixes io :: "'d io"
    and good :: "'d \<Rightarrow> bool"
    and sec :: "'d \<Rightarrow> u32 \<Rightarrow> u8 list"
    and cap :: nat
  assumes sector_length: "length (sec d lba) = 512"
    and read_sector: "good d \<Longrightarrow> unat lba < cap \<Longrightarrow>
      \<exists>d'. ata_read_sector io lba buf d = Some (0, sec d lba, d') \<and> good d' \<and> sec d' = sec d"
    and write_sector: "good d \<Longrightarrow> unat lba < cap \<Longrightarrow> length bs = 512 \<Longrightarrow>
      \<exists>d'. ata_write_sector io lba bs d = Some (0, d') \<and> good d' \<and> sec d' = (sec d)(lba := bs)"

sublocale ata_device \<subseteq> sector_disk io "\<lambda>d. phase d = Ready" sec cap
  by unfold_locales (auto simp: sec_length ata_read_sector_returns ata_write_sector_returns)

section \<open>A simulated disk\<close>

text \<open>A disk of 32768 sectors (the 16 MB image of the Makefile) that answers BSY twice after each command.\<close>

record ata_sim =
  s_busy :: nat
  s_reg :: "u16 \<Rightarrow> u8"
  s_phase :: ata_phase
  s_disk :: "u32 \<Rightarrow> u8 list"

definition sim_lba :: "ata_sim \<Rightarrow> u32" where
  "sim_lba d = cat32 (s_reg d 0x1F3) (s_reg d 0x1F4) (s_reg d 0x1F5) (s_reg d 0x1F6 AND 0x0F)"

definition sim_sec :: "ata_sim \<Rightarrow> u32 \<Rightarrow> u8 list" where
  "sim_sec d lba = take 512 (s_disk d lba @ replicate 512 0)"

definition sim_inb :: "u16 \<Rightarrow> ata_sim \<Rightarrow> u8 \<times> ata_sim" where
  "sim_inb port d =
     (if port \<noteq> 0x1F7 then (0, d)
      else if 0 < s_busy d then (0x80, d\<lparr>s_busy := s_busy d - 1\<rparr>)
      else (if s_phase d = Ready then 0x40 else 0x48, d))"

definition sim_outb :: "u16 \<Rightarrow> u8 \<Rightarrow> ata_sim \<Rightarrow> ata_sim" where
  "sim_outb port v d =
     (if port \<noteq> 0x1F7 then d\<lparr>s_reg := (s_reg d)(port := v)\<rparr>
      else if v = 0x20 then d\<lparr>s_phase := DataIn, s_busy := 2\<rparr>
      else if v = 0x30 then d\<lparr>s_phase := DataOut, s_busy := 2\<rparr>
      else d\<lparr>s_busy := 2\<rparr>)"

definition sim_io :: "ata_sim io" where
  "sim_io = \<lparr>inb = sim_inb, outb = sim_outb,
     insw = (\<lambda>port n d. (sim_sec d (sim_lba d), d\<lparr>s_phase := Ready\<rparr>)),
     outsw = (\<lambda>port bs d. d\<lparr>s_phase := Ready, s_disk := (s_disk d)(sim_lba d := bs)\<rparr>)\<rparr>"

definition sim_blank :: ata_sim where
  "sim_blank = \<lparr>s_busy = 3, s_reg = (\<lambda>_. 0), s_phase = Ready, s_disk = (\<lambda>_. [])\<rparr>"

interpretation sim: ata_device sim_io s_busy s_reg s_phase sim_sec 32768
proof unfold_locales
  fix d d' :: ata_sim and bs lba
  assume "s_busy d = 0" "s_phase d = DataOut" "selects (s_reg d) lba" "length bs = 512" "d' = outsw sim_io 0x1F0 bs d"
  then show "s_phase d' = Ready \<and> sim_sec d' = (sim_sec d)(lba := bs)"
    by (auto simp: sim_io_def sim_sec_def selects_def sim_lba_def)
qed (auto simp: sim_io_def sim_inb_def sim_outb_def sim_sec_def sim_lba_def selects_def bit_numeral_rec fun_eq_iff split: if_splits)

section \<open>Properties\<close>



text \<open>C27. The two bounded loops of \<^verbatim>\<open>wait_ready\<close> end whatever the hardware answers, with a failure code when the
  status register never shows DRQ. The driver as a whole has no such bound: \<^verbatim>\<open>select_and_seek\<close> polls
  BSY first, so on a bus that always reads BSY (a floating bus reads 0xFF) neither
  \<^verbatim>\<open>ata_read_sector\<close> nor \<^verbatim>\<open>ata_write_sector\<close> ever returns.\<close>

theorem ata_no_disk:
  "((\<forall>d. \<not> bit (fst (inb io 0x1F7 d)) 3) \<longrightarrow> (\<exists>d'. wait_ready io d = (- 1, d')))
    \<and> ((\<forall>d. bit (fst (inb io 0x1F7 d)) 7) \<longrightarrow> ata_read_sector io lba buf d = None \<and> ata_write_sector io lba bs d = None)"
proof (intro conjI impI)
  assume "\<forall>d. \<not> bit (fst (inb io 0x1F7 d)) 3"
  then have "\<exists>d'. wait_drq io k d = (- 1, d')" for k d
    by (induction k arbitrary: d) (subst wait_drq.simps, auto simp: split_beta status_bits)+
  then show "\<exists>d'. wait_ready io d = (- 1, d')" by (simp add: wait_ready_def)
next
  assume "\<forall>d. bit (fst (inb io 0x1F7 d)) 7"
  then have "spin_busy io d = None" by (rule spin_busy_hangs)
  then show "ata_read_sector io lba buf d = None" "ata_write_sector io lba bs d = None"
    by (simp_all add: ata_read_sector_def ata_write_sector_def select_and_seek_def)
qed

theorem ata_no_disk_witness:
  "(\<exists>d'. wait_ready (sim_io\<lparr>inb := \<lambda>_ d. (0, d)\<rparr>) sim_blank = (- 1, d'))
    \<and> ata_read_sector (sim_io\<lparr>inb := \<lambda>_ d. (0xFF, d)\<rparr>) 0 [] sim_blank = None"
  using ata_no_disk [of "sim_io\<lparr>inb := \<lambda>_ d. (0, d)\<rparr>" sim_blank]
    ata_no_disk [of "sim_io\<lparr>inb := \<lambda>_ d. (0xFF, d)\<rparr>" sim_blank 0 "[]"]
  by (simp add: bit_numeral_rec)

end
