(* ===== verification/Screen.thy ===== *)
theory Screen
  imports Ata Cstring Console
begin

text \<open>
  \<^verbatim>\<open>drivers/serial.c\<close> and \<^verbatim>\<open>drivers/screen.c\<close>: the serial port and the VGA text screen. The text buffer
  is a list of 2000 cells; an access outside it is \<open>None\<close>. The cursor is the pair of C \<^verbatim>\<open>int\<close>s the code
  keeps. The ports are the instructions of the ATA driver's parameter.
\<close>

section \<open>Serial port\<close>

abbreviation (input) "COM1 \<equiv> 0x3F8 :: u16"

definition serial_init :: "'d io \<Rightarrow> 'd \<Rightarrow> 'd" where
  "serial_init io d =
     (let d = outb io (COM1 + 1) 0x00 d;
          d = outb io (COM1 + 3) 0x80 d;
          d = outb io (COM1 + 0) 0x03 d;
          d = outb io (COM1 + 1) 0x00 d;
          d = outb io (COM1 + 3) 0x03 d;
          d = outb io (COM1 + 2) 0xC7 d
      in outb io (COM1 + 4) 0x0B d)"

definition tx_empty :: "'d io \<Rightarrow> 'd \<Rightarrow> bool \<times> 'd" where
  "tx_empty io d = (let (s, d) = inb io (COM1 + 5) d in (s AND 0x20 \<noteq> 0, d))"

text \<open>The bounded wait; \<open>spin\<close> is the remaining budget.\<close>

fun serial_wait :: "'d io \<Rightarrow> nat \<Rightarrow> 'd \<Rightarrow> 'd" where
  "serial_wait io spin d =
     (let (e, d) = tx_empty io d in if \<not> e \<and> 0 < spin then serial_wait io (spin - 1) d else d)"

declare serial_wait.simps [simp del]

definition serial_putc :: "'d io \<Rightarrow> u8 \<Rightarrow> 'd \<Rightarrow> 'd" where
  "serial_putc io c d = outb io COM1 c (serial_wait io 100000 d)"

fun serial_print :: "'d io \<Rightarrow> u8 list \<Rightarrow> 'd \<Rightarrow> 'd" where
  "serial_print io [] d = d"
| "serial_print io (c # cs) d = serial_print io cs (serial_putc io c d)"

section \<open>Screen\<close>

abbreviation (input) "VGA_COLS \<equiv> 80 :: int"
abbreviation (input) "VGA_ROWS \<equiv> 25 :: int"
abbreviation (input) "CRTC_INDEX \<equiv> 0x3D4 :: u16"
abbreviation (input) "CRTC_DATA \<equiv> 0x3D5 :: u16"

record 'd screen =
  vga :: "u16 list"
  cur_color :: u8
  cursor_row :: int
  cursor_col :: int
  ports :: 'd

definition vga_get :: "int \<Rightarrow> u16 list \<Rightarrow> u16 option" where
  "vga_get i v = (if 0 \<le> i \<and> i < int (length v) then Some (v ! nat i) else None)"

definition vga_set :: "int \<Rightarrow> u16 \<Rightarrow> u16 list \<Rightarrow> u16 list option" where
  "vga_set i x v = (if 0 \<le> i \<and> i < int (length v) then Some (v[nat i := x]) else None)"

text \<open>\<^verbatim>\<open>char\<close> is signed: the conversion to \<^verbatim>\<open>u16\<close> extends the sign.\<close>

definition cell :: "'d screen \<Rightarrow> u8 \<Rightarrow> u16" where
  "cell s c = scast c OR push_bit 8 (ucast (cur_color s))"

definition move_cursor :: "'d io \<Rightarrow> 'd screen \<Rightarrow> 'd screen" where
  "move_cursor io s =
     (let pos = word_of_int (cursor_row s * VGA_COLS + cursor_col s) :: u16;
          d = outb io CRTC_INDEX 14 (ports s);
          d = outb io CRTC_DATA (ucast (drop_bit 8 pos)) d;
          d = outb io CRTC_INDEX 15 d;
          d = outb io CRTC_DATA (ucast (pos AND 0xFF)) d
      in s\<lparr>ports := d\<rparr>)"

text \<open>The loops of \<^verbatim>\<open>scroll_if_needed\<close>: one row, all rows, and the cleared last row.\<close>

fun copy_row :: "int \<Rightarrow> int list \<Rightarrow> u16 list \<Rightarrow> u16 list option" where
  "copy_row r [] v = Some v"
| "copy_row r (c # cs) v = do {
     x \<leftarrow> vga_get (r * VGA_COLS + c) v;
     v \<leftarrow> vga_set ((r - 1) * VGA_COLS + c) x v;
     copy_row r cs v
   }"

fun copy_rows :: "int list \<Rightarrow> u16 list \<Rightarrow> u16 list option" where
  "copy_rows [] v = Some v"
| "copy_rows (r # rs) v = do { v \<leftarrow> copy_row r [0..VGA_COLS - 1] v; copy_rows rs v }"

fun fill_cells :: "int list \<Rightarrow> u16 \<Rightarrow> u16 list \<Rightarrow> u16 list option" where
  "fill_cells [] x v = Some v"
| "fill_cells (i # js) x v = do { v \<leftarrow> vga_set i x v; fill_cells js x v }"

definition scroll_if_needed :: "'d screen \<Rightarrow> 'd screen option" where
  "scroll_if_needed s =
     (if cursor_row s < VGA_ROWS then Some s else do {
        v \<leftarrow> copy_rows [1..VGA_ROWS - 1] (vga s);
        v \<leftarrow> fill_cells (map (\<lambda>c. (VGA_ROWS - 1) * VGA_COLS + c) [0..VGA_COLS - 1]) (cell s 0x20) v;
        Some (s\<lparr>vga := v, cursor_row := VGA_ROWS - 1\<rparr>)
      })"

definition set_color :: "u8 \<Rightarrow> 'd screen \<Rightarrow> 'd screen" where
  "set_color color s = s\<lparr>cur_color := color\<rparr>"

definition clear_screen :: "'d io \<Rightarrow> 'd screen \<Rightarrow> 'd screen option" where
  "clear_screen io s = do {
     v \<leftarrow> fill_cells [0..VGA_COLS * VGA_ROWS - 1] (cell s 0x20) (vga s);
     Some (move_cursor io (s\<lparr>vga := v, cursor_row := 0, cursor_col := 0\<rparr>))
   }"

definition screen_init :: "'d io \<Rightarrow> 'd screen \<Rightarrow> 'd screen option" where
  "screen_init io s = clear_screen io (s\<lparr>ports := serial_init io (ports s)\<rparr>)"

text \<open>The branches of \<^verbatim>\<open>kputc\<close> on the character.\<close>

definition kputc_char :: "u8 \<Rightarrow> 'd screen \<Rightarrow> 'd screen option" where
  "kputc_char c s =
     (if c = 0x0A then Some (s\<lparr>cursor_col := 0, cursor_row := cursor_row s + 1\<rparr>)
      else if c = 0x0D then Some (s\<lparr>cursor_col := 0\<rparr>)
      else if c = 0x09 then Some (s\<lparr>cursor_col := (cursor_col s + 4) AND NOT 3\<rparr>)
      else if c = 0x08 then
        (if cursor_col s > 0 then do {
           let s = s\<lparr>cursor_col := cursor_col s - 1\<rparr>;
           v \<leftarrow> vga_set (cursor_row s * VGA_COLS + cursor_col s) (cell s 0x20) (vga s);
           Some (s\<lparr>vga := v\<rparr>)
         } else Some s)
      else do {
        v \<leftarrow> vga_set (cursor_row s * VGA_COLS + cursor_col s) (cell s c) (vga s);
        Some (s\<lparr>vga := v, cursor_col := cursor_col s + 1\<rparr>)
      })"

definition kputc :: "'d io \<Rightarrow> u8 \<Rightarrow> 'd screen \<Rightarrow> 'd screen option" where
  "kputc io c s = do {
     let s = s\<lparr>ports := serial_putc io c (ports s)\<rparr>;
     s \<leftarrow> kputc_char c s;
     let s = (if cursor_col s \<ge> VGA_COLS then s\<lparr>cursor_col := 0, cursor_row := cursor_row s + 1\<rparr> else s);
     s \<leftarrow> scroll_if_needed s;
     Some (move_cursor io s)
   }"

fun kprint :: "'d io \<Rightarrow> u8 list \<Rightarrow> 'd screen \<Rightarrow> 'd screen option" where
  "kprint io [] s = Some s"
| "kprint io (c # cs) s = do { s \<leftarrow> kputc io c s; kprint io cs s }"

definition kprint_color :: "'d io \<Rightarrow> u8 list \<Rightarrow> u8 \<Rightarrow> 'd screen \<Rightarrow> 'd screen option" where
  "kprint_color io cs color s = do {
     let saved = cur_color s;
     s \<leftarrow> kprint io cs (s\<lparr>cur_color := color\<rparr>);
     Some (s\<lparr>cur_color := saved\<rparr>)
   }"

text \<open>The strings \<^verbatim>\<open>itoa\<close> and \<^verbatim>\<open>utoa\<close> leave in the local buffer.\<close>

definition kprint_dec :: "'d io \<Rightarrow> int \<Rightarrow> 'd screen \<Rightarrow> 'd screen option" where
  "kprint_dec io value s = kprint io (itoa_str value) s"

definition kprint_hex :: "'d io \<Rightarrow> u32 \<Rightarrow> 'd screen \<Rightarrow> 'd screen option" where
  "kprint_hex io value s = do { s \<leftarrow> kprint io (str ''0x'') s; kprint io (utoa_str 16 value) s }"

fun console_exec :: "'d io \<Rightarrow> console_call \<Rightarrow> 'd screen \<Rightarrow> 'd screen option" where
  "console_exec io (Kputc c) s = kputc io c s"
| "console_exec io (Kprint cs) s = kprint io cs s"
| "console_exec io (Kprint_dec v) s = kprint_dec io v s"
| "console_exec io (Kprint_hex v) s = kprint_hex io v s"
| "console_exec io (Set_color c) s = Some (set_color c s)"
| "console_exec io Clear_screen s = clear_screen io s"
| "console_exec io Screen_init s = screen_init io s"

fun console_run :: "'d io \<Rightarrow> console \<Rightarrow> 'd screen \<Rightarrow> 'd screen option" where
  "console_run io [] s = Some s"
| "console_run io (k # ks) s = do { s \<leftarrow> console_exec io k s; console_run io ks s }"

end
