(* ===== verification/Screen_Props.thy ===== *)
theory Screen_Props
  imports Screen
begin

text \<open>
  Correctness of the screen driver: the cursor stays on the screen, no access leaves the text buffer, and
  \<^verbatim>\<open>kputc\<close> implements a terminal given as 25 rows of 80 cells.
\<close>

section \<open>The terminal\<close>

record terminal =
  t_rows :: "u16 list list"
  t_row :: nat
  t_col :: nat

definition put_cell :: "nat \<Rightarrow> nat \<Rightarrow> u16 \<Rightarrow> u16 list list \<Rightarrow> u16 list list" where
  "put_cell r c x rows = rows[r := (rows ! r)[c := x]]"

text \<open>\<open>glyph\<close> gives the cell that shows a character.\<close>

definition term_move :: "(u8 \<Rightarrow> u16) \<Rightarrow> u8 \<Rightarrow> terminal \<Rightarrow> terminal" where
  "term_move glyph c t =
     (if c = 0x0A then t\<lparr>t_row := t_row t + 1, t_col := 0\<rparr>
      else if c = 0x0D then t\<lparr>t_col := 0\<rparr>
      else if c = 0x09 then t\<lparr>t_col := 4 * (t_col t div 4 + 1)\<rparr>
      else if c = 0x08 then
        (if t_col t = 0 then t else t\<lparr>t_rows := put_cell (t_row t) (t_col t - 1) (glyph 0x20) (t_rows t), t_col := t_col t - 1\<rparr>)
      else t\<lparr>t_rows := put_cell (t_row t) (t_col t) (glyph c) (t_rows t), t_col := t_col t + 1\<rparr>)"

definition term_wrap :: "terminal \<Rightarrow> terminal" where
  "term_wrap t = (if t_col t = 80 then t\<lparr>t_row := t_row t + 1, t_col := 0\<rparr> else t)"

definition term_scroll :: "u16 \<Rightarrow> terminal \<Rightarrow> terminal" where
  "term_scroll blank t = (if t_row t = 25 then t\<lparr>t_rows := tl (t_rows t) @ [replicate 80 blank], t_row := 24\<rparr> else t)"

definition term_put :: "(u8 \<Rightarrow> u16) \<Rightarrow> u8 \<Rightarrow> terminal \<Rightarrow> terminal" where
  "term_put glyph c t = term_scroll (glyph 0x20) (term_wrap (term_move glyph c t))"

definition rows_of :: "u16 list \<Rightarrow> u16 list list" where
  "rows_of v = map (\<lambda>r. take 80 (drop (80 * r) v)) [0..<25]"

definition term_of :: "'d screen \<Rightarrow> terminal" where
  "term_of s = \<lparr>t_rows = rows_of (vga s), t_row = nat (cursor_row s), t_col = nat (cursor_col s)\<rparr>"

definition screen_ok :: "'d screen \<Rightarrow> bool" where
  "screen_ok s \<longleftrightarrow> length (vga s) = 2000 \<and> 0 \<le> cursor_row s \<and> cursor_row s < 25 \<and> 0 \<le> cursor_col s \<and> cursor_col s < 80"

section \<open>Cells\<close>

lemma length_rows_of [simp]: "length (rows_of v) = 25"
  by (simp add: rows_of_def)

lemma nth_rows_of: "length v = 2000 \<Longrightarrow> r < 25 \<Longrightarrow> c < 80 \<Longrightarrow> rows_of v ! r ! c = v ! (80 * r + c)"
  by (simp add: rows_of_def)

lemma length_row: "length v = 2000 \<Longrightarrow> r < 25 \<Longrightarrow> length (rows_of v ! r) = 80"
  by (simp add: rows_of_def)

lemma rows_of_eqI:
  assumes "length v = 2000" and "length rows = 25" and "\<And>r. r < 25 \<Longrightarrow> length (rows ! r) = 80"
    and "\<And>r c. r < 25 \<Longrightarrow> c < 80 \<Longrightarrow> v ! (80 * r + c) = rows ! r ! c"
  shows "rows_of v = rows"
proof (rule nth_equalityI)
  fix r assume r: "r < length (rows_of v)"
  show "rows_of v ! r = rows ! r"
    by (rule nth_equalityI) (use r assms length_row [of v r] nth_rows_of [of v r] in auto)
qed (use assms(2) in simp)

lemma rows_of_update:
  assumes "length v = 2000" and "r < 25" and "c < 80"
  shows "rows_of (v[80 * r + c := x]) = put_cell r c x (rows_of v)"
proof (rule rows_of_eqI)
  fix r' c' :: nat assume rc: "r' < 25" "c' < 80"
  have "80 * r + c = 80 * r' + c' \<longleftrightarrow> r = r' \<and> c = c'"
  proof
    assume eq: "80 * r + c = 80 * r' + c'"
    have "(80 * r + c) div 80 = r" "(80 * r' + c') div 80 = r'" using rc(2) assms(3) by simp_all
    with eq show "r = r' \<and> c = c'" by auto
  qed simp
  with rc assms show "v[80 * r + c := x] ! (80 * r' + c') = put_cell r c x (rows_of v) ! r' ! c'"
    by (simp add: put_cell_def nth_list_update nth_rows_of length_row)
qed (use assms in \<open>auto simp: put_cell_def length_row nth_list_update\<close>)

lemma vga_set_cell:
  assumes "length v = 2000" and "0 \<le> r" and "r < 25" and "0 \<le> c" and "c < 80"
  shows "\<exists>w. vga_set (r * 80 + c) x v = Some w \<and> length w = 2000 \<and> rows_of w = put_cell (nat r) (nat c) x (rows_of v)"
proof -
  have "nat (r * 80 + c) = 80 * nat r + nat c" using assms by (simp add: nat_add_distrib nat_mult_distrib)
  then show ?thesis using assms rows_of_update [of v "nat r" "nat c" x] by (simp add: vga_set_def)
qed

section \<open>Scrolling\<close>

lemma upto_Cons: "i \<le> j \<Longrightarrow> [i..j] = i # [i + 1..j]"
  by (simp add: upto.simps)

lemma copy_row_ok:
  assumes "length v = 2000" and "0 < r" and "r < 25" and "0 \<le> c" and "c \<le> 80"
  shows "\<exists>w. copy_row r [c..79] v = Some w \<and> length w = 2000 \<and>
    (\<forall>i < 2000. w ! i = (if (r - 1) * 80 + c \<le> int i \<and> int i < r * 80 then v ! (i + 80) else v ! i))"
  using assms
proof (induction "nat (80 - c)" arbitrary: c v)
  case 0
  then have "c = 80" by simp
  then show ?case using 0 by auto
next
  case (Suc k)
  then have c: "c < 80" by simp
  let ?i = "nat ((r - 1) * 80 + c)"
  have b: "0 \<le> (r - 1) * 80 + c" "(r - 1) * 80 + c < 2000" "0 \<le> r * 80 + c" "r * 80 + c < 2000"
    using Suc.prems(2-4) c by (simp_all add: algebra_simps)
  have i: "nat (r * 80 + c) = ?i + 80" "?i < 2000" using b by (simp_all add: algebra_simps nat_add_distrib)
  let ?v = "v[?i := v ! (?i + 80)]"
  have k: "k = nat (80 - (c + 1))" "length ?v = 2000" using Suc.hyps(2) Suc.prems(1) c by simp_all
  from Suc.hyps(1) [OF k Suc.prems(2,3)] Suc.prems(4) c obtain w where
    w: "copy_row r [c + 1..79] ?v = Some w" "length w = 2000"
      "\<forall>j < 2000. w ! j = (if (r - 1) * 80 + (c + 1) \<le> int j \<and> int j < r * 80 then ?v ! (j + 80) else ?v ! j)" by auto
  have g: "vga_get (r * VGA_COLS + c) v = Some (v ! (?i + 80))"
    unfolding vga_get_def Suc.prems(1) i(1) [symmetric] using b(3,4) by auto
  have st: "vga_set ((r - 1) * VGA_COLS + c) x v = Some (v[?i := x])" for x
    unfolding vga_set_def Suc.prems(1) using b(1,2) by auto
  have "copy_row r [c..79] v = Some w"
    using w(1) unfolding upto_Cons [OF c [folded zle_diff1_eq, simplified]] copy_row.simps g st bind.simps .
  moreover have "w ! j = (if (r - 1) * 80 + c \<le> int j \<and> int j < r * 80 then v ! (j + 80) else v ! j)" if "j < 2000" for j
  proof -
    have "int ?i = (r - 1) * 80 + c" using b by simp
    then have "(r - 1) * 80 + c \<le> int j \<longleftrightarrow> j = ?i \<or> (r - 1) * 80 + (c + 1) \<le> int j" "int ?i < r * 80" "\<not> (r - 1) * 80 + (c + 1) \<le> int ?i"
      using c by (auto simp: algebra_simps)
    then show ?thesis using w(3) that i(2) Suc.prems(1) by (auto simp: nth_list_update)
  qed
  ultimately show ?case using w(2) by blast
qed

lemma copy_rows_ok:
  assumes "length v = 2000" and "0 < r" and "r \<le> 25"
  shows "\<exists>w. copy_rows [r..24] v = Some w \<and> length w = 2000 \<and>
    (\<forall>i < 2000. w ! i = (if (r - 1) * 80 \<le> int i \<and> int i < 1920 then v ! (i + 80) else v ! i))"
  using assms
proof (induction "nat (25 - r)" arbitrary: r v)
  case 0
  then have "r = 25" by simp
  then show ?case using 0 by auto
next
  case (Suc k)
  then have r: "r < 25" by simp
  from copy_row_ok [OF Suc.prems(1,2) r, of 0] obtain v1 where
    v1: "copy_row r [0..79] v = Some v1" "length v1 = 2000"
      "\<forall>i < 2000. v1 ! i = (if (r - 1) * 80 \<le> int i \<and> int i < r * 80 then v ! (i + 80) else v ! i)" by auto
  have k: "k = nat (25 - (r + 1))" using Suc.hyps(2) r by simp
  from Suc.hyps(1) [OF k v1(2)] r Suc.prems(2) obtain w where
    w: "copy_rows [r + 1..24] v1 = Some w" "length w = 2000"
      "\<forall>i < 2000. w ! i = (if r * 80 \<le> int i \<and> int i < 1920 then v1 ! (i + 80) else v1 ! i)" by auto
  have "copy_rows [r..24] v = Some w" using v1(1) w(1) r by (simp add: upto_Cons)
  moreover have "w ! i = (if (r - 1) * 80 \<le> int i \<and> int i < 1920 then v ! (i + 80) else v ! i)" if "i < 2000" for i
    using that w(3) v1(3) r by (auto simp: algebra_simps)
  ultimately show ?case using w(2) by blast
qed

lemma fill_cells_ok:
  assumes "\<And>i. i \<in> set js \<Longrightarrow> 0 \<le> i \<and> i < int (length v)"
  shows "\<exists>w. fill_cells js x v = Some w \<and> length w = length v \<and> (\<forall>i < length v. w ! i = (if int i \<in> set js then x else v ! i))"
  using assms
proof (induction js arbitrary: v)
  case (Cons i js)
  from Cons.IH [of "v[nat i := x]"] Cons.prems obtain w where
    w: "fill_cells js x (v[nat i := x]) = Some w" "length w = length v"
      "\<forall>j < length v. w ! j = (if int j \<in> set js then x else v[nat i := x] ! j)" by auto
  then show ?case using Cons.prems [of i] by (intro exI [of _ w]) (auto simp: vga_set_def nth_list_update)
qed simp

lemma scroll_ok:
  assumes "length (vga s) = 2000" and "0 \<le> cursor_row s" and "cursor_row s \<le> 25"
  shows "\<exists>s'. scroll_if_needed s = Some s' \<and> length (vga s') = 2000 \<and> 0 \<le> cursor_row s' \<and> cursor_row s' < 25
    \<and> cursor_col s' = cursor_col s \<and> cur_color s' = cur_color s \<and> ports s' = ports s
    \<and> term_of s' = term_scroll (cell s 0x20) (term_of s)"
proof (cases "cursor_row s < 25")
  case True
  then show ?thesis using assms by (simp add: scroll_if_needed_def term_scroll_def term_of_def)
next
  case False
  then have row: "cursor_row s = 25" using assms(3) by simp
  from copy_rows_ok [OF assms(1), of 1] obtain v where
    v: "copy_rows [1..24] (vga s) = Some v" "length v = 2000" "\<forall>i < 2000. v ! i = (if i < 1920 then vga s ! (i + 80) else vga s ! i)" by auto
  have in_last: "int i \<in> set (map (\<lambda>c. 1920 + c) [0..79]) \<longleftrightarrow> 1920 \<le> i \<and> i < 2000" for i
    by (auto simp del: upto.simps)
  have bd: "0 \<le> j \<and> j < int (length v)" if "j \<in> set (map (\<lambda>c. 1920 + c) [0..79])" for j :: int
    using that v(2) by (auto simp del: upto.simps)
  from fill_cells_ok [where js = "map (\<lambda>c. 1920 + c) [0..79]" and v = v and x = "cell s 0x20", OF bd] v(2) obtain w where
    w: "fill_cells (map (\<lambda>c. 1920 + c) [0..79]) (cell s 0x20) v = Some w" "length w = 2000"
      "\<forall>i < 2000. w ! i = (if 1920 \<le> i \<and> i < 2000 then cell s 0x20 else v ! i)" unfolding in_last by auto
  have "rows_of w = tl (rows_of (vga s)) @ [replicate 80 (cell s 0x20)]"
  proof (rule rows_of_eqI)
    fix r c :: nat assume rc: "r < 25" "c < 80"
    show "w ! (80 * r + c) = (tl (rows_of (vga s)) @ [replicate 80 (cell s 0x20)]) ! r ! c"
      using rc w(3) v(3) nth_rows_of [OF assms(1), of "Suc r" c] by (auto simp: nth_append nth_tl algebra_simps)
  qed (use w(2) assms(1) length_row in \<open>auto simp: nth_append nth_tl\<close>)
  then show ?thesis using v(1) w(1,2) row by (simp add: scroll_if_needed_def term_of_def term_scroll_def)
qed

section \<open>Characters\<close>

lemma tab_stop: "0 \<le> c \<Longrightarrow> (c + 4) AND NOT 3 = 4 * (c div 4 + 1)" for c :: int
proof -
  have 3: "(3 :: int) = mask 2" by (simp add: mask_eq_exp_minus_1)
  have "(c + 4) AND NOT 3 = push_bit 2 (drop_bit 2 (c + 4))"
    unfolding 3 by (rule bit_eqI) (auto simp: bit_simps not_less simp flip: add_2_eq_Suc')
  moreover have "(c + 4) div 4 = c div 4 + 1" by simp
  ultimately show ?thesis by (simp add: push_bit_eq_mult drop_bit_eq_div)
qed

text \<open>Between the branches and the end of \<^verbatim>\<open>kputc\<close> the cursor may be one past a border.\<close>

lemma kputc_char_ok:
  assumes "screen_ok s"
  shows "\<exists>s1. kputc_char c s = Some s1 \<and> length (vga s1) = 2000 \<and> 0 \<le> cursor_row s1 \<and> 0 \<le> cursor_col s1 \<and> cursor_col s1 \<le> 80
    \<and> cursor_row s1 \<le> (if cursor_col s1 = 80 then 24 else 25) \<and> cur_color s1 = cur_color s \<and> ports s1 = ports s
    \<and> term_of s1 = term_move (cell s) c (term_of s)"
proof -
  have ok: "length (vga s) = 2000" "0 \<le> cursor_row s" "cursor_row s < 25" "0 \<le> cursor_col s" "cursor_col s < 80"
    using assms by (auto simp: screen_ok_def)
  consider "c = 0x0A" | "c = 0x0D" | "c = 0x09" | "c = 0x08" "cursor_col s = 0" | "c = 0x08" "0 < cursor_col s"
    | "c \<noteq> 0x0A" "c \<noteq> 0x0D" "c \<noteq> 0x09" "c \<noteq> 0x08" using ok(4) by force
  then show ?thesis
  proof cases
    case 3
    have "nat (4 * (cursor_col s div 4 + 1)) = 4 * (nat (cursor_col s) div 4 + 1)" using ok(4) by (simp add: nat_mult_distrib nat_add_distrib nat_div_distrib)
    moreover have "4 * (cursor_col s div 4 + 1) \<le> 80" using ok(5) by (simp add: algebra_simps)
    ultimately show ?thesis using 3 ok tab_stop [OF ok(4)] by (auto simp: kputc_char_def term_of_def term_move_def)
  next
    case 5
    let ?s = "s\<lparr>cursor_col := cursor_col s - 1\<rparr>"
    from vga_set_cell [OF ok(1-3), of "cursor_col s - 1" "cell ?s 0x20"] 5(2) ok(5) obtain w where
      "vga_set (cursor_row s * 80 + (cursor_col s - 1)) (cell ?s 0x20) (vga s) = Some w" "length w = 2000"
      "rows_of w = put_cell (nat (cursor_row s)) (nat (cursor_col s - 1)) (cell ?s 0x20) (rows_of (vga s))" by auto
    then show ?thesis using 5 ok by (simp add: kputc_char_def term_of_def term_move_def Let_def nat_diff_distrib cell_def)
  next
    case 6
    from vga_set_cell [OF ok, of "cell s c"] obtain w where
      "vga_set (cursor_row s * 80 + cursor_col s) (cell s c) (vga s) = Some w" "length w = 2000"
      "rows_of w = put_cell (nat (cursor_row s)) (nat (cursor_col s)) (cell s c) (rows_of (vga s))" by blast
    then show ?thesis using 6 ok by (simp add: kputc_char_def term_of_def term_move_def nat_add_distrib)
  qed (use ok in \<open>simp_all add: kputc_char_def term_of_def term_move_def nat_add_distrib\<close>)
qed

text \<open>The position sent to the CRT controller.\<close>

definition crtc_position :: "'d io \<Rightarrow> u16 \<Rightarrow> 'd \<Rightarrow> 'd" where
  "crtc_position io pos d = outb io CRTC_DATA (ucast (pos AND 0xFF)) (outb io CRTC_INDEX 15
     (outb io CRTC_DATA (ucast (drop_bit 8 pos)) (outb io CRTC_INDEX 14 d)))"

lemma kputc_ok:
  assumes "screen_ok s"
  shows "\<exists>s'. kputc io c s = Some s' \<and> screen_ok s' \<and> cur_color s' = cur_color s \<and> term_of s' = term_put (cell s) c (term_of s)
    \<and> ports s' = crtc_position io (word_of_int (cursor_row s' * 80 + cursor_col s')) (serial_putc io c (ports s))"
proof -
  let ?s = "s\<lparr>ports := serial_putc io c (ports s)\<rparr>"
  have "screen_ok ?s" using assms by (simp add: screen_ok_def)
  from kputc_char_ok [OF this, of c] obtain s1 where s1: "kputc_char c ?s = Some s1" "length (vga s1) = 2000" "0 \<le> cursor_row s1"
    "0 \<le> cursor_col s1" "cursor_col s1 \<le> 80" "cursor_row s1 \<le> (if cursor_col s1 = 80 then 24 else 25)" "cur_color s1 = cur_color s"
    "ports s1 = ports ?s" "term_of s1 = term_move (cell s) c (term_of s)" by (auto simp: term_of_def cell_def [abs_def])
  define s2 where "s2 = (if cursor_col s1 \<ge> VGA_COLS then s1\<lparr>cursor_col := 0, cursor_row := cursor_row s1 + 1\<rparr> else s1)"
  have s2: "length (vga s2) = 2000" "0 \<le> cursor_row s2" "cursor_row s2 \<le> 25" "0 \<le> cursor_col s2" "cursor_col s2 < 80"
    "cur_color s2 = cur_color s" "ports s2 = ports ?s" "term_of s2 = term_wrap (term_of s1)"
    using s1(2-8) by (auto simp: s2_def term_wrap_def term_of_def nat_add_distrib split: if_splits)
  from scroll_ok [OF s2(1-3)] obtain s3 where s3: "scroll_if_needed s2 = Some s3" "length (vga s3) = 2000" "0 \<le> cursor_row s3" "cursor_row s3 < 25"
    "cursor_col s3 = cursor_col s2" "cur_color s3 = cur_color s2" "ports s3 = ports s2" "term_of s3 = term_scroll (cell s2 0x20) (term_of s2)" by blast
  have "kputc io c s = Some (move_cursor io s3)" using s1(1) s3(1) by (simp add: kputc_def Let_def s2_def)
  moreover have "cell s2 0x20 = cell s 0x20" using s2(6) by (simp add: cell_def)
  ultimately show ?thesis
    using s1(9) s2(4-8) s3(2-8) by (simp add: screen_ok_def move_cursor_def Let_def term_of_def term_put_def crtc_position_def)
qed

lemma kprint_ok:
  "screen_ok s \<Longrightarrow> \<exists>s'. kprint io cs s = Some s' \<and> screen_ok s' \<and> cur_color s' = cur_color s \<and> term_of s' = fold (term_put (cell s)) cs (term_of s)"
proof (induction cs arbitrary: s)
  case (Cons c cs)
  from kputc_ok [OF Cons.prems, of io c] obtain s1 where s1: "kputc io c s = Some s1" "screen_ok s1" "cur_color s1 = cur_color s"
    "term_of s1 = term_put (cell s) c (term_of s)" by blast
  have "cell s1 = cell s" using s1(3) by (simp add: cell_def fun_eq_iff)
  with Cons.IH [OF s1(2)] s1 show ?case by auto
qed simp

lemma clear_screen_ok:
  assumes "length (vga s) = 2000"
  shows "\<exists>s'. clear_screen io s = Some s' \<and> screen_ok s' \<and> term_of s' = \<lparr>t_rows = replicate 25 (replicate 80 (cell s 0x20)), t_row = 0, t_col = 0\<rparr>"
proof -
  have mem: "int i \<in> set [0..1999] \<longleftrightarrow> i < 2000" for i by auto
  have bd: "0 \<le> j \<and> j < int (length (vga s))" if "j \<in> set [0..1999]" for j using that assms by auto
  from fill_cells_ok [where js = "[0..1999]" and v = "vga s" and x = "cell s 0x20", OF bd] obtain v where
    v: "fill_cells [0..1999] (cell s 0x20) (vga s) = Some v" "length v = 2000" "\<forall>i < 2000. v ! i = cell s 0x20"
    unfolding mem assms by auto
  have "rows_of v = replicate 25 (replicate 80 (cell s 0x20))" by (rule rows_of_eqI) (use v(2,3) in auto)
  with v(1,2) show ?thesis by (simp add: clear_screen_def move_cursor_def Let_def screen_ok_def term_of_def del: upto.simps)
qed

lemma console_exec_ok: "screen_ok s \<Longrightarrow> \<exists>s'. console_exec io k s = Some s' \<and> screen_ok s'"
proof (cases k)
  case (Kprint_hex v)
  assume "screen_ok s"
  from kprint_ok [OF this, of io "str ''0x''"] obtain s1 where "kprint io (str ''0x'') s = Some s1" "screen_ok s1" by blast
  with kprint_ok [OF this(2), of io "utoa_str 16 v"] Kprint_hex show ?thesis by (auto simp: kprint_hex_def)
next
  case Screen_init
  assume "screen_ok s"
  then have "length (vga (s\<lparr>ports := serial_init io (ports s)\<rparr>)) = 2000" by (simp add: screen_ok_def)
  from clear_screen_ok [OF this] show ?thesis unfolding Screen_init console_exec.simps screen_init_def by blast
qed (use kputc_ok kprint_ok clear_screen_ok in \<open>fastforce simp: kprint_dec_def set_color_def screen_ok_def\<close>)+

section \<open>Properties\<close>

text \<open>C24. \<^verbatim>\<open>kputc\<close> implements the terminal: from a screen with the cursor on it every character is handled without
  leaving the text buffer, the cursor is on the screen again, the 25 rows of 80 cells and the cursor are what
  the terminal makes of the character, and the hardware cursor is set to that position after the character
  went to the serial port.\<close>

theorem kputc_refines:
  assumes "screen_ok s"
  shows "\<exists>s'. kputc io c s = Some s' \<and> screen_ok s' \<and> term_of s' = term_put (cell s) c (term_of s)
    \<and> ports s' = crtc_position io (word_of_int (cursor_row s' * 80 + cursor_col s')) (serial_putc io c (ports s))"
  using kputc_ok [OF assms] by blast

theorem kputc_refines_witness:
  "\<exists>s'. kputc \<lparr>inb = (\<lambda>_ d. (0x20, d)), outb = (\<lambda>_ _ d. d), insw = (\<lambda>_ _ d. ([], d)), outsw = (\<lambda>_ _ d. d)\<rparr> 0x0A
      \<lparr>vga = replicate 2000 0, cur_color = 7, cursor_row = 24, cursor_col = 3, ports = ()\<rparr> = Some s' \<and> t_row (term_of s') = 24 \<and> t_col (term_of s') = 0"
proof -
  let ?s = "\<lparr>vga = replicate 2000 0, cur_color = 7, cursor_row = 24, cursor_col = 3, ports = ()\<rparr>"
  have "screen_ok ?s" by (simp add: screen_ok_def)
  from kputc_refines [OF this, of _ "0x0A"] show ?thesis
    by (fastforce simp: term_put_def term_move_def term_wrap_def term_scroll_def term_of_def [of ?s])
qed

text \<open>C36. Whatever the kernel prints, with any colours and however often the screen is cleared, every call of the screen driver returns, the text buffer keeps its
  2000 cells and the cursor stays on one of the 25 lines of 80 columns: no cell outside the buffer is ever written.\<close>

theorem console_keeps_shape:
  assumes "screen_ok s"
  shows "\<exists>s'. foldl (\<lambda>r k. Option.bind r (console_exec io k)) (Some s) cs = Some s' \<and> screen_ok s'"
  using assms
proof (induction cs arbitrary: s)
  case (Cons k cs)
  from console_exec_ok [OF Cons.prems, of io k] obtain s1 where s1: "console_exec io k s = Some s1" "screen_ok s1" by blast
  with Cons.IH [OF s1(2)] show ?case by simp
qed simp

theorem console_keeps_shape_witness:
  "\<exists>s'. foldl (\<lambda>r k. Option.bind r (console_exec \<lparr>inb = (\<lambda>_ d. (0x20, d)), outb = (\<lambda>_ _ d. d), insw = (\<lambda>_ _ d. ([], d)), outsw = (\<lambda>_ _ d. d)\<rparr> k))
      (Some \<lparr>vga = replicate 2000 0, cur_color = 7, cursor_row = 24, cursor_col = 79, ports = ()\<rparr>) [Kprint [0x41, 0x09, 0x0A], Clear_screen, Kprint_dec 42] = Some s'
    \<and> length (vga s') = 2000"
proof -
  let ?s = "\<lparr>vga = replicate 2000 0, cur_color = 7, cursor_row = 24, cursor_col = 79, ports = ()\<rparr>"
  have "screen_ok ?s" by (simp add: screen_ok_def)
  from console_keeps_shape [OF this] show ?thesis unfolding screen_ok_def by blast
qed

end
