(* ===== verification/Elf.thy ===== *)
theory Elf
  imports Heap_Store Cstring
begin

text \<open>
  \<^verbatim>\<open>kernel/elf.c\<close>: the loader of 32-bit executables, on the byte memory. The image is read from memory
  at every use, as the code does, so an image that is overwritten while it is loaded is read as it then
  is. All arithmetic wraps at 32 bits. The kernel's page table maps RAM and nothing else (\<^verbatim>\<open>paging_init\<close>),
  so an access outside RAM is a page fault, at which the exception handler stops the machine: the result
  \<open>None\<close>. The reference loader works on the fixed bytes of the image.
\<close>

section \<open>Model\<close>

abbreviation (input) "USER_BASE \<equiv> 0x800000 :: u32"
abbreviation (input) "USER_TOP \<equiv> 0xC00000 :: u32"
abbreviation (input) "ET_EXEC \<equiv> 2 :: u16"
abbreviation (input) "EM_386 \<equiv> 3 :: u16"
abbreviation (input) "PT_LOAD \<equiv> 1 :: u32"
abbreviation (input) "SIZEOF_EHDR \<equiv> 52 :: u32"
abbreviation (input) "SIZEOF_PHDR \<equiv> 32 :: u32"

record Elf32_Ehdr =
  e_ident :: "u8 list"
  e_type :: u16
  e_machine :: u16
  e_version :: u32
  e_entry :: u32
  e_phoff :: u32
  e_shoff :: u32
  e_flags :: u32
  e_ehsize :: u16
  e_phentsize :: u16
  e_phnum :: u16
  e_shentsize :: u16
  e_shnum :: u16
  e_shstrndx :: u16

record Elf32_Phdr =
  p_type :: u32
  p_offset :: u32
  p_vaddr :: u32
  p_paddr :: u32
  p_filesz :: u32
  p_memsz :: u32
  p_flags :: u32
  p_align :: u32

text \<open>The packed structs, read through a function that gives the byte at an offset.\<close>

definition rd16 :: "(nat \<Rightarrow> u8) \<Rightarrow> nat \<Rightarrow> u16" where
  "rd16 f k = ucast (f k) OR push_bit 8 (ucast (f (k + 1)))"

definition rd32 :: "(nat \<Rightarrow> u8) \<Rightarrow> nat \<Rightarrow> u32" where
  "rd32 f k = cat32 (f k) (f (k + 1)) (f (k + 2)) (f (k + 3))"

definition ehdr_read :: "(nat \<Rightarrow> u8) \<Rightarrow> Elf32_Ehdr" where
  "ehdr_read f = \<lparr>e_ident = map f [0..<16], e_type = rd16 f 16, e_machine = rd16 f 18, e_version = rd32 f 20, e_entry = rd32 f 24,
     e_phoff = rd32 f 28, e_shoff = rd32 f 32, e_flags = rd32 f 36, e_ehsize = rd16 f 40, e_phentsize = rd16 f 42, e_phnum = rd16 f 44,
     e_shentsize = rd16 f 46, e_shnum = rd16 f 48, e_shstrndx = rd16 f 50\<rparr>"

definition phdr_read :: "(nat \<Rightarrow> u8) \<Rightarrow> Elf32_Phdr" where
  "phdr_read f = \<lparr>p_type = rd32 f 0, p_offset = rd32 f 4, p_vaddr = rd32 f 8, p_paddr = rd32 f 12, p_filesz = rd32 f 16,
     p_memsz = rd32 f 20, p_flags = rd32 f 24, p_align = rd32 f 28\<rparr>"

definition ehdr_at :: "mem \<Rightarrow> u32 \<Rightarrow> Elf32_Ehdr" where
  "ehdr_at m a = ehdr_read (\<lambda>k. m (a + of_nat k))"

definition phdr_at :: "mem \<Rightarrow> u32 \<Rightarrow> Elf32_Phdr" where
  "phdr_at m a = phdr_read (\<lambda>k. m (a + of_nat k))"

definition bad_ehdr :: "Elf32_Ehdr \<Rightarrow> u32 \<Rightarrow> bool" where
  "bad_ehdr eh sz \<longleftrightarrow>
     e_ident eh ! 0 \<noteq> 0x7F \<or> e_ident eh ! 1 \<noteq> 0x45 \<or> e_ident eh ! 2 \<noteq> 0x4C \<or> e_ident eh ! 3 \<noteq> 0x46
   \<or> e_ident eh ! 4 \<noteq> 1 \<or> e_machine eh \<noteq> EM_386 \<or> e_type eh \<noteq> ET_EXEC
   \<or> e_phoff eh + ucast (e_phnum eh) * SIZEOF_PHDR > sz"

definition bad_phdr :: "Elf32_Phdr \<Rightarrow> u32 \<Rightarrow> bool" where
  "bad_phdr ph sz \<longleftrightarrow>
     p_vaddr ph < USER_BASE \<or> p_vaddr ph + p_memsz ph > USER_TOP \<or> p_vaddr ph + p_memsz ph < p_vaddr ph
   \<or> p_offset ph + p_filesz ph > sz"

text \<open>The \<open>n\<close> bytes from \<open>a\<close> on are RAM. A header of which a part is not counts as a fault.\<close>

definition in_ram :: "u32 \<Rightarrow> nat \<Rightarrow> bool" where
  "in_ram a n \<longleftrightarrow> n = 0 \<or> unat a + n \<le> 0x2000000"

text \<open>The header at \<open>a\<close> is read again after the copy.\<close>

definition load_segment :: "u32 \<Rightarrow> u32 \<Rightarrow> mem \<Rightarrow> mem option" where
  "load_segment img a m =
     (let ph = phdr_at m a in
      if \<not> in_ram (p_vaddr ph) (unat (p_filesz ph)) \<or> \<not> in_ram (img + p_offset ph) (unat (p_filesz ph)) then None
      else
        let m = memcpy (p_vaddr ph) (img + p_offset ph) (p_filesz ph) m;
            ph = phdr_at m a
        in if \<not> in_ram (p_vaddr ph + p_filesz ph) (unat (p_memsz ph - p_filesz ph)) then None
           else Some (memset (p_vaddr ph + p_filesz ph) 0 (p_memsz ph - p_filesz ph) m))"

text \<open>The loop over the program headers; the first component is false when it returns -1.\<close>

function elf_segments :: "u32 \<Rightarrow> u32 \<Rightarrow> u16 \<Rightarrow> mem \<Rightarrow> (bool \<times> mem) option" where
  "elf_segments img sz i m =
     (let eh = ehdr_at m img in
      if i < e_phnum eh then
        let a = img + e_phoff eh + ucast i * ucast (e_phentsize eh); ph = phdr_at m a in
        if \<not> in_ram a 32 then None
        else if p_type ph \<noteq> PT_LOAD then elf_segments img sz (i + 1) m
        else if bad_phdr ph sz then Some (False, m)
        else (case load_segment img a m of None \<Rightarrow> None | Some m' \<Rightarrow> elf_segments img sz (i + 1) m')
      else Some (True, m))"
  by pat_completeness auto
termination
proof (relation "measure (\<lambda>(img, sz, i, m). 65536 - unat i)", simp_all)
  have "65536 - unat (i + 1) < 65536 - unat i" if "i < n" for i n :: u16
  proof -
    have "unat n < 65536" using unsigned_less [of n, where ?'a = nat] by simp
    then have "unat (i + 1) = Suc (unat i)" "unat i < 65536" using that by (auto simp: word_less_nat_alt unat_word_ariths)
    then show ?thesis by simp
  qed
  then show "i < e_phnum (ehdr_at m img) \<Longrightarrow> 65536 - unat (i + 1) < 65536 - unat i" for i m img by blast
  then show "i < e_phnum (ehdr_at m img) \<Longrightarrow> 65536 - unat (i + 1) < 65536 - unat i" for i m img by blast
qed

declare elf_segments.simps [simp del]

definition elf_load :: "u32 \<Rightarrow> u32 \<Rightarrow> mem \<Rightarrow> ((int \<times> u32 option) \<times> mem) option" where
  "elf_load img sz m =
     (if sz < SIZEOF_EHDR then Some ((- 1, None), m)
      else if \<not> in_ram img 52 then None
      else if bad_ehdr (ehdr_at m img) sz then Some ((- 1, None), m)
      else do {
        (ok, m) \<leftarrow> elf_segments img sz 0 m;
        let eh = ehdr_at m img;
        Some (if \<not> ok \<or> e_entry eh < USER_BASE \<or> e_entry eh \<ge> USER_TOP then ((- 1, None), m) else ((0, Some (e_entry eh)), m))
      })"

section \<open>The reference loader\<close>

text \<open>It takes the bytes of the image, places each loadable segment at its address (the file's bytes, then
  zeros) and stops at the first segment that does not fit.\<close>

definition ehdr_of :: "u8 list \<Rightarrow> Elf32_Ehdr" where "ehdr_of im = ehdr_read (\<lambda>k. im ! k)"
definition phdr_of :: "u8 list \<Rightarrow> nat \<Rightarrow> Elf32_Phdr" where "phdr_of im off = phdr_read (\<lambda>k. im ! (off + k))"

definition phdrs :: "u8 list \<Rightarrow> Elf32_Phdr list" where
  "phdrs im = map (\<lambda>i. phdr_of im (unat (e_phoff (ehdr_of im)) + i * 32)) [0..<unat (e_phnum (ehdr_of im))]"

definition place :: "u8 list \<Rightarrow> Elf32_Phdr \<Rightarrow> mem \<Rightarrow> mem" where
  "place im ph m = (\<lambda>a. let v = unat (p_vaddr ph); x = unat a
     in if v \<le> x \<and> x < v + unat (p_filesz ph) then im ! (unat (p_offset ph) + (x - v))
        else if v \<le> x \<and> x < v + unat (p_memsz ph) then 0 else m a)"

fun place_all :: "u8 list \<Rightarrow> Elf32_Phdr list \<Rightarrow> mem \<Rightarrow> bool \<times> mem" where
  "place_all im [] m = (True, m)"
| "place_all im (ph # phs) m =
     (if p_type ph \<noteq> PT_LOAD then place_all im phs m
      else if bad_phdr ph (of_nat (length im)) then (False, m)
      else place_all im phs (place im ph m))"

definition elf_ref :: "u8 list \<Rightarrow> mem \<Rightarrow> (int \<times> u32 option) \<times> mem" where
  "elf_ref im m =
     (if length im < 52 \<or> bad_ehdr (ehdr_of im) (of_nat (length im)) then ((- 1, None), m)
      else case place_all im (phdrs im) m of (ok, m) \<Rightarrow>
        (if \<not> ok \<or> e_entry (ehdr_of im) < USER_BASE \<or> USER_TOP \<le> e_entry (ehdr_of im) then ((- 1, None), m)
         else ((0, Some (e_entry (ehdr_of im))), m)))"

text \<open>What the code takes for granted of an image: the table of program headers has entries of 32 bytes and
  ends inside the image, and no segment has more bytes in the file than in memory or a file range that
  wraps around.\<close>

definition sane_phdr :: "Elf32_Phdr \<Rightarrow> bool" where
  "sane_phdr ph \<longleftrightarrow> (p_type ph = PT_LOAD \<longrightarrow> p_filesz ph \<le> p_memsz ph \<and> unat (p_offset ph) + unat (p_filesz ph) < 2 ^ 32)"

definition elf_sane :: "u8 list \<Rightarrow> bool" where
  "elf_sane im \<longleftrightarrow> (52 \<le> length im \<longrightarrow> e_phentsize (ehdr_of im) = 32
     \<and> unat (e_phoff (ehdr_of im)) + 32 * unat (e_phnum (ehdr_of im)) \<le> length im) \<and> list_all sane_phdr (phdrs im)"

section \<open>Lemmas\<close>

lemma in_range:
  fixes d x :: u32
  assumes "unat d + n \<le> 2 ^ 32"
  shows "(\<exists>i < n. x = d + word_of_nat i) \<longleftrightarrow> unat d \<le> unat x \<and> unat x < unat d + n"
proof
  assume "\<exists>i < n. x = d + word_of_nat i"
  then obtain i where "i < n" "x = d + word_of_nat i" by blast
  then have "unat x = unat d + i" using assms by (simp add: unat_word_ariths)
  then show "unat d \<le> unat x \<and> unat x < unat d + n" using \<open>i < n\<close> by simp
next
  assume r: "unat d \<le> unat x \<and> unat x < unat d + n"
  then have "x = d + word_of_nat (unat x - unat d)" by (simp add: word_unat_eq_iff unat_word_ariths)
  then show "\<exists>i < n. x = d + word_of_nat i" using r by (intro exI [of _ "unat x - unat d"]) auto
qed

lemma bytes_at: "bytes m a n = im \<Longrightarrow> k < n \<Longrightarrow> m (a + of_nat k) = im ! k"
  by auto

lemma memcpy_at:
  assumes "unat d + unat n \<le> 2 ^ 32" and "unat s + unat n \<le> 2 ^ 32" and "unat s + unat n \<le> unat d \<or> unat d + unat n \<le> unat s"
  shows "memcpy d s n m x = (if unat d \<le> unat x \<and> unat x < unat d + unat n then m (s + of_nat (unat x - unat d)) else m x)"
proof (cases "unat d \<le> unat x \<and> unat x < unat d + unat n")
  case True
  have "d \<noteq> s + word_of_nat i" if "i < unat n" for i
  proof -
    have "unat (s + word_of_nat i) = unat s + i" using that assms(2) by (simp add: unat_word_ariths)
    then show ?thesis using assms(3) that by auto
  qed
  then have "copy_up (unat n) d s m (d + word_of_nat (unat x - unat d)) = m (s + word_of_nat (unat x - unat d))"
    using True less_imp_le [OF unat_u32_lt [of n]] by (intro copy_up_inside) auto
  moreover have "d + word_of_nat (unat x - unat d) = x" using True by (simp add: word_unat_eq_iff unat_word_ariths)
  ultimately show ?thesis using True by (simp add: memcpy_def)
next
  case False
  then have "x \<noteq> d + word_of_nat i" if "i < unat n" for i using in_range [OF assms(1), of x] that by blast
  then show ?thesis using False by (auto simp: memcpy_def intro: copy_up_outside)
qed

lemma memset_at:
  assumes "unat d + unat n \<le> 2 ^ 32"
  shows "memset d c n m x = (if unat d \<le> unat x \<and> unat x < unat d + unat n then word_of_int c else m x)"
proof (cases "unat d \<le> unat x \<and> unat x < unat d + unat n")
  case True
  then have "x = d + word_of_nat (unat x - unat d)" by (simp add: word_unat_eq_iff unat_word_ariths)
  moreover have "unat x - unat d < unat n" using True by linarith
  ultimately show ?thesis using True memset_inside [of "unat x - unat d" "unat n" d "word_of_int c" m] less_imp_le [OF unat_u32_lt [of n]]
    by (simp add: memset_def)
next
  case False
  then have "x \<noteq> d + word_of_nat i" if "i < unat n" for i using in_range [OF assms, of x] that by blast
  then show ?thesis using False by (auto simp: memset_def intro: memset_outside)
qed

text \<open>An image of \<open>n\<close> bytes in RAM that lies apart from the user window.\<close>

definition apart :: "u32 \<Rightarrow> nat \<Rightarrow> bool" where
  "apart img n \<longleftrightarrow> unat img + n \<le> unat USER_BASE \<or> unat USER_TOP \<le> unat img \<and> unat img + n \<le> 0x2000000"

lemma good_phdr:
  assumes "\<not> bad_phdr ph sz"
  shows "unat USER_BASE \<le> unat (p_vaddr ph)" "unat (p_vaddr ph) + unat (p_memsz ph) \<le> unat USER_TOP"
proof -
  from assms have a: "USER_BASE \<le> p_vaddr ph" "p_vaddr ph + p_memsz ph \<le> USER_TOP" "p_vaddr ph \<le> p_vaddr ph + p_memsz ph"
    by (auto simp: bad_phdr_def not_less)
  from a(1) show "unat USER_BASE \<le> unat (p_vaddr ph)" by (simp add: word_le_nat_alt)
  from a(3) have "unat (p_vaddr ph + p_memsz ph) = unat (p_vaddr ph) + unat (p_memsz ph)"
    by (simp add: unat_plus_simple)
  with a(2) show "unat (p_vaddr ph) + unat (p_memsz ph) \<le> unat USER_TOP" by (simp add: word_le_nat_alt)
qed

lemma place_outside: "\<not> bad_phdr ph sz \<Longrightarrow> p_filesz ph \<le> p_memsz ph \<Longrightarrow> a < USER_BASE \<or> USER_TOP \<le> a \<Longrightarrow> place im ph m a = m a"
  using good_phdr [of ph sz] by (auto simp: place_def Let_def word_less_nat_alt word_le_nat_alt)

lemma phdr_read_cong: "(\<And>k. k < 32 \<Longrightarrow> f k = g k) \<Longrightarrow> phdr_read f = phdr_read g"
  by (simp add: phdr_read_def rd32_def)

lemma phdr_bytes:
  assumes "bytes m img n = im" and "off + 32 \<le> n"
  shows "phdr_at m (img + of_nat off) = phdr_of im off"
  unfolding phdr_at_def phdr_of_def
proof (rule phdr_read_cong)
  fix k :: nat assume "k < 32"
  then show "m (img + of_nat off + of_nat k) = im ! (off + k)" using bytes_at [OF assms(1), of "off + k"] assms(2) by (simp add: add.assoc)
qed

text \<open>Copying a segment does not touch what lies below its address.\<close>

lemma memcpy_below:
  assumes "unat d + unat n \<le> 2 ^ 32" and "unat x < unat d"
  shows "memcpy d s n m x = m x"
proof -
  have "x \<noteq> d + word_of_nat i" if "i < unat n" for i using in_range [OF assms(1), of x] that assms(2) by auto
  then show ?thesis by (auto simp: memcpy_def intro: copy_up_outside)
qed

lemma load_segment_place:
  assumes "bytes m img n = im" and "apart img n" and "\<not> bad_phdr ph (of_nat n)" and "sane_phdr ph" and "p_type ph = PT_LOAD" and "n < 2 ^ 32"
    and "ph = phdr_of im off" and "off + 32 \<le> n"
  shows "load_segment img (img + of_nat off) m = Some (place im ph m)"
proof -
  note g = good_phdr [OF assms(3)]
  let ?v = "unat (p_vaddr ph)" and ?f = "unat (p_filesz ph)" and ?m = "memcpy (p_vaddr ph) (img + p_offset ph) (p_filesz ph) m"
  have f: "?f \<le> unat (p_memsz ph)" "unat (p_offset ph) + ?f < 2 ^ 32"
    using assms(4,5) by (auto simp: sane_phdr_def word_le_nat_alt)
  then have "unat (p_offset ph + p_filesz ph) = unat (p_offset ph) + ?f" by (simp add: unat_word_ariths)
  moreover have "p_offset ph + p_filesz ph \<le> of_nat n" using assms(3) by (auto simp: bad_phdr_def not_less)
  ultimately have o: "unat (p_offset ph) + ?f \<le> n" using assms(6) by (simp add: word_le_nat_alt)
  have n: "unat img + n \<le> 0x2000000" using assms(2) by (auto simp: apart_def)
  have v: "unat (p_vaddr ph + p_filesz ph) = ?v + ?f" "unat (p_memsz ph - p_filesz ph) = unat (p_memsz ph) - ?f"
    using f g by (simp_all add: unat_word_ariths unat_sub_if_size word_le_nat_alt)
  have ph: "phdr_at m (img + of_nat off) = ph" using phdr_bytes [OF assms(1,8)] assms(7) by simp
  have mc: "?m x = (if ?v \<le> unat x \<and> unat x < ?v + ?f then m (img + p_offset ph + of_nat (unat x - ?v)) else m x)" for x
  proof (cases "?f = 0")
    case False
    then have "unat (img + p_offset ph) = unat img + unat (p_offset ph)" using o n by (simp add: unat_word_ariths)
    then show ?thesis using o n f g assms(2) by (intro memcpy_at) (auto simp: apart_def)
  qed (auto simp: memcpy_def)
  have "?m (img + of_nat k) = m (img + of_nat k)" if "k < n" for k
  proof -
    have "unat (img + of_nat k) = unat img + k" using that n by (simp add: unat_word_ariths)
    then show ?thesis using mc that assms(2) f(1) g by (auto simp: apart_def)
  qed
  then have "bytes ?m img n = im" using assms(1) by (auto simp: bytes_def)
  then have ph': "phdr_at ?m (img + of_nat off) = ph" using phdr_bytes [OF _ assms(8)] assms(7) by simp
  have ms: "memset (p_vaddr ph + p_filesz ph) 0 (p_memsz ph - p_filesz ph) m' a =
      (if ?v + ?f \<le> unat a \<and> unat a < ?v + unat (p_memsz ph) then 0 else m' a)" for m' a
    using memset_at [of "p_vaddr ph + p_filesz ph" "p_memsz ph - p_filesz ph" 0 m' a] v f g by auto
  have "m (img + p_offset ph + of_nat (unat a - ?v)) = im ! (unat (p_offset ph) + (unat a - ?v))" if "?v \<le> unat a" "unat a < ?v + ?f" for a
  proof -
    have "img + p_offset ph + of_nat k = img + of_nat (unat (p_offset ph) + k)" for k by (simp add: add.assoc)
    moreover have "unat (p_offset ph) + (unat a - ?v) < n" using o that by linarith
    ultimately show ?thesis using bytes_at [OF assms(1)] by metis
  qed
  then have "memset (p_vaddr ph + p_filesz ph) 0 (p_memsz ph - p_filesz ph) ?m a = place im ph m a" for a
    unfolding ms mc place_def Let_def using f(1) by (auto simp del: of_nat_diff add_diff_assoc diff_add_assoc diff_add_assoc2)
  then have "memset (p_vaddr ph + p_filesz ph) 0 (p_memsz ph - p_filesz ph) ?m = place im ph m" by (rule ext)
  moreover have "in_ram (img + p_offset ph) ?f"
  proof (cases "?f = 0")
    case False
    then have "unat (img + p_offset ph) = unat img + unat (p_offset ph)" using o n by (simp add: unat_word_ariths)
    then show ?thesis using o n by (simp add: in_ram_def)
  qed (simp add: in_ram_def)
  moreover have "in_ram (p_vaddr ph) ?f" "in_ram (p_vaddr ph + p_filesz ph) (unat (p_memsz ph - p_filesz ph))"
    using v f(1) g by (simp_all add: in_ram_def)
  ultimately show ?thesis unfolding load_segment_def Let_def ph ph' by simp
qed

lemma bytes_place:
  assumes "apart img n" and "\<not> bad_phdr ph sz" and "p_filesz ph \<le> p_memsz ph"
  shows "bytes (place im ph m) img n = bytes m img n"
proof -
  have "place im ph m (img + of_nat k) = m (img + of_nat k)" if "k < n" for k
  proof -
    have "unat (img + of_nat k) = unat img + k" using that assms(1) by (auto simp: apart_def unat_word_ariths)
    then have "img + of_nat k < USER_BASE \<or> USER_TOP \<le> img + of_nat k"
      using that assms(1) by (auto simp: apart_def word_less_nat_alt word_le_nat_alt)
    then show ?thesis by (rule place_outside [OF assms(2,3)])
  qed
  then show ?thesis by (simp add: bytes_def)
qed

lemma ehdr_read_cong: "(\<And>k. k < 52 \<Longrightarrow> f k = g k) \<Longrightarrow> ehdr_read f = ehdr_read g"
  by (simp add: ehdr_read_def rd16_def rd32_def)

lemma ehdr_bytes: "bytes m img n = im \<Longrightarrow> 52 \<le> n \<Longrightarrow> ehdr_at m img = ehdr_of im"
  unfolding ehdr_at_def ehdr_of_def by (intro ehdr_read_cong) auto

lemma elf_segments_place:
  fixes i :: u16
  assumes "bytes m img n = im" and "apart img n" and "n < 2 ^ 32" and "52 \<le> n" and "elf_sane im" and "i \<le> e_phnum (ehdr_of im)"
  shows "elf_segments img (of_nat n) i m = Some (place_all im (drop (unat i) (phdrs im)) m)"
  using assms(1,2,6)
proof (induction img "word_of_nat n :: u32" i m rule: elf_segments.induct)
  case (1 img i m)
  let ?eh = "ehdr_of im"
  have len: "n = length im" using "1.prems"(1) by auto
  have eh: "ehdr_at m img = ?eh" by (rule ehdr_bytes [OF "1.prems"(1) assms(4)])
  show ?case
  proof (cases "i < e_phnum ?eh")
    case False
    then have "drop (unat i) (phdrs im) = []" by (simp add: phdrs_def word_less_nat_alt not_less)
    then show ?thesis using False by (subst elf_segments.simps) (simp add: eh Let_def)
  next
    case True
    let ?off = "unat (e_phoff ?eh) + unat i * 32"
    let ?ph = "phdr_of im ?off"
    have u: "unat i < unat (e_phnum ?eh)" "unat (e_phnum ?eh) < 65536"
      using True unsigned_less [of "e_phnum ?eh", where ?'a = nat] by (auto simp: word_less_nat_alt)
    then have i: "unat (i + 1) = Suc (unat i)" "i + 1 \<le> e_phnum ?eh" by (auto simp: unat_word_ariths word_le_nat_alt)
    have sane: "unat (e_phoff ?eh) + 32 * unat (e_phnum ?eh) \<le> n" "e_phentsize ?eh = 32" using assms(4,5) len by (auto simp: elf_sane_def)
    then have "?off + 32 \<le> n" using u by simp
    then have o: "?off + 32 \<le> n" .
    have a: "img + e_phoff ?eh + ucast i * ucast (e_phentsize ?eh) = img + of_nat ?off" by (simp add: sane(2) add.assoc)
    have ph: "phdr_at m (img + of_nat ?off) = ?ph" by (rule phdr_bytes [OF "1.prems"(1) o])
    have "phdrs im ! unat i = ?ph" "unat i < length (phdrs im)" using u by (simp_all add: phdrs_def)
    then have d: "drop (unat i) (phdrs im) = ?ph # drop (Suc (unat i)) (phdrs im)" "?ph \<in> set (phdrs im)"
      using Cons_nth_drop_Suc [of "unat i" "phdrs im"] nth_mem by fastforce+
    have s: "sane_phdr ?ph" using d(2) assms(5) by (auto simp: elf_sane_def list_all_iff)
    have rm: "in_ram (img + of_nat ?off) 32"
    proof -
      have "unat img + ?off < 2 ^ 32" using o "1.prems"(2) by (auto simp: apart_def)
      moreover have "img + of_nat ?off = of_nat (unat img + ?off)" by simp
      ultimately have "unat (img + of_nat ?off) = unat img + ?off" by (metis unat_of_nat_u32)
      then show ?thesis using o "1.prems"(2) by (auto simp: in_ram_def apart_def)
    qed
    note step = elf_segments.simps [of img "of_nat n" i m, unfolded eh Let_def a ph]
    consider "p_type ?ph \<noteq> PT_LOAD" | "p_type ?ph = PT_LOAD" "bad_phdr ?ph (of_nat n)" | "p_type ?ph = PT_LOAD" "\<not> bad_phdr ?ph (of_nat n)" by blast
    then show ?thesis
    proof cases
      case 1
      then have "elf_segments img (of_nat n) (i + 1) m = Some (place_all im (drop (unat (i + 1)) (phdrs im)) m)"
        using "1.hyps"(1) [OF refl True [folded eh] refl refl] a ph eh "1.prems" i rm by simp
      then show ?thesis using 1 True step d i rm by simp
    next
      case 2
      then show ?thesis using True step d len rm by simp
    next
      case 3
      have l: "load_segment img (img + of_nat ?off) m = Some (place im ?ph m)"
        by (rule load_segment_place [OF "1.prems"(1,2) 3(2) s 3(1) assms(3) refl o])
      have "bytes (place im ?ph m) img n = im"
        using bytes_place [OF "1.prems"(2) 3(2)] "1.prems"(1) s 3(1) by (auto simp: sane_phdr_def)
      then have "elf_segments img (of_nat n) (i + 1) (place im ?ph m) = Some (place_all im (drop (unat (i + 1)) (phdrs im)) (place im ?ph m))"
        using "1.hyps"(2) [OF refl True [folded eh] refl refl] a ph eh "1.prems" i 3 l rm by simp
      then show ?thesis using 3 True step d i len l rm by simp
    qed
  qed
qed

lemma place_all_outside:
  "list_all sane_phdr phs \<Longrightarrow> a < USER_BASE \<or> USER_TOP \<le> a \<Longrightarrow> snd (place_all im phs m) a = m a"
proof (induction phs arbitrary: m)
  case (Cons ph phs)
  then show ?case using place_outside [of ph "of_nat (length im)" a im m] by (auto simp: sane_phdr_def)
qed simp

lemma elf_load_ref:
  assumes "bytes m img (unat sz) = im" and "apart img (unat sz)" and "elf_sane im"
  shows "elf_load img sz m = Some (elf_ref im m)"
proof -
  have len: "length im = unat sz" "of_nat (unat sz) = sz" using assms(1) by auto
  have lt: "sz < SIZEOF_EHDR \<longleftrightarrow> unat sz < 52" by (simp add: word_less_nat_alt)
  show ?thesis
  proof (cases "unat sz < 52")
    case False
    then have eh: "ehdr_at m img = ehdr_of im" using assms(1) by (intro ehdr_bytes) auto
    have seg: "elf_segments img sz 0 m = Some (place_all im (phdrs im) m)"
      using elf_segments_place [OF assms(1,2) _ _ assms(3), of 0] False len by simp
    obtain ok m' where p: "place_all im (phdrs im) m = (ok, m')" by fastforce
    have "m' (img + of_nat k) = m (img + of_nat k)" if "k < unat sz" for k
    proof -
      have "unat (img + of_nat k) = unat img + k" using that assms(2) by (auto simp: apart_def unat_word_ariths)
      then have "img + of_nat k < USER_BASE \<or> USER_TOP \<le> img + of_nat k"
        using that assms(2) by (auto simp: apart_def word_less_nat_alt word_le_nat_alt)
      then show ?thesis using place_all_outside [of "phdrs im" "img + of_nat k" im m] p assms(3) by (simp add: elf_sane_def)
    qed
    then have "bytes m' img (unat sz) = im" using assms(1) by (auto simp: bytes_def)
    then have "ehdr_at m' img = ehdr_of im" using False by (intro ehdr_bytes) auto
    moreover have "in_ram img 52" using assms(2) False by (auto simp: in_ram_def apart_def)
    ultimately show ?thesis using False lt eh seg p len by (auto simp: elf_load_def elf_ref_def Let_def)
  qed (simp add: elf_load_def elf_ref_def lt len)
qed

section \<open>Properties\<close>

text \<open>C16. The loader implements the reference loader and stays inside the user window. For an image in RAM that
  lies outside the window and keeps what the code takes for granted (program headers of 32 bytes inside the
  image; no loadable segment larger in the file than in memory or with a wrapping file range), \<^verbatim>\<open>elf_load\<close>
  returns, without a fault, exactly what the reference says: -1 for a short or foreign header, a segment or an
  entry outside the window or beyond the image; otherwise 0, the entry point, and each segment's bytes followed by
  zeros at its address. No byte outside the window changes, whether it succeeds or not.\<close>

theorem elf_load_correct:
  assumes "apart img (unat sz)" and "elf_sane (bytes m img (unat sz))"
  shows "\<exists>r m'. elf_load img sz m = Some (r, m') \<and> (r, m') = elf_ref (bytes m img (unat sz)) m
    \<and> (\<forall>a. a < USER_BASE \<or> USER_TOP \<le> a \<longrightarrow> m' a = m a)"
proof -
  let ?im = "bytes m img (unat sz)"
  have r: "elf_load img sz m = Some (elf_ref ?im m)" by (rule elf_load_ref [OF refl assms])
  have "snd (elf_ref ?im m) a = m a" if "a < USER_BASE \<or> USER_TOP \<le> a" for a
    using place_all_outside [OF _ that, of "phdrs ?im" ?im m] assms(2) by (auto simp: elf_ref_def elf_sane_def split: prod.splits)
  then show ?thesis using r by (metis prod.collapse)
qed

text \<open>An executable of one segment: four bytes of code and four of zeros at 0x800000.\<close>

definition tiny_elf :: "u8 list" where
  "tiny_elf = [0x7F, 0x45, 0x4C, 0x46, 1, 1, 1, 0, 0, 0, 0, 0, 0, 0, 0, 0, 2, 0, 3, 0, 1, 0, 0, 0, 0, 0, 0x80, 0, 52, 0, 0, 0, 0, 0, 0, 0, 0, 0, 0, 0,
     52, 0, 32, 0, 1, 0, 0, 0, 0, 0, 0, 0]
   @ [1, 0, 0, 0, 84, 0, 0, 0, 0, 0, 0x80, 0, 0, 0, 0x80, 0, 4, 0, 0, 0, 8, 0, 0, 0, 7, 0, 0, 0, 0, 0x10, 0, 0] @ [0x90, 0x90, 0xEB, 0xFE]"

definition mem_with :: "u32 \<Rightarrow> u8 list \<Rightarrow> mem" where
  "mem_with base im = (\<lambda>a. if unat (a - base) < length im then im ! unat (a - base) else 0xCC)"

lemma bytes_mem_with: "length im < 2 ^ 32 \<Longrightarrow> bytes (mem_with base im) base (length im) = im"
  by (rule nth_equalityI) (simp_all add: mem_with_def)

lemma tiny_hdr: "e_phentsize (ehdr_of tiny_elf) = 32" "e_phoff (ehdr_of tiny_elf) = 52" "e_phnum (ehdr_of tiny_elf) = 1"
  "e_entry (ehdr_of tiny_elf) = 0x800000" "\<not> bad_ehdr (ehdr_of tiny_elf) 88"
  by (simp_all add: ehdr_of_def ehdr_read_def tiny_elf_def rd16_def rd32_def cat32_def bad_ehdr_def)

lemma tiny_phdrs: "phdrs tiny_elf = [\<lparr>p_type = 1, p_offset = 84, p_vaddr = 0x800000, p_paddr = 0x800000, p_filesz = 4, p_memsz = 8, p_flags = 7, p_align = 0x1000\<rparr>]"
proof -
  have "phdrs tiny_elf = [phdr_of tiny_elf 52]" by (simp add: phdrs_def tiny_hdr)
  then show ?thesis by (simp add: phdr_of_def phdr_read_def rd32_def cat32_def tiny_elf_def)
qed

theorem elf_load_correct_witness:
  "\<exists>m. elf_load 0x400010 88 (mem_with 0x400010 tiny_elf) = Some ((0, Some 0x800000), m) \<and> m 0x800002 = 0xEB \<and> m 0x800005 = 0
     \<and> m 0x800008 = 0xCC"
proof -
  have n: "length tiny_elf = 88" by (simp add: tiny_elf_def)
  have b: "bytes (mem_with 0x400010 tiny_elf) 0x400010 (unat (88 :: u32)) = tiny_elf"
    using bytes_mem_with [of tiny_elf] n by simp
  have "elf_sane tiny_elf" by (simp add: elf_sane_def n tiny_hdr tiny_phdrs sane_phdr_def)
  moreover have "apart 0x400010 (unat (88 :: u32))" by (simp add: apart_def)
  ultimately have "elf_load 0x400010 88 (mem_with 0x400010 tiny_elf) = Some (elf_ref tiny_elf (mem_with 0x400010 tiny_elf))"
    using elf_load_correct [of "0x400010" 88 "mem_with 0x400010 tiny_elf"] b by auto
  then show ?thesis by (simp add: elf_ref_def n tiny_hdr tiny_phdrs bad_phdr_def place_def Let_def mem_with_def) (simp add: tiny_elf_def)
qed

lemma load_segment_faults:
  assumes "p_memsz ph < p_filesz ph" and "unat USER_BASE \<le> unat (p_vaddr ph)" and "ph = phdr_at m p" and "unat p + 32 \<le> unat USER_BASE"
  shows "load_segment img p m = None"
proof (cases "in_ram (p_vaddr ph) (unat (p_filesz ph))")
  case True
  let ?v = "unat (p_vaddr ph)" and ?f = "unat (p_filesz ph)" and ?k = "unat (p_memsz ph)"
  have k: "?k < ?f" using assms(1) by (simp add: word_less_nat_alt)
  then have vf: "?v + ?f \<le> 0x2000000" using True by (auto simp: in_ram_def)
  have "memcpy (p_vaddr ph) s (p_filesz ph) m (p + of_nat j) = m (p + of_nat j)" if "j < 32" for s j
    by (rule memcpy_below) (use vf that assms(2,4) in \<open>simp_all add: unat_word_ariths\<close>)
  then have ph': "phdr_at (memcpy (p_vaddr ph) s (p_filesz ph) m) p = ph" for s
    unfolding assms(3) phdr_at_def by (intro phdr_read_cong) simp
  have "unat (p_memsz ph - p_filesz ph) = 2 ^ 32 - (?f - ?k)" using k by (simp add: unat_sub_if_size word_le_nat_alt word_size)
  then have "0x2000000 < unat (p_memsz ph - p_filesz ph)" using vf k by simp
  then have "\<not> in_ram d (unat (p_memsz ph - p_filesz ph))" for d by (simp add: in_ram_def)
  then show ?thesis unfolding load_segment_def Let_def assms(3) [symmetric] ph' by simp
qed (simp add: load_segment_def assms(3) Let_def)

text \<open>C33. An image whose first segment is loadable and larger in the file than in memory passes every check
  of the loader, and loading it stops the kernel: the length of the second part of the segment wraps to
  almost 4 GB, and clearing it runs past the end of RAM into a page fault.\<close>

theorem elf_load_crashes:
  assumes "52 \<le> sz" and "\<not> bad_ehdr (ehdr_at m img) sz" and "0 < e_phnum (ehdr_at m img)"
    and "p = img + e_phoff (ehdr_at m img)" and "unat p + 32 \<le> unat USER_BASE" and "ph = phdr_at m p" and "p_type ph = PT_LOAD"
    and "\<not> bad_phdr ph sz" and "p_memsz ph < p_filesz ph"
  shows "elf_load img sz m = None"
proof -
  have "load_segment img p m = None" by (rule load_segment_faults [OF assms(9) good_phdr(1) [OF assms(8)] assms(6,5)])
  then have "elf_segments img sz 0 m = None"
    using assms(3,7,8) by (subst elf_segments.simps) (simp add: Let_def assms(4) [symmetric] assms(6) [symmetric])
  then show ?thesis using assms(1,2) by (simp add: elf_load_def not_less [symmetric])
qed

definition bad_elf :: "u8 list" where
  "bad_elf = tiny_elf[72 := 2]"

theorem elf_load_crashes_witness:
  "elf_load 0x400010 88 (mem_with 0x400010 bad_elf) = None \<and> bytes (mem_with 0x400010 bad_elf) 0x400010 88 = bad_elf"
proof -
  let ?m = "mem_with 0x400010 bad_elf"
  have n: "length bad_elf = 88" by (simp add: tiny_elf_def bad_elf_def)
  have b: "bytes ?m 0x400010 88 = bad_elf" using bytes_mem_with [of bad_elf] n by simp
  have e: "ehdr_at ?m 0x400010 = ehdr_of bad_elf" using ehdr_bytes [OF b] by simp
  have h: "e_phoff (ehdr_of bad_elf) = 52" "e_phnum (ehdr_of bad_elf) = 1" "\<not> bad_ehdr (ehdr_of bad_elf) 88"
    by (simp_all add: ehdr_of_def ehdr_read_def tiny_elf_def bad_elf_def rd16_def rd32_def cat32_def bad_ehdr_def)
  have "phdr_at ?m (0x400010 + of_nat 52) = phdr_of bad_elf 52" using n by (intro phdr_bytes [OF b]) simp
  also have "\<dots> = \<lparr>p_type = 1, p_offset = 84, p_vaddr = 0x800000, p_paddr = 0x800000, p_filesz = 4, p_memsz = 2, p_flags = 7, p_align = 0x1000\<rparr>"
    by (simp add: phdr_of_def phdr_read_def rd32_def cat32_def tiny_elf_def bad_elf_def)
  finally show ?thesis
    using b elf_load_crashes [of 88 ?m "0x400010" "0x400010 + of_nat 52" "phdr_at ?m (0x400010 + of_nat 52)"] by (simp add: e h bad_phdr_def)
qed

end
