(* ===== verification/Paging.thy ===== *)
theory Paging
  imports Bitset
begin

text \<open>
  \<^verbatim>\<open>mem/paging.c\<close>: the page directory of 4 MB pages and the control registers. How the processor
  translates an address is stated separately, following the format of directory entries, so that
  the property says which accesses succeed and where they go. \<open>None\<close> is an access outside the
  directory. The address of the directory is a parameter.
\<close>

section \<open>Model\<close>

record mmu =
  page_directory :: "u32 list"
  cr0 :: u32
  cr3 :: u32
  cr4 :: u32

abbreviation (input) "PDE_PRESENT \<equiv> 0x1 :: u32"
abbreviation (input) "PDE_RW \<equiv> 0x2 :: u32"
abbreviation (input) "PDE_USER \<equiv> 0x4 :: u32"
abbreviation (input) "PDE_4MB \<equiv> 0x80 :: u32"
abbreviation (input) "PHYS_MEM_SIZE \<equiv> 0x2000000 :: u32"

function paging_init_loop :: "u32 \<Rightarrow> u32 list \<Rightarrow> u32 list" where
  "paging_init_loop i pd =
     (if i < 1024 then
        let mapped = drop_bit 22 PHYS_MEM_SIZE;
            e = (if i < mapped then push_bit 22 i OR PDE_PRESENT OR PDE_RW OR PDE_4MB else PDE_RW)
        in paging_init_loop (i + 1) (pd[unat i := e])
      else pd)"
  by pat_completeness auto
termination
  by (relation "measure (\<lambda>(i, pd). 1024 - unat i)") (auto simp: word_less_nat_alt unat_word_ariths)

declare paging_init_loop.simps [simp del]

definition paging_init :: "u32 \<Rightarrow> mmu \<Rightarrow> mmu" where
  "paging_init a_pd s =
     (let s = s\<lparr>page_directory := paging_init_loop 0 (page_directory s)\<rparr>;
          s = s\<lparr>cr3 := a_pd\<rparr>;
          s = s\<lparr>cr4 := cr4 s OR 0x10\<rparr>
      in s\<lparr>cr0 := cr0 s OR 0x80000000\<rparr>)"

text \<open>Reloading \<^verbatim>\<open>cr3\<close> writes back the value read from it.\<close>

definition paging_set_user :: "u32 \<Rightarrow> mmu \<Rightarrow> mmu option" where
  "paging_set_user vaddr s =
     (let i = unat (drop_bit 22 vaddr)
      in if i < length (page_directory s)
         then Some (s\<lparr>page_directory := (page_directory s)[i := page_directory s ! i OR PDE_USER], cr3 := cr3 s\<rparr>)
         else None)"

section \<open>How the processor translates\<close>

text \<open>With paging and 4 MB pages on, the upper ten bits select the entry; a user access needs the user bit
  and the write bit on writes. \<open>None\<close> is a page fault.\<close>

definition translate :: "mmu \<Rightarrow> bool \<Rightarrow> bool \<Rightarrow> u32 \<Rightarrow> u32 option" where
  "translate s user wr va =
     (if \<not> bit (cr0 s) 31 then Some va
      else let e = page_directory s ! unat (drop_bit 22 va)
           in if bit e 0 \<and> bit e 7 \<and> bit (cr4 s) 4 \<and> (user \<longrightarrow> bit e 2) \<and> (wr \<and> user \<longrightarrow> bit e 1)
              then Some (e AND 0xFFC00000 OR va AND 0x3FFFFF) else None)"

section \<open>Lemmas\<close>

lemma masks22: "(0x3FFFFF :: u32) = mask 22" "(0xFFC00000 :: u32) = NOT (mask 22)"
  by (simp_all add: mask_eq_exp_minus_1)

definition pde_of :: "u32 \<Rightarrow> u32" where
  "pde_of i = (if i < 8 then push_bit 22 i OR PDE_PRESENT OR PDE_RW OR PDE_4MB else PDE_RW)"

lemma length_paging_init_loop [simp]: "length (paging_init_loop i pd) = length pd"
  by (induction i pd rule: paging_init_loop.induct) (subst paging_init_loop.simps, simp add: Let_def)

lemma paging_init_loop_nth:
  "length pd = 1024 \<Longrightarrow> j < 1024 \<Longrightarrow> paging_init_loop i pd ! j = (if unat i \<le> j then pde_of (of_nat j) else pd ! j)"
proof (induction i pd rule: paging_init_loop.induct)
  case (1 i pd)
  show ?case
  proof (cases "i < 1024")
    case True
    then have i: "unat (i + 1) = Suc (unat i)" "unat i < 1024" by (auto simp: word_less_nat_alt unat_word_ariths)
    have "paging_init_loop i pd = paging_init_loop (i + 1) (pd[unat i := pde_of i])"
      using True by (subst paging_init_loop.simps) (simp add: Let_def pde_of_def)
    moreover have "paging_init_loop (i + 1) (pd[unat i := pde_of i]) ! j = (if unat (i + 1) \<le> j then pde_of (of_nat j) else pd[unat i := pde_of i] ! j)"
      using "1.IH" [OF True refl refl] 1(2,3) by (simp add: pde_of_def)
    ultimately show ?thesis using i 1(2,3) by (auto simp: nth_list_update not_less_eq_eq le_antisym)
  next
    case False
    then have "1024 \<le> unat i" by (simp add: word_less_nat_alt)
    then show ?thesis using False 1(3) by (subst paging_init_loop.simps) simp
  qed
qed

lemma drop22: "unat (drop_bit 22 va) = unat va div 0x400000" for va :: u32
  using unat_drop_bit_eq [of 22 va] by (simp only: drop_bit_eq_div) simp

lemma drop22_lt: "unat (drop_bit 22 va) < 1024" for va :: u32
  unfolding drop22 by (simp add: less_mult_imp_div_less)

text \<open>The address an entry and an offset make up, whatever the flag bits.\<close>

lemma entry_frame: "f < 2 ^ 22 \<Longrightarrow> (push_bit 22 (drop_bit 22 va) OR f) AND 0xFFC00000 OR va AND 0x3FFFFF = va" for va f :: u32
  unfolding masks22
proof -
  assume "f < 2 ^ 22"
  then have "\<not> bit f n" if "22 \<le> n" for n by (rule less_exp_no_bit) (rule that)
  then show "(push_bit 22 (drop_bit 22 va) OR f) AND NOT (mask 22) OR va AND mask 22 = va"
    by (intro bit_word_eqI) (auto simp: bit_simps)
qed

text \<open>The directory after any number of \<^verbatim>\<open>paging_set_user\<close> calls: the initial entries, and the user bit
  in the entries of the pages in \<open>U\<close>.\<close>

definition mapped_by :: "nat set \<Rightarrow> mmu \<Rightarrow> bool" where
  "mapped_by U s \<longleftrightarrow> length (page_directory s) = 1024 \<and> bit (cr0 s) 31 \<and> bit (cr4 s) 4
     \<and> (\<forall>i < 1024. page_directory s ! i = (if i \<in> U then pde_of (of_nat i) OR PDE_USER else pde_of (of_nat i)))"

lemma paging_init_mapped: "length (page_directory s) = 1024 \<Longrightarrow> mapped_by {} (paging_init a_pd s)"
  by (simp add: mapped_by_def paging_init_def Let_def paging_init_loop_nth bit_simps)

lemma paging_set_user_mapped:
  assumes "mapped_by U s"
  shows "\<exists>s'. paging_set_user va s = Some s' \<and> mapped_by (insert (unat va div 0x400000) U) s'"
  using assms drop22_lt [of va]
  by (auto simp: paging_set_user_def mapped_by_def Let_def nth_list_update drop22 or.assoc)

lemma translate_mapped:
  assumes "mapped_by U s"
  shows "translate s user wr va = (if va < PHYS_MEM_SIZE \<and> (user \<longrightarrow> unat va div 0x400000 \<in> U) then Some va else None)"
proof -
  let ?i = "unat (drop_bit 22 va)"
  have i: "va < PHYS_MEM_SIZE \<longleftrightarrow> drop_bit 22 va < 8"
    unfolding word_less_nat_alt drop22 by (simp add: div_less_iff_less_mult)
  have e: "page_directory s ! ?i = (if ?i \<in> U then pde_of (drop_bit 22 va) OR PDE_USER else pde_of (drop_bit 22 va))"
    using assms drop22_lt [of va] by (simp add: mapped_by_def)
  show ?thesis
  proof (cases "va < PHYS_MEM_SIZE")
    case True
    then show ?thesis using assms i e entry_frame [of "0x83" va] entry_frame [of "0x87" va]
      by (auto simp: translate_def mapped_by_def pde_of_def Let_def bit_simps drop22 bit_numeral_word_iff or.assoc)
  next
    case False
    then have "\<not> bit (page_directory s ! ?i) 0" using e i by (simp add: pde_of_def bit_simps bit_numeral_word_iff)
    then show ?thesis using False assms by (simp add: translate_def mapped_by_def Let_def)
  qed
qed

section \<open>Which accesses succeed\<close>

fun set_users :: "u32 list \<Rightarrow> mmu \<Rightarrow> mmu option" where
  "set_users [] s = Some s"
| "set_users (v # vs) s = do { s \<leftarrow> paging_set_user v s; set_users vs s }"

lemma set_users_mapped:
  "mapped_by U s \<Longrightarrow> \<exists>s'. set_users vs s = Some s' \<and> mapped_by (U \<union> (\<lambda>v. unat v div 0x400000) ` set vs) s'"
proof (induction vs arbitrary: U s)
  case (Cons v vs)
  obtain s1 where "paging_set_user v s = Some s1" "mapped_by (insert (unat v div 0x400000) U) s1"
    using paging_set_user_mapped [OF Cons.prems] by blast
  with Cons.IH [of "insert (unat v div 0x400000) U" s1] show ?case by simp
qed simp

text \<open>C13. Paging is an identity map of the 32 MB of RAM that keeps user code in its windows. After
  \<^verbatim>\<open>paging_init\<close> and any \<^verbatim>\<open>paging_set_user\<close> calls, kernel reads and writes of every address of RAM go to
  that same address; an access from ring 3 succeeds exactly when the address is in RAM and in the 4 MB page
  of one of the addresses made user-accessible; and everything beyond RAM faults.\<close>

theorem paging_protects:
  assumes "length (page_directory s) = 1024"
  shows "\<exists>s'. set_users vs (paging_init a_pd s) = Some s' \<and>
     (\<forall>user wr va. translate s' user wr va =
        (if va < PHYS_MEM_SIZE \<and> (user \<longrightarrow> (\<exists>v \<in> set vs. unat va div 0x400000 = unat v div 0x400000)) then Some va else None))"
proof -
  obtain s' where s': "set_users vs (paging_init a_pd s) = Some s'" "mapped_by ({} \<union> (\<lambda>v. unat v div 0x400000) ` set vs) s'"
    using set_users_mapped [OF paging_init_mapped [OF assms]] by blast
  show ?thesis using s'(1) translate_mapped [OF s'(2)] by (intro exI [of _ s']) (auto simp: image_iff)
qed

theorem paging_protects_witness:
  "\<exists>s'. set_users [0x800000] (paging_init 0x9000 \<lparr>page_directory = replicate 1024 0, cr0 = 0x11, cr3 = 0, cr4 = 0\<rparr>) = Some s'
     \<and> translate s' True True 0xBFFFFC = Some 0xBFFFFC \<and> translate s' True False 0x400000 = None
     \<and> translate s' False True 0x400000 = Some 0x400000 \<and> translate s' False False 0x2000000 = None"
proof -
  let ?s = "\<lparr>page_directory = replicate 1024 0, cr0 = 0x11, cr3 = 0, cr4 = 0\<rparr>"
  have "length (page_directory ?s) = 1024" by simp
  from paging_protects [OF this, of "[0x800000]" "0x9000"] show ?thesis by (auto simp: div_nat_eqI)
qed

end
