(* ===== verification/Bcache.thy ===== *)
theory Bcache
  imports Ata
begin

text \<open>
  \<^verbatim>\<open>fs/bcache.c\<close>: the write-back block cache between the file system and the ATA driver. The state is
  the array of slots, the clock hand, the two counters and, threaded through, the device. The driver's
  return codes are dropped, as the code drops them. \<open>None\<close> is a call that does not return.
  The abstraction is \<open>blocks\<close>, the disk as its clients see it; the laws of the interface
  \<open>block_store\<close>, on which the file system rests, are proved for the cache on top of any
  \<open>sector_disk\<close>.
\<close>

section \<open>The cache\<close>

abbreviation (input) "SLOTS \<equiv> 32 :: nat"
abbreviation (input) "BLOCK_SIZE \<equiv> 512 :: nat"

text \<open>The flags \<^verbatim>\<open>valid\<close> and \<^verbatim>\<open>dirty\<close> are \<^verbatim>\<open>int\<close>s that only hold 0 or 1.\<close>

record slot =
  blk :: u32
  valid :: bool
  dirty :: bool
  sdata :: "u8 list"

record 'd bcache =
  slots :: "slot list"
  hand :: u32
  hits :: u32
  misses :: u32
  dev :: 'd

definition bcache_init :: "'d bcache \<Rightarrow> 'd bcache" where
  "bcache_init s = s\<lparr>slots := map (\<lambda>x. x\<lparr>valid := False, dirty := False\<rparr>) (slots s), hand := 0, hits := 0, misses := 0\<rparr>"

fun find_from :: "nat \<Rightarrow> u32 \<Rightarrow> slot list \<Rightarrow> nat option" where
  "find_from i b [] = None"
| "find_from i b (x # xs) = (if valid x \<and> blk x = b then Some i else find_from (Suc i) b xs)"

definition find :: "u32 \<Rightarrow> slot list \<Rightarrow> nat option" where
  "find b xs = find_from 0 b xs"

text \<open>The slot is returned as its index. An index out of range would be undefined in C.\<close>

definition evict :: "'d io \<Rightarrow> 'd bcache \<Rightarrow> (nat \<times> 'd bcache) option" where
  "evict io s = (let i = unat (hand s) in
     if length (slots s) \<le> i then None
     else let x = slots s ! i; s = s\<lparr>hand := (hand s + 1) mod of_nat SLOTS\<rparr>
       in if valid x \<and> dirty x
          then do { (rc, d) \<leftarrow> ata_write_sector io (blk x) (sdata x) (dev s); Some (i, s\<lparr>dev := d\<rparr>) }
          else Some (i, s))"

definition bcache_read :: "'d io \<Rightarrow> u32 \<Rightarrow> 'd bcache \<Rightarrow> (u8 list \<times> 'd bcache) option" where
  "bcache_read io b s =
     (case find b (slots s) of
        Some i \<Rightarrow> Some (sdata (slots s ! i), s\<lparr>hits := hits s + 1\<rparr>)
      | None \<Rightarrow> do {
          (i, s) \<leftarrow> evict io (s\<lparr>misses := misses s + 1\<rparr>);
          (rc, bs, d) \<leftarrow> ata_read_sector io b (sdata (slots s ! i)) (dev s);
          Some (bs, s\<lparr>slots := (slots s)[i := \<lparr>blk = b, valid = True, dirty = False, sdata = bs\<rparr>], dev := d\<rparr>)
        })"

definition bcache_write :: "'d io \<Rightarrow> u32 \<Rightarrow> u8 list \<Rightarrow> 'd bcache \<Rightarrow> 'd bcache option" where
  "bcache_write io b buf s = do {
     (i, s) \<leftarrow> (case find b (slots s) of Some i \<Rightarrow> Some (i, s) | None \<Rightarrow> evict io s);
     Some (s\<lparr>slots := (slots s)[i := \<lparr>blk = b, valid = True, dirty = True, sdata = buf\<rparr>]\<rparr>)
   }"

fun sync_slots :: "'d io \<Rightarrow> slot list \<Rightarrow> 'd \<Rightarrow> (slot list \<times> 'd) option" where
  "sync_slots io [] d = Some ([], d)"
| "sync_slots io (x # xs) d =
     (if valid x \<and> dirty x then do {
        (rc, d) \<leftarrow> ata_write_sector io (blk x) (sdata x) d;
        (xs, d) \<leftarrow> sync_slots io xs d;
        Some (x\<lparr>dirty := False\<rparr> # xs, d)
      } else do { (xs, d) \<leftarrow> sync_slots io xs d; Some (x # xs, d) })"

definition bcache_sync :: "'d io \<Rightarrow> 'd bcache \<Rightarrow> 'd bcache option" where
  "bcache_sync io s = do { (xs, d) \<leftarrow> sync_slots io (slots s) (dev s); Some (s\<lparr>slots := xs, dev := d\<rparr>) }"

definition bcache_hits :: "'d bcache \<Rightarrow> u32" where
  "bcache_hits s = hits s"

definition bcache_misses :: "'d bcache \<Rightarrow> u32" where
  "bcache_misses s = misses s"

section \<open>The interface to the file system\<close>

record 's block_layer =
  read_block :: "u32 \<Rightarrow> 's \<Rightarrow> (u8 list \<times> 's) option"
  write_block :: "u32 \<Rightarrow> u8 list \<Rightarrow> 's \<Rightarrow> 's option"

definition cache_layer :: "'d io \<Rightarrow> 'd bcache block_layer" where
  "cache_layer io = \<lparr>read_block = bcache_read io, write_block = bcache_write io\<rparr>"

type_synonym disk = "u32 \<Rightarrow> u8 list"

text \<open>The laws: every read below the capacity returns the block of the logical disk \<open>view\<close> and
  changes nothing of it, every write updates it.\<close>

locale block_store =
  fixes st :: "'s block_layer"
    and view :: "'s \<Rightarrow> disk"
    and ok :: "'s \<Rightarrow> bool"
    and cap :: nat
  assumes view_length: "ok s \<Longrightarrow> unat b < cap \<Longrightarrow> length (view s b) = 512"
    and read_law: "ok s \<Longrightarrow> unat b < cap \<Longrightarrow> \<exists>s'. read_block st b s = Some (view s b, s') \<and> ok s' \<and> view s' = view s"
    and write_law: "ok s \<Longrightarrow> unat b < cap \<Longrightarrow> length buf = 512 \<Longrightarrow>
      \<exists>s'. write_block st b buf s = Some s' \<and> ok s' \<and> view s' = (view s)(b := buf)"

section \<open>The slots as a partial map\<close>

definition blocks :: "('d \<Rightarrow> disk) \<Rightarrow> 'd bcache \<Rightarrow> disk" where
  "blocks sec s b = (case find b (slots s) of Some i \<Rightarrow> sdata (slots s ! i) | None \<Rightarrow> sec (dev s) b)"

text \<open>No block is cached twice; clean slots agree with the disk.\<close>

definition slot_ok :: "nat \<Rightarrow> disk \<Rightarrow> slot \<Rightarrow> bool" where
  "slot_ok cap D x \<longleftrightarrow> length (sdata x) = 512
     \<and> (valid x \<longrightarrow> unat (blk x) < cap \<and> (dirty x \<or> sdata x = D (blk x)))"

definition uniq_slots :: "slot list \<Rightarrow> bool" where
  "uniq_slots xs \<longleftrightarrow> (\<forall>i < length xs. \<forall>j < length xs.
     valid (xs ! i) \<and> valid (xs ! j) \<and> blk (xs ! i) = blk (xs ! j) \<longrightarrow> i = j)"

definition slots_ok :: "nat \<Rightarrow> disk \<Rightarrow> slot list \<Rightarrow> bool" where
  "slots_ok cap D xs \<longleftrightarrow> length xs = 32 \<and> (\<forall>i < length xs. slot_ok cap D (xs ! i)) \<and> uniq_slots xs"

definition bc_ok :: "('d \<Rightarrow> bool) \<Rightarrow> ('d \<Rightarrow> disk) \<Rightarrow> nat \<Rightarrow> 'd bcache \<Rightarrow> bool" where
  "bc_ok good sec cap s \<longleftrightarrow> good (dev s) \<and> unat (hand s) < 32 \<and> slots_ok cap (sec (dev s)) (slots s)"

lemma uniq_slotsD:
  "uniq_slots xs \<Longrightarrow> i < length xs \<Longrightarrow> j < length xs \<Longrightarrow> valid (xs ! i) \<Longrightarrow> valid (xs ! j) \<Longrightarrow>
    blk (xs ! i) = blk (xs ! j) \<Longrightarrow> i = j"
  unfolding uniq_slots_def by blast

lemma find_from_Some:
  "find_from k b xs = Some i \<Longrightarrow> k \<le> i \<and> i - k < length xs \<and> valid (xs ! (i - k)) \<and> blk (xs ! (i - k)) = b"
  by (induction k b xs rule: find_from.induct) (auto split: if_splits simp: nth_Cons' Suc_diff_le)

lemma find_from_None: "find_from k b xs = None \<longleftrightarrow> (\<forall>x \<in> set xs. \<not> (valid x \<and> blk x = b))"
  by (induction k b xs rule: find_from.induct) auto

lemma find_Some: "find b xs = Some i \<Longrightarrow> i < length xs \<and> valid (xs ! i) \<and> blk (xs ! i) = b"
  using find_from_Some [of 0 b xs i] by (simp add: find_def)

lemma find_None: "find b xs = None \<longleftrightarrow> (\<forall>i < length xs. \<not> (valid (xs ! i) \<and> blk (xs ! i) = b))"
  by (auto simp: find_def find_from_None all_set_conv_all_nth)

lemma find_from_Suc: "find_from (Suc k) b xs = map_option Suc (find_from k b xs)"
  by (induction k b xs rule: find_from.induct) auto

lemma clean_slot: "\<not> dirty x \<Longrightarrow> x\<lparr>dirty := False\<rparr> = x"
  by (cases x) simp

lemma find_Nil: "find b [] = None"
  by (simp add: find_def)

lemma find_Cons: "find b (x # xs) = (if valid x \<and> blk x = b then Some 0 else map_option Suc (find b xs))"
  by (simp add: find_def find_from_Suc)

lemma find_map:
  assumes "\<And>x. valid (g x) = valid x" and "\<And>x. blk (g x) = blk x"
  shows "find b (map g xs) = find b xs"
  by (induction xs) (auto simp: find_Cons find_Nil assms)

lemma find_eq_Some:
  assumes "uniq_slots xs"
  shows "find b xs = Some i \<longleftrightarrow> i < length xs \<and> valid (xs ! i) \<and> blk (xs ! i) = b"
proof
  assume "find b xs = Some i"
  then show "i < length xs \<and> valid (xs ! i) \<and> blk (xs ! i) = b" by (rule find_Some)
next
  assume i: "i < length xs \<and> valid (xs ! i) \<and> blk (xs ! i) = b"
  then have "find b xs \<noteq> None" unfolding find_None by auto
  then obtain j where j: "find b xs = Some j" by auto
  with find_Some [OF j] i assms show "find b xs = Some i" unfolding uniq_slots_def by metis
qed

text \<open>Filling slot \<open>i\<close> with block \<open>b\<close>, which no other slot holds.\<close>

definition only_at :: "u32 \<Rightarrow> nat \<Rightarrow> slot list \<Rightarrow> bool" where
  "only_at b i xs \<longleftrightarrow> i < length xs \<and> (\<forall>j < length xs. valid (xs ! j) \<and> blk (xs ! j) = b \<longrightarrow> j = i)"

lemma uniq_slots_update:
  assumes "uniq_slots xs" and "only_at b i xs" and "valid x" and "blk x = b"
  shows "uniq_slots (xs[i := x])"
  using assms unfolding uniq_slots_def only_at_def length_list_update
  by (metis nth_list_update_eq nth_list_update_neq)

lemma find_update:
  assumes u: "uniq_slots xs" and o: "only_at b i xs" and x: "valid x" "blk x = b"
  shows "find b' (xs[i := x]) =
    (if b' = b then Some i else if valid (xs ! i) \<and> blk (xs ! i) = b' then None else find b' xs)"
proof -
  have i: "i < length xs" using o by (simp add: only_at_def)
  note e = find_eq_Some [OF uniq_slots_update [OF u o x]] find_eq_Some [OF u]
  have "find b (xs[i := x]) = Some i" using i x by (simp add: e)
  moreover have "find b' (xs[i := x]) = None" if "b' \<noteq> b" "valid (xs ! i) \<and> blk (xs ! i) = b'"
    using that uniq_slotsD [OF u] i x by (auto simp: find_None nth_list_update)
  moreover have "find b' (xs[i := x]) = find b' xs" if "b' \<noteq> b" "\<not> (valid (xs ! i) \<and> blk (xs ! i) = b')"
  proof -
    have "find b' (xs[i := x]) = Some k \<longleftrightarrow> find b' xs = Some k" for k
      using that i x by (cases "k = i") (auto simp: e)
    then show ?thesis by (metis not_Some_eq)
  qed
  ultimately show ?thesis by auto
qed

lemma slots_ok_update:
  assumes "slots_ok cap D xs" and "only_at b i xs" and "valid x" and "blk x = b" and "slot_ok cap D' x"
    and "\<forall>j < length xs. j \<noteq> i \<and> valid (xs ! j) \<longrightarrow> D' (blk (xs ! j)) = D (blk (xs ! j))"
  shows "slots_ok cap D' (xs[i := x])"
  using assms uniq_slots_update [OF _ assms(2-4)]
  by (auto simp: slots_ok_def nth_list_update slot_ok_def only_at_def)

section \<open>The cache on a working disk\<close>

context sector_disk
begin

abbreviation view :: "'d bcache \<Rightarrow> disk" where
  "view \<equiv> blocks sec"

abbreviation ok :: "'d bcache \<Rightarrow> bool" where
  "ok \<equiv> bc_ok good sec cap"

text \<open>Evicting writes the victim back: the disk then agrees with it, so it can be dropped.\<close>

lemma evict_returns:
  assumes "ok s"
  shows "\<exists>s'. evict io s = Some (unat (hand s), s') \<and> ok s' \<and> slots s' = slots s \<and> hits s' = hits s
    \<and> misses s' = misses s \<and> view s' = view s
    \<and> (valid (slots s ! unat (hand s)) \<longrightarrow> sec (dev s') (blk (slots s ! unat (hand s))) = sdata (slots s ! unat (hand s)))"
proof -
  let ?x = "slots s ! unat (hand s)"
  let ?s = "s\<lparr>hand := (hand s + 1) mod of_nat 32\<rparr>"
  have h: "unat (hand s) < length (slots s)" using assms by (simp add: bc_ok_def slots_ok_def)
  have x: "slot_ok cap (sec (dev s)) ?x" using assms h by (simp add: bc_ok_def slots_ok_def)
  have k: "unat ((hand s + 1) mod (32 :: u32)) < 32"
    by (simp add: unat_mod)
  show ?thesis
  proof (cases "valid ?x \<and> dirty ?x")
    case True
    with x write_sector [of "dev s" "blk ?x" "sdata ?x"] assms obtain d where
      d: "ata_write_sector io (blk ?x) (sdata ?x) (dev s) = Some (0, d)" "good d" "sec d = (sec (dev s))(blk ?x := sdata ?x)"
      by (auto simp: bc_ok_def slot_ok_def)
    have u: "uniq_slots (slots s)" using assms by (simp add: bc_ok_def slots_ok_def)
    have "slot_ok cap (sec d) (slots s ! j)" if "j < length (slots s)" for j
    proof (cases "j = unat (hand s)")
      case True
      then show ?thesis using x d(3) by (simp add: slot_ok_def)
    next
      case False
      then have "sec d (blk (slots s ! j)) = sec (dev s) (blk (slots s ! j))" if "valid (slots s ! j)"
        using uniq_slotsD [OF u \<open>j < length (slots s)\<close> h] that True d(3) by auto
      then show ?thesis using assms that by (auto simp: slot_ok_def bc_ok_def slots_ok_def)
    qed
    then have "slots_ok cap (sec d) (slots s)" using assms by (simp add: bc_ok_def slots_ok_def)
    moreover have "find (blk ?x) (slots s) = Some (unat (hand s))" using True h by (simp add: find_eq_Some [OF u])
    then have "view (?s\<lparr>dev := d\<rparr>) = view s"
      using d(3) by (auto simp: blocks_def fun_eq_iff split: option.splits)
    ultimately show ?thesis using True d h k by (auto simp: evict_def bc_ok_def Let_def)
  next
    case False
    moreover have "view ?s = view s" by (auto simp: blocks_def fun_eq_iff split: option.split)
    ultimately show ?thesis using x h k assms by (auto simp: evict_def bc_ok_def Let_def slot_ok_def)
  qed
qed

lemma only_at_missing: "find b xs = None \<Longrightarrow> i < length xs \<Longrightarrow> only_at b i xs"
  by (auto simp: only_at_def find_None)

lemma only_at_found: "uniq_slots xs \<Longrightarrow> find b xs = Some i \<Longrightarrow> only_at b i xs"
  using find_Some [of b xs i] uniq_slotsD [of xs _ i] by (auto simp: only_at_def)

text \<open>Reusing a slot whose contents the disk has.\<close>

lemma fill_slot:
  assumes "ok s" and "find b (slots s) = None" and "i < length (slots s)"
    and "valid (slots s ! i) \<Longrightarrow> sec (dev s) (blk (slots s ! i)) = sdata (slots s ! i)"
    and "s' = s\<lparr>slots := (slots s)[i := x], dev := d\<rparr>" and "valid x" "blk x = b" "slot_ok cap (sec d) x"
    and "good d" and "sec d = sec (dev s)"
  shows "ok s' \<and> view s' = (view s)(b := sdata x)"
proof -
  have u: "uniq_slots (slots s)" using assms(1) by (simp add: bc_ok_def slots_ok_def)
  note o = only_at_missing [OF assms(2,3)]
  have "slots_ok cap (sec d) (slots s')"
    using slots_ok_update [OF _ o assms(6,7,8), of "sec (dev s)"] assms(1,5,10) by (simp add: bc_ok_def)
  then have "ok s'" using assms by (simp add: bc_ok_def)
  moreover have "view s' b' = ((view s)(b := sdata x)) b'" for b'
  proof (cases "valid (slots s ! i) \<and> blk (slots s ! i) = b' \<and> b' \<noteq> b")
    case True
    then have "find b' (slots s) = Some i" using assms(3) by (simp add: find_eq_Some [OF u])
    with True show ?thesis using assms(4,5,10) find_update [OF u o assms(6,7), of b'] by (simp add: blocks_def)
  next
    case False
    then have "find b' (slots s') = (if b' = b then Some i else find b' (slots s))"
      using find_update [OF u o assms(6,7), of b'] assms(5) by auto
    moreover have "slots s' ! i = x" "find b' (slots s) = Some j \<Longrightarrow> b' \<noteq> b \<Longrightarrow> slots s' ! j = slots s ! j" for j
      using assms(3,5) False find_Some [of b' "slots s" j] by (auto simp: nth_list_update)
    ultimately show ?thesis using assms(5,10) by (auto simp: blocks_def split: option.splits)
  qed
  ultimately show ?thesis by auto
qed

lemma view_length: "ok s \<Longrightarrow> length (view s b) = 512"
  using find_Some [of b "slots s"] sector_length
  by (auto simp: blocks_def bc_ok_def slots_ok_def slot_ok_def split: option.splits)

lemma ok_misses: "ok (s\<lparr>misses := n\<rparr>) = ok s" "ok (s\<lparr>hits := n\<rparr>) = ok s"
    "view (s\<lparr>misses := n\<rparr>) = view s" "view (s\<lparr>hits := n\<rparr>) = view s"
  by (auto simp: bc_ok_def blocks_def fun_eq_iff split: option.split)

lemma bcache_read_returns:
  assumes "ok s" and "unat b < cap"
  shows "\<exists>s'. bcache_read io b s = Some (view s b, s') \<and> ok s' \<and> view s' = view s \<and> find b (slots s') \<noteq> None
    \<and> (if find b (slots s) = None then misses s' = misses s + 1 \<and> hits s' = hits s
       else misses s' = misses s \<and> hits s' = hits s + 1 \<and> dev s' = dev s)"
proof (cases "find b (slots s)")
  case (Some i)
  then show ?thesis using assms(1) by (auto simp: bcache_read_def ok_misses blocks_def)
next
  case None
  let ?s = "s\<lparr>misses := misses s + 1\<rparr>" and ?i = "unat (hand s)"
  have h: "?i < length (slots s)" using assms(1) by (simp add: bc_ok_def slots_ok_def)
  from evict_returns [of ?s] assms(1) obtain s1 where s1: "evict io ?s = Some (?i, s1)" "ok s1" "slots s1 = slots s"
    "hits s1 = hits s" "misses s1 = misses s + 1" "view s1 = view s"
    "valid (slots s1 ! ?i) \<longrightarrow> sec (dev s1) (blk (slots s1 ! ?i)) = sdata (slots s1 ! ?i)"
    by (auto simp: ok_misses)
  have n: "find b (slots s1) = None" using None s1(3) by simp
  from read_sector [OF _ assms(2), of "dev s1"] s1(2) obtain d where d: "ata_read_sector io b (sdata (slots s1 ! ?i)) (dev s1) =
    Some (0, sec (dev s1) b, d)" "good d" "sec d = sec (dev s1)" by (auto simp: bc_ok_def)
  define x where "x = \<lparr>blk = b, valid = True, dirty = False, sdata = sec (dev s1) b\<rparr>"
  define s2 where "s2 = s1\<lparr>slots := (slots s1)[?i := x], dev := d\<rparr>"
  have f: "ok s2 \<and> view s2 = (view s1)(b := sdata x)"
    by (rule fill_slot [OF s1(2) n _ _ s2_def]) (use h s1(3,7) d assms(2) in \<open>auto simp: x_def slot_ok_def sector_length\<close>)
  have v: "view s b = sec (dev s1) b" using n s1(6) by (simp add: blocks_def flip: s1(6))
  have "find b (slots s2) \<noteq> None" using h s1(3) by (auto simp: s2_def find_None x_def)
  moreover have "bcache_read io b s = Some (view s b, s2)" using None d(1) by (simp add: bcache_read_def s1(1) x_def s2_def v)
  ultimately show ?thesis using f v s1 None by (auto simp: x_def s2_def fun_upd_idem)
qed

lemma bcache_write_returns:
  assumes "ok s" and "unat b < cap" and "length buf = 512"
  shows "\<exists>s'. bcache_write io b buf s = Some s' \<and> ok s' \<and> view s' = (view s)(b := buf) \<and> find b (slots s') \<noteq> None
    \<and> (find b (slots s) \<noteq> None \<longrightarrow> dev s' = dev s)"
proof -
  define x where "x = \<lparr>blk = b, valid = True, dirty = True, sdata = buf\<rparr>"
  have x: "slot_ok cap D x" for D using assms(2,3) by (simp add: x_def slot_ok_def)
  have u: "uniq_slots (slots s)" and l: "length (slots s) = 32" and hh: "unat (hand s) < 32"
    using assms(1) by (simp_all add: bc_ok_def slots_ok_def)
  show ?thesis
  proof (cases "find b (slots s)")
    case (Some i)
    let ?s = "s\<lparr>slots := (slots s)[i := x]\<rparr>"
    note o = only_at_found [OF u Some]
    have i: "i < length (slots s)" "valid (slots s ! i)" "blk (slots s ! i) = b" using find_Some [OF Some] by auto
    have "slots_ok cap (sec (dev s)) ((slots s)[i := x])"
      by (rule slots_ok_update [OF _ o]) (use assms(1) x in \<open>auto simp: x_def bc_ok_def\<close>)
    then have "ok ?s" using assms(1) by (simp add: bc_ok_def)
    moreover have f: "find b' (slots ?s) = find b' (slots s)" for b'
      using find_update [OF u o, of x b'] i Some by (auto simp: x_def)
    then have "view ?s b' = ((view s)(b := buf)) b'" for b'
      using i Some find_Some [of b' "slots s"] by (auto simp: blocks_def x_def nth_list_update split: option.splits)
    ultimately show ?thesis using Some f [of b] by (auto simp: bcache_write_def x_def)
  next
    case None
    let ?i = "unat (hand s)"
    from evict_returns [OF assms(1)] obtain s1 where s1: "evict io s = Some (?i, s1)" "ok s1" "slots s1 = slots s"
      "view s1 = view s" "valid (slots s1 ! ?i) \<longrightarrow> sec (dev s1) (blk (slots s1 ! ?i)) = sdata (slots s1 ! ?i)" by auto
    have n: "find b (slots s1) = None" using None s1(3) by simp
    define s2 where "s2 = s1\<lparr>slots := (slots s1)[?i := x], dev := dev s1\<rparr>"
    have "ok s2 \<and> view s2 = (view s1)(b := sdata x)"
      by (rule fill_slot [OF s1(2) n _ _ s2_def]) (use l hh s1 x in \<open>auto simp: x_def bc_ok_def\<close>)
    moreover have "find b (slots s2) \<noteq> None" using l hh s1(3) by (auto simp: s2_def find_None x_def)
    ultimately show ?thesis using None s1 by (auto simp: bcache_write_def x_def s2_def)
  qed
qed

lemma sync_slots_returns:
  assumes "good d" and "\<forall>i < length xs. slot_ok cap (sec d) (xs ! i)" and "uniq_slots xs"
  shows "\<exists>d'. sync_slots io xs d = Some (map (\<lambda>x. if valid x then x\<lparr>dirty := False\<rparr> else x) xs, d') \<and> good d'
    \<and> (\<forall>b. sec d' b = (case find b xs of Some i \<Rightarrow> sdata (xs ! i) | None \<Rightarrow> sec d b))"
  using assms
proof (induction xs arbitrary: d)
  case Nil
  then show ?case by (simp add: find_def)
next
  case (Cons x xs)
  have u: "uniq_slots xs" using Cons.prems(3) unfolding uniq_slots_def by (metis Suc_inject Suc_mono length_Cons nth_Cons_Suc)
  have x: "slot_ok cap (sec d) x" using Cons.prems(2) by force
  have n: "find (blk x) xs = None" if "valid x"
    unfolding find_None
  proof (intro allI impI notI)
    fix i
    assume "i < length xs" "valid (xs ! i) \<and> blk (xs ! i) = blk x"
    with uniq_slotsD [OF Cons.prems(3), of "Suc i" 0] that show False by simp
  qed
  obtain d1 where d1: "good d1" "sync_slots io (x # xs) d = do { (xs, d) \<leftarrow> sync_slots io xs d1;
      Some ((if valid x then x\<lparr>dirty := False\<rparr> else x) # xs, d) }"
    "sec d1 = (if valid x then (sec d)(blk x := sdata x) else sec d)"
  proof (cases "valid x \<and> dirty x")
    case True
    with x write_sector [OF Cons.prems(1), of "blk x" "sdata x"] obtain d' where
      "ata_write_sector io (blk x) (sdata x) d = Some (0, d')" "good d'" "sec d' = (sec d)(blk x := sdata x)"
      by (auto simp: slot_ok_def)
    with True show ?thesis by (intro that [of d']) auto
  next
    case False
    then have "(if valid x then (sec d)(blk x := sdata x) else sec d) = sec d"
      using x by (auto simp: slot_ok_def)
    with False Cons.prems(1) show ?thesis by (cases "valid x") (auto simp: clean_slot intro!: that [of d])
  qed
  have "slot_ok cap (sec d1) (xs ! i)" if "i < length xs" for i
    using Cons.prems(2) [rule_format, of "Suc i"] that n d1(3) by (auto simp: slot_ok_def find_None)
  from Cons.IH [OF d1(1) _ u] this obtain d' where
    d': "sync_slots io xs d1 = Some (map (\<lambda>x. if valid x then x\<lparr>dirty := False\<rparr> else x) xs, d')" "good d'"
      "\<forall>b. sec d' b = (case find b xs of Some i \<Rightarrow> sdata (xs ! i) | None \<Rightarrow> sec d1 b)" by auto
  then show ?case using d1(2,3) n by (auto simp: find_Cons split: option.splits)
qed

lemma bcache_sync_returns:
  assumes "ok s"
  shows "\<exists>s'. bcache_sync io s = Some s' \<and> ok s' \<and> view s' = view s \<and> sec (dev s') = view s
    \<and> (\<forall>i < 32. valid (slots s' ! i) \<longrightarrow> \<not> dirty (slots s' ! i))"
proof -
  let ?ys = "map (\<lambda>x. if valid x then x\<lparr>dirty := False\<rparr> else x) (slots s)"
  have s: "good (dev s)" "\<forall>i < length (slots s). slot_ok cap (sec (dev s)) (slots s ! i)" "uniq_slots (slots s)"
    "length (slots s) = 32" "unat (hand s) < 32" using assms by (auto simp: bc_ok_def slots_ok_def)
  from sync_slots_returns [OF s(1-3)] obtain d where d: "sync_slots io (slots s) (dev s) = Some (?ys, d)" "good d"
    "sec d = view s" by (auto simp: blocks_def fun_eq_iff)
  define s' where "s' = s\<lparr>slots := ?ys, dev := d\<rparr>"
  have u: "uniq_slots ?ys" unfolding uniq_slots_def length_map
  proof (intro allI impI)
    fix i j
    assume a: "i < length (slots s)" "j < length (slots s)"
      "valid (?ys ! i) \<and> valid (?ys ! j) \<and> blk (?ys ! i) = blk (?ys ! j)"
    then show "i = j" by (intro uniq_slotsD [OF s(3) a(1,2)]) (auto split: if_splits)
  qed
  have f: "find b ?ys = find b (slots s)" for b by (rule find_map) auto
  have "slot_ok cap (sec d) (?ys ! i)" if "i < length (slots s)" for i
    using that s(2,3) d(3) find_eq_Some [OF s(3), of "blk (slots s ! i)" i] by (auto simp: slot_ok_def blocks_def)
  then have "ok s'" using s d(2) u by (simp add: bc_ok_def slots_ok_def s'_def)
  moreover have "view s' = view s"
    using d(3) find_Some [of _ "slots s"] by (auto simp: fun_eq_iff s'_def blocks_def f split: option.splits)
  ultimately show ?thesis using d s(4) by (auto simp: bcache_sync_def s'_def)
qed

text \<open>A boot: the slots are cleared, so the clients see the disk itself.\<close>

lemma bcache_init_boot:
  assumes "good (dev s)" and "length (slots s) = 32" and "\<forall>i < 32. length (sdata (slots s ! i)) = 512"
  shows "ok (bcache_init s)" and "view (bcache_init s) = sec (dev s)"
proof -
  have "find b (slots (bcache_init s)) = None" for b by (simp add: bcache_init_def find_None)
  then show "view (bcache_init s) = sec (dev s)" by (auto simp: blocks_def fun_eq_iff bcache_init_def)
  show "ok (bcache_init s)" using assms by (auto simp: bcache_init_def bc_ok_def slots_ok_def slot_ok_def uniq_slots_def)
qed

end

sublocale sector_disk \<subseteq> bc: block_store "cache_layer io" "blocks sec" "bc_ok good sec cap" cap
proof unfold_locales
  fix s :: "'d bcache" and b :: u32 and buf :: "u8 list"
  assume "bc_ok good sec cap s" "unat b < cap"
  then show "\<exists>s'. read_block (cache_layer io) b s = Some (blocks sec s b, s') \<and> bc_ok good sec cap s' \<and> blocks sec s' = blocks sec s"
    using bcache_read_returns by (fastforce simp: cache_layer_def)
  assume "length buf = 512"
  with \<open>bc_ok good sec cap s\<close> \<open>unat b < cap\<close>
  show "\<exists>s'. write_block (cache_layer io) b buf s = Some s' \<and> bc_ok good sec cap s' \<and> blocks sec s' = (blocks sec s)(b := buf)"
    using bcache_write_returns [of s b buf] by (auto simp: cache_layer_def)
qed (rule view_length)

section \<open>Properties\<close>

text \<open>The memory image of a kernel that has just been loaded: the statics are zero.\<close>

definition cold_cache :: "'d \<Rightarrow> 'd bcache" where
  "cold_cache d = \<lparr>slots = replicate 32 \<lparr>blk = 0, valid = False, dirty = False, sdata = replicate 512 0\<rparr>,
     hand = 0, hits = 0, misses = 0, dev = d\<rparr>"

lemma cold_cache_ok:
  assumes "sector_disk io good sec cap" and "good d"
  shows "bc_ok good sec cap (bcache_init (cold_cache d))"
  using assms(2) by (intro sector_disk.bcache_init_boot(1) [OF assms(1)]) (simp_all add: cold_cache_def)

lemma sim_cold: "bc_ok (\<lambda>d. s_phase d = Ready) sim_sec 32768 (bcache_init (cold_cache sim_blank))"
  by (rule cold_cache_ok [OF sim.sector_disk_axioms]) (simp add: sim_blank_def)

text \<open>C7. The cache is transparent: on a working disk a read returns the current contents of the block and
  leaves the logical disk as it is, and a write changes exactly that block of it, whatever is
  cached, evicted or written back on the way. Both return and keep the cache well-formed.\<close>

theorem bcache_transparent:
  assumes "sector_disk io good sec cap" and "bc_ok good sec cap s" and "unat b < cap" and "length buf = 512"
  shows "(\<exists>s'. bcache_read io b s = Some (blocks sec s b, s') \<and> bc_ok good sec cap s' \<and> blocks sec s' = blocks sec s)
    \<and> (\<exists>s'. bcache_write io b buf s = Some s' \<and> bc_ok good sec cap s' \<and> blocks sec s' = (blocks sec s)(b := buf))"
  using sector_disk.bcache_read_returns [OF assms(1-3)] sector_disk.bcache_write_returns [OF assms] by auto

theorem bcache_transparent_witness:
  "\<exists>s'. bcache_write sim_io 9 (replicate 512 1) (bcache_init (cold_cache sim_blank)) = Some s'
    \<and> blocks sim_sec s' 9 = replicate 512 1"
  using bcache_transparent [OF sim.sector_disk_axioms sim_cold, of 9 "replicate 512 1"] by auto

text \<open>\<^verbatim>\<open>bcache_sync\<close> returns, leaves no dirty slot and makes the disk equal to what clients saw: a
  kernel that boots afterwards with an empty cache on that disk reads the same contents.\<close>

theorem bcache_sync_durable:
  assumes "sector_disk io good sec cap" and "bc_ok good sec cap s"
  shows "\<exists>s'. bcache_sync io s = Some s' \<and> blocks sec s' = blocks sec s
    \<and> (\<forall>i < 32. valid (slots s' ! i) \<longrightarrow> \<not> dirty (slots s' ! i))
    \<and> bc_ok good sec cap (bcache_init (cold_cache (dev s')))
    \<and> blocks sec (bcache_init (cold_cache (dev s'))) = blocks sec s"
proof -
  from sector_disk.bcache_sync_returns [OF assms] obtain s' where
    s': "bcache_sync io s = Some s'" "bc_ok good sec cap s'" "blocks sec s' = blocks sec s" "sec (dev s') = blocks sec s"
    "\<forall>i < 32. valid (slots s' ! i) \<longrightarrow> \<not> dirty (slots s' ! i)" by auto
  then have g: "good (dev s')" by (simp add: bc_ok_def)
  with cold_cache_ok [OF assms(1)] s' sector_disk.bcache_init_boot(2) [OF assms(1), of "cold_cache (dev s')"]
  show ?thesis by (simp add: cold_cache_def)
qed

theorem bcache_sync_durable_witness:
  "\<exists>s'. bcache_sync sim_io (bcache_init (cold_cache sim_blank)) = Some s'
    \<and> blocks sim_sec (bcache_init (cold_cache (dev s'))) = blocks sim_sec (bcache_init (cold_cache sim_blank))"
  using bcache_sync_durable [OF sim.sector_disk_axioms sim_cold] by auto

text \<open>A block just read or just written is cached: the next read of it counts as a hit, returns the
  current contents and does not touch the device.\<close>

theorem bcache_hit:
  assumes "sector_disk io good sec cap" and "bc_ok good sec cap s" and "unat b < cap" and "length bs = 512"
    and "bcache_read io b s = Some (bs, s1) \<or> bcache_write io b bs s = Some s1"
  shows "\<exists>s2. bcache_read io b s1 = Some (bs, s2) \<and> dev s2 = dev s1
    \<and> bcache_hits s2 = bcache_hits s1 + 1 \<and> bcache_misses s2 = bcache_misses s1"
proof -
  have "bc_ok good sec cap s1 \<and> blocks sec s1 b = bs \<and> find b (slots s1) \<noteq> None"
    using assms(5) sector_disk.bcache_read_returns [OF assms(1-3)] sector_disk.bcache_write_returns [OF assms(1-4)] by auto
  with sector_disk.bcache_read_returns [OF assms(1) _ assms(3), of s1] show ?thesis
    by (auto simp: bcache_hits_def bcache_misses_def)
qed

theorem bcache_hit_witness:
  "\<exists>s1 s2. bcache_read sim_io 5 (bcache_init (cold_cache sim_blank)) = Some (replicate 512 0, s1)
    \<and> bcache_read sim_io 5 s1 = Some (replicate 512 0, s2) \<and> bcache_hits s2 = bcache_hits s1 + 1"
proof -
  have "blocks sim_sec (bcache_init (cold_cache sim_blank)) 5 = replicate 512 0"
    using sim.bcache_init_boot(2) [of "cold_cache sim_blank"]
    by (simp add: cold_cache_def sim_blank_def sim_sec_def)
  with sim.bcache_read_returns [OF sim_cold, of 5] obtain s1 where
    s1: "bcache_read sim_io 5 (bcache_init (cold_cache sim_blank)) = Some (replicate 512 0, s1)" by auto
  from bcache_hit [OF sim.sector_disk_axioms sim_cold, of 5 "replicate 512 0" s1] s1
  show ?thesis by auto
qed


definition err_io :: "ata_sim io" where
  "err_io = sim_io\<lparr>inb := \<lambda>port d. (1, d)\<rparr>"


end
