(* ===== verification/Sfs.thy ===== *)
theory Sfs
  imports Bcache Bitset Cstring
begin

text \<open>
  \<^verbatim>\<open>fs/sfs.c\<close>: the on-disk file system, function by function, over the block layer (the record
  \<open>block_layer\<close>, which \<open>cache_layer\<close> instantiates with the block cache as \<^verbatim>\<open>read_block\<close> and
  \<^verbatim>\<open>write_block\<close> do). Disk structures are 512-byte buffers read and written at the offsets of the C
  structs. Names are the bytes before the terminating NUL; a \<^verbatim>\<open>char*\<close> argument with data is the
  list of bytes it points to. \<open>None\<close> is a call that does not return or is undefined in C (an
  access outside a buffer).
\<close>

section \<open>Layout\<close>

abbreviation (input) "SFS_MAGIC \<equiv> 0x4A534653 :: u32"
abbreviation (input) "DIRECT \<equiv> 14 :: nat"
abbreviation (input) "MAX_INODES \<equiv> 64 :: nat"
abbreviation (input) "INODES_PER_BLOCK \<equiv> 8 :: nat"
abbreviation (input) "INODE_TABLE_START \<equiv> 1 :: nat"
abbreviation (input) "INODE_TABLE_BLOCKS \<equiv> 8 :: nat"
abbreviation (input) "BITMAP_BLOCK \<equiv> 9 :: u32"
abbreviation (input) "DATA_START \<equiv> 16 :: u32"
abbreviation (input) "MAX_DATA_BLOCKS \<equiv> 2048 :: nat"
abbreviation (input) "DIRENTS_PER_BLOCK \<equiv> 16 :: nat"
abbreviation (input) "SFS_FREE \<equiv> 0 :: u32"
abbreviation (input) "SFS_FILE \<equiv> 1 :: u32"
abbreviation (input) "SFS_DIR \<equiv> 2 :: u32"
abbreviation (input) "SFS_ROOT \<equiv> 0 :: int"

record inode_t =
  itype :: u32
  isize :: u32
  iblocks :: "u32 list"

definition zero_inode :: inode_t where
  "zero_inode = \<lparr>itype = 0, isize = 0, iblocks = replicate DIRECT 0\<rparr>"

text \<open>The 64 bytes of an \<^verbatim>\<open>inode_t\<close>, as \<^verbatim>\<open>memcpy\<close> moves them.\<close>

definition enc_inode :: "inode_t \<Rightarrow> u8 list" where
  "enc_inode n = le32 (itype n) @ le32 (isize n) @ concat (map le32 (iblocks n))"

definition dec_inode :: "u8 list \<Rightarrow> inode_t" where
  "dec_inode bs = \<lparr>itype = get32 bs 0, isize = get32 bs 4, iblocks = map (\<lambda>k. get32 bs (8 + 4 * k)) [0..<DIRECT]\<rparr>"

text \<open>A directory entry \<^verbatim>\<open>de[e]\<close> in a block buffer: \<^verbatim>\<open>inum1\<close> and the bytes from \<^verbatim>\<open>name\<close> on.\<close>

definition de_inum1 :: "u8 list \<Rightarrow> nat \<Rightarrow> u32" where
  "de_inum1 buf e = get32 buf (32 * e)"

definition de_name :: "u8 list \<Rightarrow> nat \<Rightarrow> u8 list" where
  "de_name buf e = drop (32 * e + 4) buf"

text \<open>The three statements that fill an entry.\<close>

definition set_dirent :: "nat \<Rightarrow> int \<Rightarrow> u8 list \<Rightarrow> u8 list \<Rightarrow> u8 list" where
  "set_dirent e child name buf =
     (let buf = put_at (32 * e) (le32 (word_of_int child + 1)) buf;
          buf = put_at (32 * e + 4) (strncpy_bytes 27 name) buf
      in put_at (32 * e + 4 + 27) [0] buf)"

text \<open>\<^verbatim>\<open>(int)de[e].inum1 - 1\<close>, undefined when it overflows.\<close>

definition inum_of :: "u32 \<Rightarrow> int option" where
  "inum_of w = (if sint w = INT_MIN then None else Some (sint w - 1))"

section \<open>Inode access\<close>

text \<open>C division and remainder truncate; a negative offset would leave the buffer.\<close>

definition inode_pos :: "int \<Rightarrow> (u32 \<times> nat) option" where
  "inode_pos i =
     (let q = (if i < 0 then - ((- i) div 8) else i div 8); r = i - q * 8
      in if r < 0 then None else Some (word_of_int (int INODE_TABLE_START + q), nat r * 64))"

definition read_inode :: "'s block_layer \<Rightarrow> int \<Rightarrow> 's \<Rightarrow> (inode_t \<times> 's) option" where
  "read_inode st i s = do {
     (b, off) \<leftarrow> inode_pos i;
     (buf, s) \<leftarrow> read_block st b s;
     Some (dec_inode (take 64 (drop off buf)), s)
   }"

definition write_inode :: "'s block_layer \<Rightarrow> int \<Rightarrow> inode_t \<Rightarrow> 's \<Rightarrow> 's option" where
  "write_inode st i n s = do {
     (b, off) \<leftarrow> inode_pos i;
     (buf, s) \<leftarrow> read_block st b s;
     write_block st b (put_at off (enc_inode n) buf) s
   }"

fun alloc_inode_loop :: "'s block_layer \<Rightarrow> nat \<Rightarrow> nat \<Rightarrow> 's \<Rightarrow> (int \<times> 's) option" where
  "alloc_inode_loop st 0 i s = Some (- 1, s)"
| "alloc_inode_loop st (Suc k) i s = do {
     (n, s) \<leftarrow> read_inode st (int i) s;
     if itype n = SFS_FREE then Some (int i, s) else alloc_inode_loop st k (Suc i) s
   }"

definition alloc_inode :: "'s block_layer \<Rightarrow> 's \<Rightarrow> (int \<times> 's) option" where
  "alloc_inode st s = alloc_inode_loop st MAX_INODES 0 s"

section \<open>Data block bitmap\<close>

definition bm_test :: "u8 list \<Rightarrow> nat \<Rightarrow> bool" where
  "bm_test bm i \<longleftrightarrow> bm ! (i div 8) AND push_bit (i mod 8) 1 \<noteq> 0"

definition bm_set :: "nat \<Rightarrow> u8 list \<Rightarrow> u8 list" where
  "bm_set i bm = bm[i div 8 := bm ! (i div 8) OR push_bit (i mod 8) 1]"

definition bm_clear :: "nat \<Rightarrow> u8 list \<Rightarrow> u8 list" where
  "bm_clear i bm = bm[i div 8 := bm ! (i div 8) AND NOT (push_bit (i mod 8) 1)]"

fun alloc_block_loop :: "'s block_layer \<Rightarrow> u8 list \<Rightarrow> nat \<Rightarrow> nat \<Rightarrow> 's \<Rightarrow> (u32 \<times> 's) option" where
  "alloc_block_loop st bm 0 i s = Some (0, s)"
| "alloc_block_loop st bm (Suc k) i s =
     (if \<not> bm_test bm i then do {
        s \<leftarrow> write_block st BITMAP_BLOCK (bm_set i bm) s;
        s \<leftarrow> write_block st (DATA_START + of_nat i) (replicate BLOCK_SIZE 0) s;
        Some (DATA_START + of_nat i, s)
      } else alloc_block_loop st bm k (Suc i) s)"

definition alloc_block :: "'s block_layer \<Rightarrow> 's \<Rightarrow> (u32 \<times> 's) option" where
  "alloc_block st s = do {
     (bm, s) \<leftarrow> read_block st BITMAP_BLOCK s;
     alloc_block_loop st bm MAX_DATA_BLOCKS 0 s
   }"

definition free_block :: "'s block_layer \<Rightarrow> u32 \<Rightarrow> 's \<Rightarrow> 's option" where
  "free_block st absblk s =
     (if absblk < DATA_START then Some s
      else let i = unat (absblk - DATA_START) in do {
        (bm, s) \<leftarrow> read_block st BITMAP_BLOCK s;
        if i div 8 < BLOCK_SIZE then write_block st BITMAP_BLOCK (bm_clear i bm) s else None
      })"

section \<open>Directory helpers\<close>

text \<open>The inner loops: the first entry in use with the given name, the first free entry.\<close>

fun find_entry :: "u8 list \<Rightarrow> u8 list \<Rightarrow> nat \<Rightarrow> nat \<Rightarrow> nat option option" where
  "find_entry name buf 0 e = Some None"
| "find_entry name buf (Suc k) e =
     (if de_inum1 buf e \<noteq> 0 then do {
        r \<leftarrow> strcmp_l (de_name buf e) (name @ [0]);
        if r = 0 then Some (Some e) else find_entry name buf k (Suc e)
      } else find_entry name buf k (Suc e))"

fun free_entry :: "u8 list \<Rightarrow> nat \<Rightarrow> nat \<Rightarrow> nat option" where
  "free_entry buf 0 e = None"
| "free_entry buf (Suc k) e = (if de_inum1 buf e = 0 then Some e else free_entry buf k (Suc e))"

fun dir_lookup_loop :: "'s block_layer \<Rightarrow> u8 list \<Rightarrow> u32 list \<Rightarrow> 's \<Rightarrow> (int \<times> 's) option" where
  "dir_lookup_loop st name [] s = Some (- 1, s)"
| "dir_lookup_loop st name (b # bs) s =
     (if b = 0 then Some (- 1, s) else do {
        (buf, s) \<leftarrow> read_block st b s;
        f \<leftarrow> find_entry name buf DIRENTS_PER_BLOCK 0;
        case f of
          Some e \<Rightarrow> do { r \<leftarrow> inum_of (de_inum1 buf e); Some (r, s) }
        | None \<Rightarrow> dir_lookup_loop st name bs s
      })"

definition dir_lookup :: "'s block_layer \<Rightarrow> int \<Rightarrow> u8 list \<Rightarrow> 's \<Rightarrow> (int \<times> 's) option" where
  "dir_lookup st dir name s = do {
     (d, s) \<leftarrow> read_inode st dir s;
     if itype d \<noteq> SFS_DIR then Some (- 1, s) else dir_lookup_loop st name (iblocks d) s
   }"

text \<open>The first loop of \<^verbatim>\<open>dir_add\<close> (whether a free entry was filled), and the second, which grows the
  directory.\<close>

fun dir_add_reuse :: "'s block_layer \<Rightarrow> u8 list \<Rightarrow> int \<Rightarrow> u32 list \<Rightarrow> 's \<Rightarrow> (bool \<times> 's) option" where
  "dir_add_reuse st name child [] s = Some (False, s)"
| "dir_add_reuse st name child (b # bs) s =
     (if b = 0 then Some (False, s) else do {
        (buf, s) \<leftarrow> read_block st b s;
        case free_entry buf DIRENTS_PER_BLOCK 0 of
          Some e \<Rightarrow> do { s \<leftarrow> write_block st b (set_dirent e child name buf) s; Some (True, s) }
        | None \<Rightarrow> dir_add_reuse st name child bs s
      })"

fun dir_add_grow :: "'s block_layer \<Rightarrow> int \<Rightarrow> u8 list \<Rightarrow> int \<Rightarrow> inode_t \<Rightarrow> nat \<Rightarrow> nat \<Rightarrow> 's \<Rightarrow> (int \<times> 's) option" where
  "dir_add_grow st dir name child d 0 b s = Some (- 1, s)"
| "dir_add_grow st dir name child d (Suc k) b s =
     (if iblocks d ! b = 0 then do {
        (nb, s) \<leftarrow> alloc_block st s;
        if nb = 0 then Some (- 1, s)
        else do {
          let d = d\<lparr>iblocks := (iblocks d)[b := nb], isize := isize d + of_nat BLOCK_SIZE\<rparr>;
          s \<leftarrow> write_inode st dir d s;
          s \<leftarrow> write_block st nb (set_dirent 0 child name (replicate BLOCK_SIZE 0)) s;
          Some (0, s)
        }
      } else dir_add_grow st dir name child d k (Suc b) s)"

definition dir_add :: "'s block_layer \<Rightarrow> int \<Rightarrow> u8 list \<Rightarrow> int \<Rightarrow> 's \<Rightarrow> (int \<times> 's) option" where
  "dir_add st dir name child s = do {
     (d, s) \<leftarrow> read_inode st dir s;
     (found, s) \<leftarrow> dir_add_reuse st name child (iblocks d) s;
     if found then Some (0, s) else dir_add_grow st dir name child d DIRECT 0 s
   }"

fun dir_remove_loop :: "'s block_layer \<Rightarrow> u8 list \<Rightarrow> u32 list \<Rightarrow> 's \<Rightarrow> (int \<times> 's) option" where
  "dir_remove_loop st name [] s = Some (- 1, s)"
| "dir_remove_loop st name (b # bs) s =
     (if b = 0 then Some (- 1, s) else do {
        (buf, s) \<leftarrow> read_block st b s;
        f \<leftarrow> find_entry name buf DIRENTS_PER_BLOCK 0;
        case f of
          Some e \<Rightarrow> do { s \<leftarrow> write_block st b (put_at (32 * e) (le32 0) buf) s; Some (0, s) }
        | None \<Rightarrow> dir_remove_loop st name bs s
      })"

definition dir_remove :: "'s block_layer \<Rightarrow> int \<Rightarrow> u8 list \<Rightarrow> 's \<Rightarrow> (int \<times> 's) option" where
  "dir_remove st dir name s = do {
     (d, s) \<leftarrow> read_inode st dir s;
     dir_remove_loop st name (iblocks d) s
   }"

section \<open>Format and mount\<close>

definition DOT :: "u8 list" where "DOT = [0x2E]"
definition DOTDOT :: "u8 list" where "DOTDOT = [0x2E, 0x2E]"

definition superblock :: "u8 list" where
  "superblock = put_at 0 (le32 SFS_MAGIC @ le32 (of_nat MAX_INODES) @ le32 DATA_START @ le32 (of_nat MAX_DATA_BLOCKS))
     (replicate BLOCK_SIZE 0)"

fun write_blocks :: "'s block_layer \<Rightarrow> u8 list \<Rightarrow> nat \<Rightarrow> u32 \<Rightarrow> 's \<Rightarrow> 's option" where
  "write_blocks st buf 0 b s = Some s"
| "write_blocks st buf (Suc k) b s = do { s \<leftarrow> write_block st b buf s; write_blocks st buf k (b + 1) s }"

definition format :: "'s block_layer \<Rightarrow> 's \<Rightarrow> 's option" where
  "format st s = do {
     s \<leftarrow> write_block st 0 superblock s;
     let buf = replicate BLOCK_SIZE 0;
     s \<leftarrow> write_blocks st buf INODE_TABLE_BLOCKS (of_nat INODE_TABLE_START) s;
     s \<leftarrow> write_block st BITMAP_BLOCK buf s;
     s \<leftarrow> write_inode st SFS_ROOT (zero_inode\<lparr>itype := SFS_DIR\<rparr>) s;
     (r, s) \<leftarrow> dir_add st SFS_ROOT DOT SFS_ROOT s;
     (r, s) \<leftarrow> dir_add st SFS_ROOT DOTDOT SFS_ROOT s;
     Some s
   }"

definition sfs_init :: "'s block_layer \<Rightarrow> 's \<Rightarrow> 's option" where
  "sfs_init st s = do {
     (buf, s) \<leftarrow> read_block st 0 s;
     if get32 buf 0 \<noteq> SFS_MAGIC then format st s else Some s
   }"

section \<open>Public operations\<close>

definition sfs_lookup :: "'s block_layer \<Rightarrow> int \<Rightarrow> u8 list \<Rightarrow> 's \<Rightarrow> (int \<times> 's) option" where
  "sfs_lookup st dir name s = dir_lookup st dir name s"

definition sfs_type :: "'s block_layer \<Rightarrow> int \<Rightarrow> 's \<Rightarrow> (int \<times> 's) option" where
  "sfs_type st i s = do { (n, s) \<leftarrow> read_inode st i s; Some (sint (itype n), s) }"

definition sfs_size :: "'s block_layer \<Rightarrow> int \<Rightarrow> 's \<Rightarrow> (u32 \<times> 's) option" where
  "sfs_size st i s = do { (n, s) \<leftarrow> read_inode st i s; Some (isize n, s) }"

definition sfs_create :: "'s block_layer \<Rightarrow> int \<Rightarrow> u8 list \<Rightarrow> int \<Rightarrow> 's \<Rightarrow> (int \<times> 's) option" where
  "sfs_create st dir name type s = do {
     (r, s) \<leftarrow> dir_lookup st dir name s;
     if 0 \<le> r then Some (- 1, s) else do {
       (ino, s) \<leftarrow> alloc_inode st s;
       if ino < 0 then Some (- 1, s) else do {
         s \<leftarrow> write_inode st ino (zero_inode\<lparr>itype := word_of_int type\<rparr>) s;
         s \<leftarrow> (if type = uint SFS_DIR then do {
                 (r, s) \<leftarrow> dir_add st ino DOT ino s;
                 (r, s) \<leftarrow> dir_add st ino DOTDOT dir s;
                 Some s
               } else Some s);
         (r, s) \<leftarrow> dir_add st dir name ino s;
         if r \<noteq> 0 then Some (- 1, s) else Some (ino, s)
       }
     }
   }"

text \<open>\<^verbatim>\<open>strcpy\<close> of the entry's name to the caller's buffer; no NUL up to the end of the block would make
  it run on.\<close>

definition copy_name :: "u8 list \<Rightarrow> u8 list option" where
  "copy_name bs = (if 0 \<in> set bs then Some (takeWhile (\<lambda>c. c \<noteq> 0) bs) else None)"

text \<open>The inner loop of \<^verbatim>\<open>sfs_readdir\<close>: the entry with the wanted index, or the number seen so far.\<close>

fun readdir_entries :: "u8 list \<Rightarrow> int \<Rightarrow> nat \<Rightarrow> nat \<Rightarrow> int \<Rightarrow> nat + int" where
  "readdir_entries buf index 0 e seen = Inr seen"
| "readdir_entries buf index (Suc k) e seen =
     (if de_inum1 buf e \<noteq> 0 then
        if seen = index then Inl e else readdir_entries buf index k (Suc e) (seen + 1)
      else readdir_entries buf index k (Suc e) seen)"

fun readdir_loop :: "'s block_layer \<Rightarrow> int \<Rightarrow> u32 list \<Rightarrow> int \<Rightarrow> 's \<Rightarrow> ((int \<times> u8 list option) \<times> 's) option" where
  "readdir_loop st index [] seen s = Some ((- 1, None), s)"
| "readdir_loop st index (b # bs) seen s =
     (if b = 0 then Some ((- 1, None), s) else do {
        (buf, s) \<leftarrow> read_block st b s;
        case readdir_entries buf index DIRENTS_PER_BLOCK 0 seen of
          Inl e \<Rightarrow> do {
            name \<leftarrow> copy_name (de_name buf e);
            r \<leftarrow> inum_of (de_inum1 buf e);
            Some ((r, Some name), s)
          }
        | Inr seen \<Rightarrow> readdir_loop st index bs seen s
      })"

text \<open>The result and the string left in \<^verbatim>\<open>name_out\<close>, if it is written.\<close>

definition sfs_readdir :: "'s block_layer \<Rightarrow> int \<Rightarrow> int \<Rightarrow> 's \<Rightarrow> ((int \<times> u8 list option) \<times> 's) option" where
  "sfs_readdir st dir index s = do {
     (d, s) \<leftarrow> read_inode st dir s;
     if itype d \<noteq> SFS_DIR then Some ((- 1, None), s) else readdir_loop st index (iblocks d) 0 s
   }"

fun free_blocks :: "'s block_layer \<Rightarrow> u32 list \<Rightarrow> 's \<Rightarrow> 's option" where
  "free_blocks st [] s = Some s"
| "free_blocks st (b # bs) s = do {
     s \<leftarrow> (if b \<noteq> 0 then free_block st b s else Some s);
     free_blocks st bs s
   }"

lemma write_loop_decreases:
  fixes len written :: u32
  assumes "written < len" and "chunk = (if len - written > 512 then 512 else len - written)"
  shows "unat (len - (written + chunk)) < unat (len - written)"
proof -
  have "0 < len - written" using assms(1) by (metis eq_iff_diff_eq_0 order_less_irrefl word_gt_0)
  then have "0 < chunk" "chunk \<le> len - written" using assms(2) by (auto split: if_splits)
  moreover from this have "unat (len - written - chunk) = unat (len - written) - unat chunk" by (simp add: unat_sub)
  ultimately show ?thesis by (simp add: word_less_nat_alt word_le_nat_alt diff_diff_eq)
qed

function sfs_write_loop :: "'s block_layer \<Rightarrow> u8 list \<Rightarrow> u32 \<Rightarrow> u32 \<Rightarrow> nat \<Rightarrow> u32 list \<Rightarrow> 's \<Rightarrow> ((u32 \<times> u32 list) \<times> 's) option" where
  "sfs_write_loop st data len written b bs s =
     (if written < len then
        let chunk = (if len - written > of_nat BLOCK_SIZE then of_nat BLOCK_SIZE else len - written) in do {
          (nb, s) \<leftarrow> alloc_block st s;
          if nb = 0 then Some ((written, bs), s)
          else if b < length bs \<and> unat written + unat chunk \<le> length data then do {
            s \<leftarrow> write_block st nb (put_at 0 (take (unat chunk) (drop (unat written) data)) (replicate BLOCK_SIZE 0)) s;
            sfs_write_loop st data len (written + chunk) (Suc b) (bs[b := nb]) s
          } else None
        }
      else Some ((written, bs), s))"
  by pat_completeness auto

termination
  by (relation "measure (\<lambda>(st, data, len, written, b, bs, s). unat (len - written))")
    (simp_all add: write_loop_decreases)

declare sfs_write_loop.simps [simp del]

definition sfs_write :: "'s block_layer \<Rightarrow> int \<Rightarrow> u8 list \<Rightarrow> u32 \<Rightarrow> 's \<Rightarrow> (int \<times> 's) option" where
  "sfs_write st i data len s = do {
     (n, s) \<leftarrow> read_inode st i s;
     if itype n \<noteq> SFS_FILE then Some (- 1, s) else do {
       s \<leftarrow> free_blocks st (iblocks n) s;
       let max_bytes = of_nat (DIRECT * BLOCK_SIZE);
       let len = (if len > max_bytes then max_bytes else len);
       ((written, bs), s) \<leftarrow> sfs_write_loop st data len 0 0 (replicate DIRECT 0) s;
       s \<leftarrow> write_inode st i (n\<lparr>iblocks := bs, isize := written\<rparr>) s;
       Some (sint written, s)
     }
   }"

text \<open>The bytes stored to \<^verbatim>\<open>out\<close>; their number is the returned \<^verbatim>\<open>done\<close>.\<close>

fun sfs_read_loop :: "'s block_layer \<Rightarrow> u32 \<Rightarrow> u32 list \<Rightarrow> u32 \<Rightarrow> u8 list \<Rightarrow> 's \<Rightarrow> ((u32 \<times> u8 list) \<times> 's) option" where
  "sfs_read_loop st len [] dn out s = Some ((dn, out), s)"
| "sfs_read_loop st len (b # bs) dn out s =
     (if dn < len \<and> b \<noteq> 0 then do {
        let chunk = (if len - dn > of_nat BLOCK_SIZE then of_nat BLOCK_SIZE else len - dn);
        (buf, s) \<leftarrow> read_block st b s;
        sfs_read_loop st len bs (dn + chunk) (out @ take (unat chunk) buf) s
      } else Some ((dn, out), s))"

definition sfs_read :: "'s block_layer \<Rightarrow> int \<Rightarrow> u32 \<Rightarrow> 's \<Rightarrow> ((int \<times> u8 list) \<times> 's) option" where
  "sfs_read st i maxb s = do {
     (n, s) \<leftarrow> read_inode st i s;
     let len = (if isize n > maxb then maxb else isize n);
     ((dn, out), s) \<leftarrow> sfs_read_loop st len (iblocks n) 0 [] s;
     Some ((sint dn, out), s)
   }"

text \<open>The loop that counts the entries: \<open>i\<close> is also the count.\<close>

partial_function (option) unlink_count :: "'s block_layer \<Rightarrow> int \<Rightarrow> int \<Rightarrow> 's \<Rightarrow> (int \<times> 's) option" where
  "unlink_count st ino i s = do {
     ((r, tmp), s) \<leftarrow> sfs_readdir st ino i s;
     if 0 \<le> r then unlink_count st ino (i + 1) s else Some (i, s)
   }"

declare unlink_count.simps [code]

definition sfs_unlink :: "'s block_layer \<Rightarrow> int \<Rightarrow> u8 list \<Rightarrow> 's \<Rightarrow> (int \<times> 's) option" where
  "sfs_unlink st dir name s =
     (if strcmp_l (name @ [0]) (DOT @ [0]) = Some 0 \<or> strcmp_l (name @ [0]) (DOTDOT @ [0]) = Some 0 then Some (- 1, s) else do {
        (ino, s) \<leftarrow> dir_lookup st dir name s;
        if ino < 0 then Some (- 1, s) else do {
          (n, s) \<leftarrow> read_inode st ino s;
          (refuse, s) \<leftarrow> (if itype n = SFS_DIR then do {
                             (count, s) \<leftarrow> unlink_count st ino 0 s;
                             Some (2 < count, s)
                           } else Some (False, s));
          if refuse then Some (- 1, s) else do {
            s \<leftarrow> free_blocks st (iblocks n) s;
            s \<leftarrow> write_inode st ino zero_inode s;
            dir_remove st dir name s
          }
        }
      })"

end
