(* ===== verification/Descriptors.thy ===== *)
theory Descriptors
  imports Bitset
begin

text \<open>
  \<^verbatim>\<open>cpu/gdt.c\<close> and \<^verbatim>\<open>cpu/idt.c\<close>: the descriptor tables. Descriptors are the packed structs of the
  code. How the processor reads them is stated separately, by decoding functions that follow the
  descriptor layout of the architecture, so that the lemmas say what the tables mean. The addresses
  of \<^verbatim>\<open>gdt\<close>, \<^verbatim>\<open>tss\<close> and \<^verbatim>\<open>idt\<close> are parameters. \<open>None\<close> is an access outside a table.
\<close>

section \<open>Model\<close>

subsection \<open>gdt.c\<close>

record gdt_entry =
  limit_low :: u16
  base_low :: u16
  base_mid :: u8
  access :: u8
  gran :: u8
  base_high :: u8

record dt_ptr =
  dt_limit :: u16
  dt_base :: u32

text \<open>The task state segment. \<^verbatim>\<open>esp0\<close> is the field that \<^verbatim>\<open>tss_set_kernel_stack\<close> keeps up to date in
  the scheduler.\<close>

record tss_seg =
  tss_prev :: u32
  tss_sp0 :: u32
  tss_ss0 :: u32
  tss_stacks :: "u32 list"
  tss_regs :: "u32 list"
  tss_segs :: "u32 list"
  tss_ldt :: u32
  tss_trap :: u16
  tss_iomap_base :: u16

text \<open>What \<^verbatim>\<open>lgdt\<close>, the segment reloads, \<^verbatim>\<open>ltr\<close> and \<^verbatim>\<open>lidt\<close> load.\<close>

record seg_cpu =
  gdtr :: dt_ptr
  idtr :: dt_ptr
  sel_cs :: u16
  sel_data :: u16
  sel_tr :: u16

record segs =
  gdt :: "gdt_entry list"
  gdt_ptr :: dt_ptr
  tss :: tss_seg
  scpu :: seg_cpu

abbreviation (input) "GDT_KERNEL_CODE \<equiv> 0x08 :: u16"
abbreviation (input) "GDT_KERNEL_DATA \<equiv> 0x10 :: u16"
abbreviation (input) "GDT_USER_CODE \<equiv> 0x18 :: u16"
abbreviation (input) "GDT_USER_DATA \<equiv> 0x20 :: u16"
abbreviation (input) "GDT_TSS \<equiv> 0x28 :: u16"
abbreviation (input) "SIZEOF_TSS \<equiv> 104 :: nat"
abbreviation (input) "SIZEOF_GDT \<equiv> 48 :: nat"

definition upd_at :: "int \<Rightarrow> 'a \<Rightarrow> 'a list \<Rightarrow> 'a list option" where
  "upd_at i x xs = (if 0 \<le> i \<and> i < int (length xs) then Some (xs[nat i := x]) else None)"

definition set_gate :: "int \<Rightarrow> u32 \<Rightarrow> u32 \<Rightarrow> u8 \<Rightarrow> u8 \<Rightarrow> gdt_entry list \<Rightarrow> gdt_entry list option" where
  "set_gate i base limit acc flags =
     upd_at i \<lparr>limit_low = ucast (limit AND 0xFFFF),
               base_low = ucast (base AND 0xFFFF),
               base_mid = ucast (drop_bit 16 base AND 0xFF),
               access = acc,
               gran = ucast ((drop_bit 16 limit AND 0x0F) OR push_bit 4 (ucast flags :: u32)),
               base_high = ucast (drop_bit 24 base AND 0xFF)\<rparr>"

text \<open>\<^verbatim>\<open>memset(&tss, 0, sizeof(tss))\<close>\<close>

definition zero_tss :: tss_seg where
  "zero_tss = \<lparr>tss_prev = 0, tss_sp0 = 0, tss_ss0 = 0, tss_stacks = replicate 4 0, tss_regs = replicate 11 0,
               tss_segs = replicate 6 0, tss_ldt = 0, tss_trap = 0, tss_iomap_base = 0\<rparr>"

definition gdt_flush :: "dt_ptr \<Rightarrow> seg_cpu \<Rightarrow> seg_cpu" where
  "gdt_flush p c = c\<lparr>gdtr := p, sel_data := 0x10, sel_cs := 0x08\<rparr>"

definition tss_flush :: "seg_cpu \<Rightarrow> seg_cpu" where
  "tss_flush c = c\<lparr>sel_tr := 0x28\<rparr>"

definition gdt_install :: "u32 \<Rightarrow> u32 \<Rightarrow> segs \<Rightarrow> segs option" where
  "gdt_install a_gdt a_tss s = do {
     g \<leftarrow> set_gate 0 0 0 0 0 (gdt s);
     g \<leftarrow> set_gate 1 0 0xFFFFF 0x9A 0xC g;
     g \<leftarrow> set_gate 2 0 0xFFFFF 0x92 0xC g;
     g \<leftarrow> set_gate 3 0 0xFFFFF 0xFA 0xC g;
     g \<leftarrow> set_gate 4 0 0xFFFFF 0xF2 0xC g;
     let t = zero_tss\<lparr>tss_ss0 := ucast GDT_KERNEL_DATA, tss_iomap_base := of_nat SIZEOF_TSS\<rparr>;
     g \<leftarrow> set_gate 5 a_tss (of_nat SIZEOF_TSS - 1) 0x89 0x0 g;
     let p = \<lparr>dt_limit = of_nat SIZEOF_GDT - 1, dt_base = a_gdt\<rparr>;
     Some (s\<lparr>gdt := g, tss := t, gdt_ptr := p, scpu := tss_flush (gdt_flush p (scpu s))\<rparr>)
   }"

subsection \<open>idt.c\<close>

abbreviation (input) "IDT_ENTRIES \<equiv> 256 :: nat"
abbreviation (input) "KERNEL_CS \<equiv> 0x08 :: u16"

record idt_gate =
  low_offset :: u16
  selector :: u16
  always0 :: u8
  flags :: u8
  high_offset :: u16

definition set_idt_gate :: "int \<Rightarrow> u32 \<Rightarrow> idt_gate list \<Rightarrow> idt_gate list option" where
  "set_idt_gate n handler =
     upd_at n \<lparr>low_offset = ucast (handler AND 0xFFFF), selector = KERNEL_CS, always0 = 0, flags = 0x8E,
               high_offset = ucast (drop_bit 16 handler AND 0xFFFF)\<rparr>"

definition set_idt_gate_dpl :: "int \<Rightarrow> u32 \<Rightarrow> u8 \<Rightarrow> idt_gate list \<Rightarrow> idt_gate list option" where
  "set_idt_gate_dpl n handler dpl =
     upd_at n \<lparr>low_offset = ucast (handler AND 0xFFFF), selector = KERNEL_CS, always0 = 0,
               flags = ucast ((0x8E :: u32) OR push_bit 5 (ucast dpl)),
               high_offset = ucast (drop_bit 16 handler AND 0xFFFF)\<rparr>"

definition load_idt :: "u32 \<Rightarrow> seg_cpu \<Rightarrow> seg_cpu" where
  "load_idt a_idt c = c\<lparr>idtr := \<lparr>dt_limit = of_nat (IDT_ENTRIES * 8) - 1, dt_base = a_idt\<rparr>\<rparr>"

section \<open>How the processor reads a descriptor\<close>

definition seg_base :: "gdt_entry \<Rightarrow> u32" where
  "seg_base e = ucast (base_low e) OR push_bit 16 (ucast (base_mid e)) OR push_bit 24 (ucast (base_high e))"

definition seg_limit :: "gdt_entry \<Rightarrow> u32" where
  "seg_limit e = ucast (limit_low e) OR push_bit 16 (ucast (gran e AND 0x0F))"

text \<open>With granularity set the limit counts pages of 4 KB.\<close>

definition seg_last :: "gdt_entry \<Rightarrow> u32" where
  "seg_last e = (if bit (gran e) 7 then push_bit 12 (seg_limit e) OR 0xFFF else seg_limit e)"

definition seg_flags :: "gdt_entry \<Rightarrow> u8" where "seg_flags e = drop_bit 4 (gran e)"
definition dpl_of :: "u8 \<Rightarrow> nat" where "dpl_of a = unat (drop_bit 5 a AND 3)"
definition gate_offset :: "idt_gate \<Rightarrow> u32" where
  "gate_offset g = ucast (low_offset g) OR push_bit 16 (ucast (high_offset g))"

text \<open>A selector names the entry at its upper 13 bits; its lower two are the requested privilege.\<close>

definition sel_index :: "u16 \<Rightarrow> nat" where "sel_index s = unat (drop_bit 3 s)"
definition sel_rpl :: "u16 \<Rightarrow> nat" where "sel_rpl s = unat (s AND 3)"

section \<open>Lemmas\<close>

lemma and_mask_numerals:
  "0xFFFF = (mask 16 :: u32)" "0xFF = (mask 8 :: u32)" "0x0F = (mask 4 :: u32)" "0x0F = (mask 4 :: u8)"
  by (simp_all add: mask_eq_exp_minus_1)

lemma split_offset: "ucast (ucast (h AND 0xFFFF) :: u16) OR push_bit 16 (ucast (ucast (drop_bit 16 h AND 0xFFFF) :: u16)) = h" for h :: u32
  unfolding and_mask_numerals
  by (rule bit_word_eqI) (auto simp: bit_simps)

lemma split_base: "ucast (ucast (b AND 0xFFFF) :: u16) OR push_bit 16 (ucast (ucast (drop_bit 16 b AND 0xFF) :: u8))
    OR push_bit 24 (ucast (ucast (drop_bit 24 b AND 0xFF) :: u8)) = b" for b :: u32
  unfolding and_mask_numerals
proof (rule bit_word_eqI)
  fix n assume "n < LENGTH(32)"
  then consider "n < 16" | "16 \<le> n" "n < 24" "n - 16 < 8" | "24 \<le> n" "n - 24 < 8" by fastforce
  then show "bit (ucast (ucast (b AND mask 16) :: u16) OR push_bit 16 (ucast (ucast (drop_bit 16 b AND mask 8) :: u8))
      OR push_bit 24 (ucast (ucast (drop_bit 24 b AND mask 8) :: u8)) :: u32) n = bit b n"
    by cases (auto simp: bit_simps)
qed

lemma split_limit:
  fixes l :: u32 and f :: u8
  assumes "l < 2 ^ 20"
  shows "ucast (ucast (l AND 0xFFFF) :: u16) OR push_bit 16 (ucast (ucast ((drop_bit 16 l AND 0x0F) OR push_bit 4 (ucast f :: u32)) AND 0x0F :: u8)) = l"
  unfolding and_mask_numerals
proof (rule bit_word_eqI)
  fix n assume "n < LENGTH(32)"
  then consider "n < 16" | "16 \<le> n" "n < 20" "n - 16 < 4" | "20 \<le> n" "\<not> n - 16 < 4" by fastforce
  then show "bit (ucast (ucast (l AND mask 16) :: u16) OR push_bit 16 (ucast (ucast ((drop_bit 16 l AND mask 4) OR push_bit 4 (ucast f :: u32)) AND mask 4 :: u8)) :: u32) n = bit l n"
    by cases (use less_exp_no_bit [OF assms] in \<open>auto simp: bit_simps\<close>)
qed

text \<open>Table updates.\<close>

lemma upd_at_Some [simp]: "upd_at (int i) x xs = Some ys \<longleftrightarrow> i < length xs \<and> ys = xs[i := x]"
  by (auto simp: upd_at_def)

lemma upd_at_int: "i < length xs \<Longrightarrow> upd_at (int i) x xs = Some (xs[i := x])"
  by simp

text \<open>What the processor reads from an entry that \<^verbatim>\<open>set_gate\<close> wrote.\<close>

lemma set_gate_decodes:
  assumes "i < length g" "limit < 2 ^ 20" "fl < 16"
  shows "\<exists>e. set_gate (int i) base limit acc fl g = Some (g[i := e])
     \<and> seg_base e = base \<and> seg_limit e = limit \<and> access e = acc \<and> seg_flags e = fl"
proof -
  let ?e = "\<lparr>limit_low = ucast (limit AND 0xFFFF), base_low = ucast (base AND 0xFFFF), base_mid = ucast (drop_bit 16 base AND 0xFF),
     access = acc, gran = ucast ((drop_bit 16 limit AND 0x0F) OR push_bit 4 (ucast fl :: u32)), base_high = ucast (drop_bit 24 base AND 0xFF)\<rparr>"
  have "seg_flags ?e = fl"
    unfolding seg_flags_def and_mask_numerals
  proof (simp, rule bit_word_eqI)
    fix n assume "n < LENGTH(8)"
    then consider "n < 4" "\<not> 4 + n < 4" | "4 \<le> n" by fastforce
    then show "bit (drop_bit 4 (ucast (drop_bit 16 limit AND mask 4 OR push_bit 4 (ucast fl :: u32)) :: u8)) n = bit fl n"
      by cases (use less_exp_no_bit [of fl 4] assms(3) in \<open>auto simp: bit_simps\<close>)
  qed
  then show ?thesis using assms(1) split_base [of base] split_limit [OF assms(2), of fl]
    by (intro exI [of _ ?e]) (simp add: set_gate_def seg_base_def seg_limit_def)
qed

lemma set_idt_gate_decodes:
  assumes "n < length t"
  shows "\<exists>g. set_idt_gate (int n) h t = Some (t[n := g]) \<and> gate_offset g = h \<and> selector g = KERNEL_CS \<and> flags g = 0x8E"
  using assms split_offset [of h]
  by (intro exI [of _ "\<lparr>low_offset = ucast (h AND 0xFFFF), selector = KERNEL_CS, always0 = 0, flags = 0x8E,
        high_offset = ucast (drop_bit 16 h AND 0xFFFF)\<rparr>"]) (simp add: set_idt_gate_def gate_offset_def)

lemma set_idt_gate_dpl_decodes:
  assumes "n < length t" "dpl < 4"
  shows "\<exists>g. set_idt_gate_dpl (int n) h dpl t = Some (t[n := g]) \<and> gate_offset g = h \<and> selector g = KERNEL_CS
     \<and> flags g AND 0x9F = 0x8E \<and> dpl_of (flags g) = unat dpl"
proof -
  have "dpl \<in> {0, 1, 2, 3}"
  proof -
    have "unat dpl < 4" using assms(2) by (simp add: word_less_nat_alt)
    then have "unat dpl \<in> {0, 1, 2, 3}" by fastforce
    then show ?thesis by (auto simp: word_unat_eq_iff)
  qed
  then have "ucast ((0x8E :: u32) OR push_bit 5 (ucast dpl)) AND (0x9F :: u8) = 0x8E \<and> dpl_of (ucast ((0x8E :: u32) OR push_bit 5 (ucast dpl))) = unat dpl"
    by (auto simp: dpl_of_def)
  then show ?thesis using assms(1) split_offset [of h]
    by (intro exI [of _ "\<lparr>low_offset = ucast (h AND 0xFFFF), selector = KERNEL_CS, always0 = 0,
          flags = ucast ((0x8E :: u32) OR push_bit 5 (ucast dpl)), high_offset = ucast (drop_bit 16 h AND 0xFFFF)\<rparr>"])
      (simp add: set_idt_gate_dpl_def gate_offset_def)
qed

section \<open>The installed segments\<close>

text \<open>A present code or data segment over all four gigabytes at privilege \<open>ring\<close>.\<close>

definition flat_seg :: "bool \<Rightarrow> nat \<Rightarrow> gdt_entry \<Rightarrow> bool" where
  "flat_seg code ring e \<longleftrightarrow> seg_base e = 0 \<and> seg_last e = 0xFFFFFFFF \<and> bit (access e) 7 \<and> bit (access e) 4
     \<and> bit (access e) 3 = code \<and> bit (access e) 1 \<and> dpl_of (access e) = ring \<and> bit (seg_flags e) 2"

text \<open>The entry a selector names, when it lies inside the loaded table.\<close>

definition sel_entry :: "segs \<Rightarrow> u16 \<Rightarrow> gdt_entry" where
  "sel_entry s sel = gdt s ! sel_index sel"

lemma gdt_install_segs:
  assumes "length (gdt s) = 6"
  shows "\<exists>s'. gdt_install a_gdt a_tss s = Some s' \<and> gdtr (scpu s') = \<lparr>dt_limit = 47, dt_base = a_gdt\<rparr>
     \<and> sel_cs (scpu s') = GDT_KERNEL_CODE \<and> sel_data (scpu s') = GDT_KERNEL_DATA \<and> sel_tr (scpu s') = GDT_TSS
     \<and> flat_seg True 0 (sel_entry s' GDT_KERNEL_CODE) \<and> flat_seg False 0 (sel_entry s' GDT_KERNEL_DATA)
     \<and> flat_seg True 3 (sel_entry s' (GDT_USER_CODE OR 3)) \<and> flat_seg False 3 (sel_entry s' (GDT_USER_DATA OR 3))
     \<and> seg_base (sel_entry s' GDT_TSS) = a_tss \<and> seg_last (sel_entry s' GDT_TSS) = 103 \<and> access (sel_entry s' GDT_TSS) = 0x89
     \<and> tss_ss0 (tss s') = 0x10 \<and> tss_iomap_base (tss s') = 104"
proof -
  obtain e0 e1 e2 e3 e4 e5 where g: "gdt s = [e0, e1, e2, e3, e4, e5]"
    using assms by (auto simp: length_Suc_conv eval_nat_numeral)
  let ?k = "\<lambda>a. \<lparr>limit_low = 0xFFFF, base_low = 0, base_mid = 0, access = a, gran = 0xCF, base_high = 0\<rparr>"
  let ?t = "\<lparr>limit_low = 103, base_low = ucast (a_tss AND 0xFFFF), base_mid = ucast (drop_bit 16 a_tss AND 0xFF),
     access = 0x89, gran = 0, base_high = ucast (drop_bit 24 a_tss AND 0xFF)\<rparr>"
  let ?p = "\<lparr>dt_limit = 47, dt_base = a_gdt\<rparr>"
  let ?s = "s\<lparr>gdt := [\<lparr>limit_low = 0, base_low = 0, base_mid = 0, access = 0, gran = 0, base_high = 0\<rparr>, ?k 0x9A, ?k 0x92, ?k 0xFA, ?k 0xF2, ?t],
     tss := zero_tss\<lparr>tss_ss0 := 0x10, tss_iomap_base := 104\<rparr>, gdt_ptr := ?p, scpu := tss_flush (gdt_flush ?p (scpu s))\<rparr>"
  have "gdt_install a_gdt a_tss s = Some ?s"
    by (simp add: gdt_install_def g set_gate_def upd_at_def Let_def)
  moreover have "flat_seg True 0 (?k 0x9A)" "flat_seg False 0 (?k 0x92)" "flat_seg True 3 (?k 0xFA)" "flat_seg False 3 (?k 0xF2)"
    by (simp_all add: flat_seg_def seg_base_def seg_last_def seg_limit_def seg_flags_def dpl_of_def bit_numeral_word_iff)
  moreover have "seg_base ?t = a_tss" "seg_last ?t = 103"
    using split_base [of a_tss] by (simp_all add: seg_base_def seg_last_def seg_limit_def)
  ultimately show ?thesis
    by (intro exI [of _ ?s]) (simp add: sel_entry_def sel_index_def tss_flush_def gdt_flush_def)
qed

end
