(* ===== verification/Keyboard.thy ===== *)
theory Keyboard
  imports Console Ata Bitset
begin

text \<open>
  \<^verbatim>\<open>drivers/keyboard.c\<close>: scancodes to characters, and the line editor that hands complete lines to the
  registered handler. \<open>None\<close> is an access outside the line buffer. The calls to the screen driver and the
  line given to the handler are outputs.
\<close>

section \<open>Model\<close>

abbreviation (input) "SC_LSHIFT \<equiv> 0x2A :: u8"
abbreviation (input) "SC_RSHIFT \<equiv> 0x36 :: u8"
abbreviation (input) "SC_CAPS \<equiv> 0x3A :: u8"
abbreviation (input) "RELEASE \<equiv> 0x80 :: u8"
abbreviation (input) "LINE_MAX \<equiv> 128 :: int"
abbreviation (input) "KBD_DATA_PORT \<equiv> 0x60 :: u16"

record keyboard =
  line_buf :: "u8 list"
  line_len :: int
  shift :: bool
  caps :: bool
  line_handler :: bool

text \<open>The two tables; C fills the rest of the 128 entries with zero.\<close>

definition map_lower :: "u8 list" where
  "map_lower = (let t = [0, 27] @ str ''1234567890-='' @ [8] @ [9] @ str ''qwertyuiop[]'' @ [10] @ [0] @ str ''asdfghjkl;'' @ [0x27] @ str ''`''
     @ [0] @ [0x5C] @ str ''zxcvbnm,./'' @ [0] @ str ''*'' @ [0] @ str '' ''
   in t @ replicate (128 - length t) 0)"

definition map_upper :: "u8 list" where
  "map_upper = (let t = [0, 27] @ str ''!@#$%^&*()_+'' @ [8] @ [9] @ str ''QWERTYUIOP{}'' @ [10] @ [0] @ str ''ASDFGHJKL:'' @ [0x22] @ str ''~''
     @ [0] @ str ''|'' @ str ''ZXCVBNM<>?'' @ [0] @ str ''*'' @ [0] @ str '' ''
   in t @ replicate (128 - length t) 0)"

text \<open>Characters are compared as signed \<^verbatim>\<open>char\<close>s.\<close>

definition is_letter :: "u8 \<Rightarrow> bool" where
  "is_letter c \<longleftrightarrow> (0x61 \<le> sint c \<and> sint c \<le> 0x7A) \<or> (0x41 \<le> sint c \<and> sint c \<le> 0x5A)"

definition put_char :: "int \<Rightarrow> u8 \<Rightarrow> u8 list \<Rightarrow> u8 list option" where
  "put_char i c buf = (if 0 \<le> i \<and> i < int (length buf) then Some (buf[nat i := c]) else None)"

text \<open>The string the handler gets: the buffer up to its terminator.\<close>

definition submit_line :: "keyboard \<Rightarrow> (u8 list option \<times> keyboard) option" where
  "submit_line k = do {
     b \<leftarrow> put_char (line_len k) 0 (line_buf k);
     let k = k\<lparr>line_buf := b\<rparr>;
     let line = (if line_handler k then Some (takeWhile (\<lambda>c. c \<noteq> 0) (line_buf k)) else None);
     Some (line, k\<lparr>line_len := 0\<rparr>)
   }"

text \<open>The character a pressed key stands for.\<close>

definition key_char :: "u8 \<Rightarrow> keyboard \<Rightarrow> u8" where
  "key_char sc k =
     (let c = (if shift k then map_upper ! unat sc else map_lower ! unat sc)
      in if c \<noteq> 0 \<and> caps k \<and> is_letter c then
           if 0x61 \<le> sint c \<and> sint c \<le> 0x7A then c - 32 else if 0x41 \<le> sint c \<and> sint c \<le> 0x5A then c + 32 else c
         else c)"

definition keyboard_key :: "u8 \<Rightarrow> keyboard \<Rightarrow> ((console \<times> u8 list option) \<times> keyboard) option" where
  "keyboard_key sc k =
     (if sc AND RELEASE \<noteq> 0 then
        let code = sc AND NOT RELEASE
        in Some (([], None), if code = SC_LSHIFT \<or> code = SC_RSHIFT then k\<lparr>shift := False\<rparr> else k)
      else if sc = SC_LSHIFT \<or> sc = SC_RSHIFT then Some (([], None), k\<lparr>shift := True\<rparr>)
      else if sc = SC_CAPS then Some (([], None), k\<lparr>caps := \<not> caps k\<rparr>)
      else if sc \<ge> 128 then Some (([], None), k)
      else let c = key_char sc k in
        if c = 0 then Some (([], None), k)
        else if c = 0x0A then do {
          (line, k) \<leftarrow> submit_line k;
          Some (([Kputc 0x0A], line), k)
        }
        else if c = 0x08 then
          Some (if line_len k > 0 then (([Kputc 0x08], None), k\<lparr>line_len := line_len k - 1\<rparr>) else (([], None), k))
        else if line_len k < LINE_MAX - 1 then do {
          b \<leftarrow> put_char (line_len k) c (line_buf k);
          Some (([Kputc c], None), k\<lparr>line_buf := b, line_len := line_len k + 1\<rparr>)
        }
        else Some (([], None), k))"

definition keyboard_callback :: "'d io \<Rightarrow> keyboard \<times> 'd \<Rightarrow> ((console \<times> u8 list option) \<times> keyboard \<times> 'd) option" where
  "keyboard_callback io kd = do {
     let (k, d) = kd;
     let (sc, d) = inb io KBD_DATA_PORT d;
     (out, k) \<leftarrow> keyboard_key sc k;
     Some (out, k, d)
   }"

definition keyboard_set_line_handler :: "keyboard \<Rightarrow> keyboard" where
  "keyboard_set_line_handler k = k\<lparr>line_handler := True\<rparr>"

section \<open>The tables\<close>

lemma char_ranges:
  "(0x61 \<le> sint c \<and> sint c \<le> 0x7A) = (0x61 \<le> c \<and> c \<le> 0x7A)" "(0x41 \<le> sint c \<and> sint c \<le> 0x5A) = (0x41 \<le> c \<and> c \<le> 0x5A)" for c :: u8
proof -
  have b: "0 \<le> uint c" "uint c < 256" using uint_lt2p [of c] by simp_all
  have s: "sint c = (if uint c < 128 then uint c else uint c - 256)"
  proof (cases "uint c < 128")
    case True
    then show ?thesis using b by (simp add: sint_uint signed_take_bit_eq_take_bit_shift take_bit_eq_mod)
  next
    case False
    have "(uint c + 128) mod 256 = (uint c - 128 + 256) mod 256" by (simp add: add.commute)
    also have "\<dots> = (uint c - 128) mod 256" by (simp only: mod_add_self2)
    also have "\<dots> = uint c - 128" by (rule mod_pos_pos_trivial) (use False b in linarith)+
    finally have "(uint c + 128) mod 256 = uint c - 128" .
    then show ?thesis using False by (simp add: sint_uint signed_take_bit_eq_take_bit_shift take_bit_eq_mod)
  qed
  have le: "n \<le> c \<longleftrightarrow> uint n \<le> uint c" "c \<le> n \<longleftrightarrow> uint c \<le> uint n" for n by (simp_all add: word_le_def)
  show "(0x61 \<le> sint c \<and> sint c \<le> 0x7A) = (0x61 \<le> c \<and> c \<le> 0x7A)" "(0x41 \<le> sint c \<and> sint c \<le> 0x5A) = (0x41 \<le> c \<and> c \<le> 0x5A)"
    unfolding s le using b by auto
qed

lemma is_letter_iff: "is_letter c \<longleftrightarrow> (0x61 \<le> c \<and> c \<le> 0x7A) \<or> (0x41 \<le> c \<and> c \<le> 0x5A)"
  unfolding is_letter_def char_ranges by simp

lemma lower_eq: "map_lower = [0, 27, 0x31, 0x32, 0x33, 0x34, 0x35, 0x36, 0x37, 0x38, 0x39, 0x30, 0x2D, 0x3D, 8, 9,
   0x71, 0x77, 0x65, 0x72, 0x74, 0x79, 0x75, 0x69, 0x6F, 0x70, 0x5B, 0x5D, 10, 0, 0x61, 0x73, 0x64, 0x66, 0x67, 0x68, 0x6A, 0x6B, 0x6C, 0x3B, 0x27, 0x60,
   0, 0x5C, 0x7A, 0x78, 0x63, 0x76, 0x62, 0x6E, 0x6D, 0x2C, 0x2E, 0x2F, 0, 0x2A, 0, 0x20] @ replicate 70 0"
  by (simp add: map_lower_def str_def Let_def)
lemma upper_eq: "map_upper = [0, 27, 0x21, 0x40, 0x23, 0x24, 0x25, 0x5E, 0x26, 0x2A, 0x28, 0x29, 0x5F, 0x2B, 8, 9,
   0x51, 0x57, 0x45, 0x52, 0x54, 0x59, 0x55, 0x49, 0x4F, 0x50, 0x7B, 0x7D, 10, 0, 0x41, 0x53, 0x44, 0x46, 0x47, 0x48, 0x4A, 0x4B, 0x4C, 0x3A, 0x22, 0x7E,
   0, 0x7C, 0x5A, 0x58, 0x43, 0x56, 0x42, 0x4E, 0x4D, 0x3C, 0x3E, 0x3F, 0, 0x2A, 0, 0x20] @ replicate 70 0"
  by (simp add: map_upper_def str_def Let_def)


text \<open>What the tables have in common: letters differ by 32, nothing else in them is a letter.\<close>

definition pair_ok :: "u8 \<Rightarrow> u8 \<Rightarrow> bool" where
  "pair_ok l u \<longleftrightarrow> (if 0x61 \<le> l \<and> l \<le> 0x7A then u = l - 32 else \<not> is_letter l \<and> \<not> is_letter u)"

lemma tables_ok: "list_all2 pair_ok map_lower map_upper"
  unfolding lower_eq upper_eq
  by (rule list_all2_appendI) (simp_all add: pair_ok_def is_letter_iff list_all2_conv_all_nth [of _ "replicate 70 0"])

lemma length_map_lower [simp]: "length map_lower = 128"
  by (simp add: lower_eq)

lemma table_pair: "sc < 128 \<Longrightarrow> pair_ok (map_lower ! unat sc) (map_upper ! unat sc)" for sc :: u8
  using list_all2_nthD [OF tables_ok, of "unat sc"] by (simp add: word_less_nat_alt)

section \<open>The reference editor\<close>

text \<open>Shift and caps lock cancel on letters; on other keys only shift counts.\<close>

definition key_symbol :: "bool \<Rightarrow> bool \<Rightarrow> u8 \<Rightarrow> u8" where
  "key_symbol sh cp sc =
     (let low = map_lower ! unat sc
      in if is_letter low then (if sh \<noteq> cp then low - 32 else low) else if sh then map_upper ! unat sc else low)"

record editor =
  ed_text :: "u8 list"
  ed_shift :: bool
  ed_caps :: bool

definition edit_key :: "u8 \<Rightarrow> editor \<Rightarrow> (console \<times> u8 list option) \<times> editor" where
  "edit_key sc e =
     (if sc = 0xAA \<or> sc = 0xB6 then (([], None), e\<lparr>ed_shift := False\<rparr>)
      else if sc \<ge> 128 then (([], None), e)
      else if sc = SC_LSHIFT \<or> sc = SC_RSHIFT then (([], None), e\<lparr>ed_shift := True\<rparr>)
      else if sc = SC_CAPS then (([], None), e\<lparr>ed_caps := \<not> ed_caps e\<rparr>)
      else let c = key_symbol (ed_shift e) (ed_caps e) sc in
        if c = 0 then (([], None), e)
        else if c = 0x0A then (([Kputc 0x0A], Some (ed_text e)), e\<lparr>ed_text := []\<rparr>)
        else if c = 0x08 then (if ed_text e = [] then (([], None), e) else (([Kputc 0x08], None), e\<lparr>ed_text := butlast (ed_text e)\<rparr>))
        else if length (ed_text e) < 127 then (([Kputc c], None), e\<lparr>ed_text := ed_text e @ [c]\<rparr>)
        else (([], None), e))"

definition ed_of :: "keyboard \<Rightarrow> editor" where
  "ed_of k = \<lparr>ed_text = take (nat (line_len k)) (line_buf k), ed_shift = shift k, ed_caps = caps k\<rparr>"

definition kbd_ok :: "keyboard \<Rightarrow> bool" where
  "kbd_ok k \<longleftrightarrow> length (line_buf k) = 128 \<and> 0 \<le> line_len k \<and> line_len k \<le> 127 \<and> 0 \<notin> set (take (nat (line_len k)) (line_buf k)) \<and> line_handler k"

lemma key_char_symbol:
  assumes "sc < 128" shows "key_char sc k = key_symbol (shift k) (caps k) sc"
proof -
  let ?l = "map_lower ! unat sc" and ?u = "map_upper ! unat sc"
  note p = table_pair [OF assms]
  show ?thesis
  proof (cases "0x61 \<le> ?l \<and> ?l \<le> 0x7A")
    case True
    then have l: "?u = ?l - 32" "is_letter ?l" using p by (auto simp: pair_ok_def is_letter_iff)
    have up: "0x41 \<le> ?u" "?u \<le> 0x5A" "\<not> 0x61 \<le> ?u"
    proof -
      have "0x61 \<le> uint ?l" "uint ?l \<le> 0x7A" using True by (simp_all add: word_le_def)
      moreover from this have "uint ?u = uint ?l - 32" unfolding l(1) by (simp add: uint_word_ariths)
      ultimately show "0x41 \<le> ?u" "?u \<le> 0x5A" "\<not> 0x61 \<le> ?u" by (simp_all add: word_le_def)
    qed
    then have "is_letter ?u" "?u \<noteq> 0" "?l \<noteq> 0" using True by (auto simp: is_letter_iff)
    then show ?thesis
      using True l up unfolding key_char_def key_symbol_def Let_def char_ranges by auto
  next
    case False
    then have n: "\<not> is_letter ?l" "\<not> is_letter ?u" using p by (auto simp: pair_ok_def)
    then show ?thesis by (auto simp: key_char_def key_symbol_def Let_def)
  qed
qed

section \<open>Refinement\<close>

lemma top_bit: "bit sc 7 \<longleftrightarrow> sc \<ge> 128" for sc :: u8
proof -
  have lt: "unat sc < 256" using unsigned_less [of sc, where ?'a = nat] by simp
  have "bit sc 7 = bit (unat sc) 7" by (simp add: bit_unsigned_iff)
  also have "\<dots> \<longleftrightarrow> odd (unat sc div 128)" by (simp add: bit_iff_odd)
  also have "\<dots> \<longleftrightarrow> 128 \<le> unat sc"
  proof (cases "128 \<le> unat sc")
    case True
    then have "unat sc div 128 = 1" using lt by (intro div_nat_eqI) auto
    then show ?thesis using True by simp
  qed simp
  finally show ?thesis by (simp add: word_le_nat_alt)
qed

lemma release_bit: "sc AND RELEASE \<noteq> 0 \<longleftrightarrow> sc \<ge> 128" for sc :: u8
proof -
  have "sc AND RELEASE = sc AND 2 ^ 7" by simp
  then show ?thesis unfolding top_bit [symmetric] by (simp only: and_exp_eq_0 not_not)
qed

lemma release_code: "sc \<ge> 128 \<Longrightarrow> sc AND NOT RELEASE = sc - 128" for sc :: u8
proof -
  assume "sc \<ge> 128"
  then have "NOT sc AND 2 ^ 7 = 0" unfolding and_exp_eq_0 top_bit [symmetric] by (simp add: bit_simps)
  from disjunctive_diff_eq_and_not [OF this] show ?thesis by simp
qed

lemma keyboard_key_ok:
  assumes "kbd_ok k"
  shows "\<exists>out k'. keyboard_key sc k = Some (out, k') \<and> kbd_ok k' \<and> edit_key sc (ed_of k) = (out, ed_of k')"
proof -
  have ok: "length (line_buf k) = 128" "0 \<le> line_len k" "line_len k \<le> 127" "0 \<notin> set (take (nat (line_len k)) (line_buf k))" "line_handler k"
    using assms by (auto simp: kbd_ok_def)
  show ?thesis
  proof (cases "sc \<ge> 128")
    case True
    have "sc - 128 = SC_LSHIFT \<longleftrightarrow> sc = 0xAA" "sc - 128 = SC_RSHIFT \<longleftrightarrow> sc = 0xB6" by (auto simp: diff_eq_eq)
    then show ?thesis using True ok release_bit [of sc] release_code [OF True] assms
      by (auto simp: keyboard_key_def edit_key_def ed_of_def kbd_ok_def Let_def)
  next
    case False
    then have lt: "sc < 128" "sc AND RELEASE = 0" using release_bit [of sc] by auto
    let ?c = "key_symbol (shift k) (caps k) sc" and ?n = "nat (line_len k)"
    have n: "line_len k = int ?n" "?n \<le> 127" using ok by auto
    consider "sc = SC_LSHIFT \<or> sc = SC_RSHIFT" | "sc = SC_CAPS" | "sc \<notin> {SC_LSHIFT, SC_RSHIFT, SC_CAPS}" by auto
    then show ?thesis
    proof cases
      case 3
      then have ks: "keyboard_key sc k = (if ?c = 0 then Some (([], None), k)
          else if ?c = 0x0A then do { (line, k) \<leftarrow> submit_line k; Some (([Kputc 0x0A], line), k) }
          else if ?c = 0x08 then
            Some (if line_len k > 0 then (([Kputc 0x08], None), k\<lparr>line_len := line_len k - 1\<rparr>) else (([], None), k))
          else if line_len k < 127 then do {
            b \<leftarrow> put_char (line_len k) ?c (line_buf k);
            Some (([Kputc ?c], None), k\<lparr>line_buf := b, line_len := line_len k + 1\<rparr>) }
          else Some (([], None), k))"
        using lt False by (simp add: keyboard_key_def key_char_symbol Let_def)
      have es: "edit_key sc (ed_of k) = (if ?c = 0 then (([], None), ed_of k)
          else if ?c = 0x0A then (([Kputc 0x0A], Some (ed_text (ed_of k))), (ed_of k)\<lparr>ed_text := []\<rparr>)
          else if ?c = 0x08 then (if ed_text (ed_of k) = [] then (([], None), ed_of k)
            else (([Kputc 0x08], None), (ed_of k)\<lparr>ed_text := butlast (ed_text (ed_of k))\<rparr>))
          else if length (ed_text (ed_of k)) < 127 then (([Kputc ?c], None), (ed_of k)\<lparr>ed_text := ed_text (ed_of k) @ [?c]\<rparr>)
          else (([], None), ed_of k))"
        using False 3 by (auto simp: edit_key_def ed_of_def Let_def)
      have lt': "?n < length (line_buf k)" using ok(1) n(2) by simp
      have tk: "take (Suc ?n) ((line_buf k)[?n := x]) = take ?n (line_buf k) @ [x]" for x
        using lt' by (simp add: take_Suc_conv_app_nth)
      have tw: "takeWhile (\<lambda>c. c \<noteq> 0) ((line_buf k)[?n := 0]) = take ?n (line_buf k)"
      proof -
        have "(line_buf k)[?n := 0] = take ?n (line_buf k) @ 0 # drop (Suc ?n) (line_buf k)" using lt' by (simp add: upd_conv_take_nth_drop)
        moreover have "\<forall>x\<in>set (take ?n (line_buf k)). x \<noteq> 0" using ok(4) by metis
        ultimately show ?thesis by (simp add: takeWhile_append2)
      qed
      consider "?c = 0" | "?c = 0x0A" | "?c = 0x08" "line_len k = 0" | "?c = 0x08" "0 < line_len k" | "?c \<notin> {0, 0x0A, 0x08}" "line_len k < 127"
        | "?c \<notin> {0, 0x0A, 0x08}" "line_len k = 127" using ok(2,3) by fastforce
      then show ?thesis
      proof cases
        case 2
        have "submit_line k = Some (Some (take ?n (line_buf k)), k\<lparr>line_buf := (line_buf k)[?n := 0], line_len := 0\<rparr>)"
          using ok tw by (simp add: submit_line_def put_char_def Let_def)
        then show ?thesis using 2 ks es ok by (simp add: ed_of_def kbd_ok_def)
      next
        case 4
        have m: "nat (line_len k - 1) = ?n - 1" by simp
        have "0 \<notin> set (take (?n - 1) (line_buf k))" using ok(4) set_take_subset_set_take [of "?n - 1" ?n "line_buf k"] by auto
        moreover have "butlast (take ?n (line_buf k)) = take (?n - 1) (line_buf k)" using ok(1) n(2) by (simp add: butlast_take)
        moreover have "take ?n (line_buf k) \<noteq> []" using 4(2) ok(1) by auto
        ultimately show ?thesis using 4 ks es ok m by (simp add: ed_of_def kbd_ok_def)
      next
        case 5
        have m: "nat (line_len k + 1) = Suc ?n" using ok(2) by simp
        show ?thesis using 5 ks es ok m tk n by (auto simp: ed_of_def kbd_ok_def put_char_def)
      qed (use ks es ok assms in \<open>simp_all add: ed_of_def kbd_ok_def\<close>)
    qed (use lt ok assms in \<open>auto simp: keyboard_key_def edit_key_def ed_of_def kbd_ok_def\<close>)
  qed
qed

section \<open>Runs\<close>

text \<open>\<open>n\<close> keyboard interrupts in a row, and the scancodes the controller delivers for them.\<close>

fun keyboard_callbacks :: "'d io \<Rightarrow> nat \<Rightarrow> keyboard \<times> 'd \<Rightarrow> ((console \<times> u8 list option) list \<times> keyboard \<times> 'd) option" where
  "keyboard_callbacks io 0 kd = Some ([], kd)"
| "keyboard_callbacks io (Suc n) kd = do {
     (out, kd) \<leftarrow> keyboard_callback io kd;
     (outs, kd) \<leftarrow> keyboard_callbacks io n kd;
     Some (out # outs, kd)
   }"

fun scancodes :: "'d io \<Rightarrow> nat \<Rightarrow> 'd \<Rightarrow> u8 list" where
  "scancodes io 0 d = []"
| "scancodes io (Suc n) d = (let (sc, d) = inb io KBD_DATA_PORT d in sc # scancodes io n d)"

fun edit_keys :: "u8 list \<Rightarrow> editor \<Rightarrow> (console \<times> u8 list option) list \<times> editor" where
  "edit_keys [] e = ([], e)"
| "edit_keys (sc # scs) e = (let (out, e) = edit_key sc e; (outs, e) = edit_keys scs e in (out # outs, e))"

lemma keyboard_callbacks_ok:
  "kbd_ok k \<Longrightarrow> \<exists>outs k' d'. keyboard_callbacks io n (k, d) = Some (outs, k', d') \<and> kbd_ok k'
     \<and> edit_keys (scancodes io n d) (ed_of k) = (outs, ed_of k')"
proof (induction n arbitrary: k d)
  case (Suc n)
  obtain sc d1 where i: "inb io KBD_DATA_PORT d = (sc, d1)" by fastforce
  obtain out k1 where k1: "keyboard_key sc k = Some (out, k1)" "kbd_ok k1" "edit_key sc (ed_of k) = (out, ed_of k1)"
    using keyboard_key_ok [OF Suc.prems] by blast
  obtain outs k' d' where "keyboard_callbacks io n (k1, d1) = Some (outs, k', d')" "kbd_ok k'"
    "edit_keys (scancodes io n d1) (ed_of k1) = (outs, ed_of k')"
    using Suc.IH [OF k1(2)] by blast
  then show ?case using i k1 by (simp add: keyboard_callback_def)
qed simp

text \<open>C23. The keyboard driver is a line editor. After any number of key interrupts, whatever the
  controller delivered, the driver has returned from each without touching memory outside its line buffer,
  the characters it echoed and the lines it handed to its handler are those of the reference editor
  (letters follow shift exclusive-or caps lock, other keys follow shift, backspace drops the last character,
  a line is cut at 127 characters, enter submits), and so are the text being edited and the modifier
  state.\<close>

theorem keyboard_edits:
  assumes "kbd_ok k"
  shows "\<exists>outs k' d'. keyboard_callbacks io n (k, d) = Some (outs, k', d') \<and> kbd_ok k'
     \<and> edit_keys (scancodes io n d) (ed_of k) = (outs, ed_of k')"
  by (rule keyboard_callbacks_ok [OF assms])

text \<open>A driver in its initial state with the handler set, and a controller that delivers a list of codes:
  shift down, h, shift up, i, x, backspace, caps lock, o, enter.\<close>

definition kbd_start :: keyboard where
  "kbd_start = keyboard_set_line_handler \<lparr>line_buf = replicate 128 0, line_len = 0, shift = False, caps = False, line_handler = False\<rparr>"

definition code_list_io :: "u8 list io" where
  "code_list_io = \<lparr>inb = (\<lambda>p d. (hd d, tl d)), outb = (\<lambda>p v d. d), insw = (\<lambda>p n d. ([], d)), outsw = (\<lambda>p bs d. d)\<rparr>"

lemma kbd_start_ok: "kbd_ok kbd_start"
  by (simp add: kbd_ok_def kbd_start_def keyboard_set_line_handler_def)

theorem keyboard_edits_witness:
  "\<exists>outs k' d'. keyboard_callbacks code_list_io 9 (kbd_start, [0x2A, 0x23, 0xAA, 0x17, 0x2D, 0x0E, 0x3A, 0x18, 0x1C]) = Some (outs, k', d')
     \<and> kbd_ok k' \<and> outs ! 8 = ([Kputc 0x0A], Some (str ''HiO'')) \<and> ed_text (ed_of k') = []"
proof -
  let ?d = "[0x2A, 0x23, 0xAA, 0x17, 0x2D, 0x0E, 0x3A, 0x18, 0x1C] :: u8 list"
  obtain outs k' d' where r: "keyboard_callbacks code_list_io 9 (kbd_start, ?d) = Some (outs, k', d')" "kbd_ok k'"
    "edit_keys (scancodes code_list_io 9 ?d) (ed_of kbd_start) = (outs, ed_of k')"
    using keyboard_edits [OF kbd_start_ok, of code_list_io 9 ?d] by blast
  have "scancodes code_list_io 9 ?d = ?d" by (simp add: code_list_io_def eval_nat_numeral)
  then have "edit_keys ?d (ed_of kbd_start) = (outs, ed_of k')" using r(3) by simp
  then have "outs ! 8 = ([Kputc 0x0A], Some (str ''HiO'')) \<and> ed_text (ed_of k') = []"
    by (auto simp: edit_key_def key_symbol_def is_letter_iff lower_eq upper_eq ed_of_def kbd_start_def keyboard_set_line_handler_def str_def Let_def)
  then show ?thesis using r by blast
qed

end
