(* ===== verification/Interrupts.thy ===== *)
theory Interrupts
  imports Descriptors Keyboard Task
begin

text \<open>
  \<^verbatim>\<open>cpu/isr.c\<close>, \<^verbatim>\<open>drivers/timer.c\<close> and the registration of the keyboard: the interrupt controllers are
  remapped, the stubs of \<^verbatim>\<open>cpu/interrupt.asm\<close> (whose addresses are parameters) are entered in the
  descriptor table, and the interrupt handler acknowledges and dispatches. The two handlers the kernel
  registers are the constructors of \<open>isr_t\<close>. The 8259 controllers behind the ports are described by
  \<open>pic_laws\<close>; a simulated pair shows that the laws can be had.
\<close>

section \<open>Model\<close>

record registers =
  r_ds :: u32
  r_edi :: u32
  r_esi :: u32
  r_ebp :: u32
  r_esp :: u32
  r_ebx :: u32
  r_edx :: u32
  r_ecx :: u32
  r_eax :: u32
  r_int_no :: u32
  r_err_code :: u32
  r_eip :: u32
  r_cs :: u32
  r_eflags :: u32
  r_useresp :: u32
  r_ss :: u32

datatype isr_t = Timer_callback | Keyboard_callback

record isys =
  interrupt_handlers :: "isr_t option list"
  ticks :: u32
  kbd :: keyboard
  tasks :: tsys

abbreviation (input) "IRQ0 \<equiv> 32 :: u8"
abbreviation (input) "IRQ1 \<equiv> 33 :: u8"
abbreviation (input) "VGA_BLACK \<equiv> 0 :: u8"
abbreviation (input) "VGA_RED \<equiv> 4 :: u8"
abbreviation (input) "VGA_LIGHT_GREY \<equiv> 7 :: u8"
abbreviation (input) "VGA_WHITE \<equiv> 15 :: u8"

subsection \<open>isr.c\<close>

definition exception_messages :: "u8 list list" where
  "exception_messages = map str [
     ''Division By Zero'', ''Debug'', ''Non Maskable Interrupt'', ''Breakpoint'', ''Into Detected Overflow'', ''Out of Bounds'',
     ''Invalid Opcode'', ''No Coprocessor'', ''Double Fault'', ''Coprocessor Segment Overrun'', ''Bad TSS'', ''Segment Not Present'',
     ''Stack Fault'', ''General Protection Fault'', ''Page Fault'', ''Unknown Interrupt'', ''Coprocessor Fault'', ''Alignment Check'',
     ''Machine Check'', ''Reserved'', ''Reserved'', ''Reserved'', ''Reserved'', ''Reserved'', ''Reserved'', ''Reserved'', ''Reserved'',
     ''Reserved'', ''Reserved'', ''Reserved'', ''Reserved'', ''Reserved'']"

definition pic_remap :: "'d io \<Rightarrow> 'd \<Rightarrow> 'd" where
  "pic_remap io d =
     (let d = io_wait io (outb io 0x20 0x11 d);
          d = io_wait io (outb io 0xA0 0x11 d);
          d = io_wait io (outb io 0x21 0x20 d);
          d = io_wait io (outb io 0xA1 0x28 d);
          d = io_wait io (outb io 0x21 0x04 d);
          d = io_wait io (outb io 0xA1 0x02 d);
          d = io_wait io (outb io 0x21 0x01 d);
          d = io_wait io (outb io 0xA1 0x01 d);
          d = outb io 0x21 0x00 d
      in outb io 0xA1 0x00 d)"

text \<open>A run of \<^verbatim>\<open>set_idt_gate\<close> calls on consecutive vectors.\<close>

fun set_idt_gates :: "int \<Rightarrow> u32 list \<Rightarrow> idt_gate list \<Rightarrow> idt_gate list option" where
  "set_idt_gates n [] t = Some t"
| "set_idt_gates n (h # hs) t = do { t \<leftarrow> set_idt_gate n h t; set_idt_gates (n + 1) hs t }"

definition isr_install :: "'d io \<Rightarrow> (nat \<Rightarrow> u32) \<Rightarrow> (nat \<Rightarrow> u32) \<Rightarrow> u32 \<Rightarrow> idt_gate list \<times> seg_cpu \<times> 'd \<Rightarrow> (idt_gate list \<times> seg_cpu \<times> 'd) option" where
  "isr_install io isr irq a_idt s = do {
     let (t, c, d) = s;
     t \<leftarrow> set_idt_gates 0 (map isr [0..<32]) t;
     let d = pic_remap io d;
     t \<leftarrow> set_idt_gates 32 (map irq [0..<16]) t;
     t \<leftarrow> set_idt_gate_dpl 0x80 (isr 128) 3 t;
     Some (t, load_idt a_idt c, d)
   }"

text \<open>What the exception handler prints before it halts for good; \<open>cr2\<close> is the register it reads.\<close>

definition isr_handler :: "u32 \<Rightarrow> registers \<Rightarrow> console option" where
  "isr_handler cr2 r =
     (if unat (r_int_no r) < length exception_messages then
        Some ([Set_color (VGA_COLOR VGA_WHITE VGA_RED),
               Kprint (0x0A # str ''[EXCEPTION] ''),
               Kprint (exception_messages ! unat (r_int_no r)),
               Kprint (str '' (err=''), Kprint_hex (r_err_code r),
               Kprint (str '' eip=''), Kprint_hex (r_eip r)]
              @ (if r_int_no r = 14 then [Kprint (str '' cr2=''), Kprint_hex cr2] else [])
              @ [Kprint (str '')'' @ [0x0A]), Set_color (VGA_COLOR VGA_LIGHT_GREY VGA_BLACK)])
      else None)"

definition register_interrupt_handler :: "u8 \<Rightarrow> isr_t \<Rightarrow> isys \<Rightarrow> isys option" where
  "register_interrupt_handler n h s =
     (if unat n < length (interrupt_handlers s) then Some (s\<lparr>interrupt_handlers := (interrupt_handlers s)[unat n := Some h]\<rparr>) else None)"

subsection \<open>timer.c and keyboard.c\<close>

abbreviation (input) "PIT_FREQ \<equiv> 1193182 :: u32"
abbreviation (input) "PIT_CMD \<equiv> 0x43 :: u16"
abbreviation (input) "PIT_CH0 \<equiv> 0x40 :: u16"

definition timer_callback :: "code_addrs \<Rightarrow> isys \<Rightarrow> isys option" where
  "timer_callback cd s = do {
     let s = s\<lparr>ticks := ticks s + 1\<rparr>;
     t \<leftarrow> schedule cd (tasks s);
     Some (s\<lparr>tasks := t\<rparr>)
   }"

definition timer_ticks :: "isys \<Rightarrow> u32" where "timer_ticks s = ticks s"

text \<open>Division by zero is \<open>None\<close>.\<close>

definition init_timer :: "'d io \<Rightarrow> u32 \<Rightarrow> isys \<times> 'd \<Rightarrow> (isys \<times> 'd) option" where
  "init_timer io freq_hz sd = (if freq_hz = 0 then None else do {
     let (s, d) = sd;
     let divisor = PIT_FREQ div freq_hz;
     let d = outb io PIT_CMD 0x36 d;
     let d = outb io PIT_CH0 (ucast (divisor AND 0xFF)) d;
     let d = outb io PIT_CH0 (ucast (drop_bit 8 divisor AND 0xFF)) d;
     s \<leftarrow> register_interrupt_handler IRQ0 Timer_callback s;
     Some (s, d)
   })"

definition init_keyboard :: "isys \<Rightarrow> isys option" where
  "init_keyboard s = register_interrupt_handler IRQ1 Keyboard_callback s"

text \<open>The call through the table.\<close>

definition call_handler :: "code_addrs \<Rightarrow> 'd io \<Rightarrow> isr_t \<Rightarrow> isys \<times> 'd \<Rightarrow> ((console \<times> u8 list option) \<times> isys \<times> 'd) option" where
  "call_handler cd io h sd = (case h of
     Timer_callback \<Rightarrow> do { s \<leftarrow> timer_callback cd (fst sd); Some (([], None), s, snd sd) }
   | Keyboard_callback \<Rightarrow> do {
       (out, k, d) \<leftarrow> keyboard_callback io (kbd (fst sd), snd sd);
       Some (out, (fst sd)\<lparr>kbd := k\<rparr>, d)
     })"

definition irq_handler :: "code_addrs \<Rightarrow> 'd io \<Rightarrow> registers \<Rightarrow> isys \<times> 'd \<Rightarrow> ((console \<times> u8 list option) \<times> isys \<times> 'd) option" where
  "irq_handler cd io r sd = do {
     let (s, d) = sd;
     let d = (if r_int_no r \<ge> 40 then outb io 0xA0 0x20 d else d);
     let d = outb io 0x20 0x20 d;
     if unat (r_int_no r) < length (interrupt_handlers s) then
       case interrupt_handlers s ! unat (r_int_no r) of
         None \<Rightarrow> Some (([], None), s, d)
       | Some h \<Rightarrow> call_handler cd io h (s, d)
     else None
   }"

section \<open>The interrupt controllers\<close>

text \<open>An 8259: how many initialisation words are still expected, the vector of its line 0, the mask, and
  the lines in service, most urgent first. A command with bit 4 set starts the initialisation; the
  following data words are the vector offset, the cascade wiring and the mode; afterwards a data write
  is the mask. Command \<open>0x20\<close> ends the most urgent interrupt in service.\<close>

record pic =
  p_init :: nat
  p_offset :: u8
  p_cascade :: u8
  p_mode :: u8
  p_mask :: u8
  p_serving :: "nat list"

definition pic_command :: "u8 \<Rightarrow> pic \<Rightarrow> pic" where
  "pic_command v p = (if bit v 4 then p\<lparr>p_init := 3, p_mask := 0, p_serving := []\<rparr>
     else if v = 0x20 then p\<lparr>p_serving := tl (p_serving p)\<rparr> else p)"

definition pic_data :: "u8 \<Rightarrow> pic \<Rightarrow> pic" where
  "pic_data v p = (if p_init p = 3 then p\<lparr>p_offset := v AND 0xF8, p_init := 2\<rparr>
     else if p_init p = 2 then p\<lparr>p_cascade := v, p_init := 1\<rparr>
     else if p_init p = 1 then p\<lparr>p_mode := v, p_init := 0\<rparr>
     else p\<lparr>p_mask := v\<rparr>)"

text \<open>A machine with the two controllers at their ports: \<open>view\<close> is the master and the slave.\<close>

definition pic_laws :: "'d io \<Rightarrow> ('d \<Rightarrow> pic \<times> pic) \<Rightarrow> bool" where
  "pic_laws io view \<longleftrightarrow>
     (\<forall>v d. view (outb io 0x20 v d) = apfst (pic_command v) (view d))
   \<and> (\<forall>v d. view (outb io 0x21 v d) = apfst (pic_data v) (view d))
   \<and> (\<forall>v d. view (outb io 0xA0 v d) = apsnd (pic_command v) (view d))
   \<and> (\<forall>v d. view (outb io 0xA1 v d) = apsnd (pic_data v) (view d))
   \<and> (\<forall>v d. view (outb io 0x80 v d) = view d)
   \<and> (\<forall>d. view (snd (inb io KBD_DATA_PORT d)) = view d)"

text \<open>Line \<open>k\<close> of the pair: the vector it raises, and the controllers while it is served. The slave is
  wired to line 2 of the master.\<close>

definition irq_vector :: "pic \<times> pic \<Rightarrow> nat \<Rightarrow> nat" where
  "irq_vector v k = (if k < 8 then unat (p_offset (fst v)) + k else unat (p_offset (snd v)) + (k - 8))"

definition irq_masked :: "pic \<times> pic \<Rightarrow> nat \<Rightarrow> bool" where
  "irq_masked v k \<longleftrightarrow> (if k < 8 then bit (p_mask (fst v)) k else bit (p_mask (snd v)) (k - 8) \<or> bit (p_mask (fst v)) 2)"

definition serve :: "nat \<Rightarrow> pic \<Rightarrow> pic" where
  "serve k p = p\<lparr>p_serving := k # p_serving p\<rparr>"

definition irq_raise :: "nat \<Rightarrow> pic \<times> pic \<Rightarrow> pic \<times> pic" where
  "irq_raise k v = (if k < 8 then apfst (serve k) v else map_prod (serve 2) (serve (k - 8)) v)"

section \<open>Lemmas\<close>

text \<open>The controllers after the remapping.\<close>

lemma pic_remap_view:
  assumes "pic_laws io view"
  shows "view (pic_remap io d) = map_prod
    (\<lambda>p. p\<lparr>p_init := 0, p_offset := 0x20, p_cascade := 4, p_mode := 1, p_mask := 0, p_serving := []\<rparr>)
    (\<lambda>p. p\<lparr>p_init := 0, p_offset := 0x28, p_cascade := 2, p_mode := 1, p_mask := 0, p_serving := []\<rparr>) (view d)"
  using assms
  by (cases "view d") (simp add: pic_laws_def pic_remap_def io_wait_def pic_command_def pic_data_def Let_def bit_numeral_word_iff)

text \<open>A present 32-bit interrupt gate of the kernel code segment that leads to \<open>h\<close> and that software at
  privilege \<open>pl\<close> or better may call.\<close>

definition enters :: "idt_gate list \<Rightarrow> nat \<Rightarrow> u32 \<Rightarrow> nat \<Rightarrow> bool" where
  "enters t n h pl \<longleftrightarrow> gate_offset (t ! n) = h \<and> selector (t ! n) = GDT_KERNEL_CODE \<and> flags (t ! n) AND 0x9F = 0x8E
     \<and> dpl_of (flags (t ! n)) = pl"

definition user_callable :: "idt_gate list \<Rightarrow> nat \<Rightarrow> bool" where
  "user_callable t n \<longleftrightarrow> bit (flags (t ! n)) 7 \<and> dpl_of (flags (t ! n)) = 3"

lemma enters_kernel: "gate_offset g = h \<Longrightarrow> selector g = KERNEL_CS \<Longrightarrow> flags g = 0x8E \<Longrightarrow> n < length t \<Longrightarrow> enters (t[n := g]) n h 0"
  by (simp add: enters_def dpl_of_def)

lemma enters_cong: "t' ! n = t ! n \<Longrightarrow> enters t' n h r = enters t n h r"
  by (simp add: enters_def)

lemma enters_callable: "enters t n h r \<Longrightarrow> user_callable t n \<longleftrightarrow> r = 3"
proof -
  assume e: "enters t n h r"
  have "bit (flags (t ! n) AND 0x9F) 7" using e by (simp add: enters_def bit_numeral_word_iff)
  then show ?thesis using e by (simp add: enters_def user_callable_def bit_and_iff)
qed

lemma set_idt_gates_ok:
  "n + length hs \<le> length t \<Longrightarrow> \<exists>t'. set_idt_gates (int n) hs t = Some t' \<and> length t' = length t
     \<and> (\<forall>i < length hs. enters t' (n + i) (hs ! i) 0) \<and> (\<forall>j. j < n \<or> n + length hs \<le> j \<longrightarrow> t' ! j = t ! j)"
proof (induction hs arbitrary: n t)
  case (Cons h hs)
  obtain g where g: "set_idt_gate (int n) h t = Some (t[n := g])" "gate_offset g = h" "selector g = KERNEL_CS" "flags g = 0x8E"
    using set_idt_gate_decodes [of n t h] Cons.prems by auto
  have "Suc n + length hs \<le> length (t[n := g])" using Cons.prems by simp
  from Cons.IH [OF this] obtain t' where t': "set_idt_gates (int (Suc n)) hs (t[n := g]) = Some t'" "length t' = length t"
    "\<And>i. i < length hs \<Longrightarrow> enters t' (Suc n + i) (hs ! i) 0" "\<And>j. j < Suc n \<or> Suc n + length hs \<le> j \<Longrightarrow> t' ! j = t[n := g] ! j"
    by (metis length_list_update)
  have "enters t' n h 0" using enters_kernel [OF g(2-4), of n t] enters_cong [OF t'(4), of n] Cons.prems by simp
  then have "enters t' (n + i) ((h # hs) ! i) 0" if "i < length (h # hs)" for i
    using that t'(3) [of "i - 1"] by (cases i) auto
  moreover have "t' ! j = t ! j" if "j < n \<or> n + length (h # hs) \<le> j" for j
    using that t'(4) [of j] by auto
  ultimately show ?case using g(1) t'(1,2) by (intro exI [of _ t']) (simp add: algebra_simps)
qed simp

text \<open>The gates after \<^verbatim>\<open>isr_install\<close>: exceptions, hardware lines and the system call, and nothing else.\<close>

definition gates_ok :: "(nat \<Rightarrow> u32) \<Rightarrow> (nat \<Rightarrow> u32) \<Rightarrow> idt_gate list \<Rightarrow> bool" where
  "gates_ok isr irq t \<longleftrightarrow> (\<forall>n < 32. enters t n (isr n) 0) \<and> (\<forall>k < 16. enters t (32 + k) (irq k) 0) \<and> enters t 128 (isr 128) 3
     \<and> (\<forall>n < 256. user_callable t n \<longleftrightarrow> n = 128)"

lemma isr_install_gates:
  "\<exists>t. isr_install io isr irq a_idt (replicate 256 \<lparr>low_offset = 0, selector = 0, always0 = 0, flags = 0, high_offset = 0\<rparr>, c, d)
     = Some (t, load_idt a_idt c, pic_remap io d) \<and> gates_ok isr irq t"
proof -
  let ?z = "\<lparr>low_offset = 0, selector = 0, always0 = 0, flags = 0, high_offset = 0\<rparr> :: idt_gate"
  let ?init = "replicate 256 ?z"
  obtain t1 where t1: "set_idt_gates 0 (map isr [0..<32]) ?init = Some t1" "length t1 = 256" "\<And>i. i < 32 \<Longrightarrow> enters t1 i (isr i) 0"
    "\<And>j. 32 \<le> j \<Longrightarrow> t1 ! j = ?init ! j"
    using set_idt_gates_ok [of 0 "map isr [0..<32]" ?init] by auto
  obtain t2 where t2: "set_idt_gates 32 (map irq [0..<16]) t1 = Some t2" "length t2 = 256" "\<And>i. i < 16 \<Longrightarrow> enters t2 (32 + i) (irq i) 0"
    "\<And>j. j < 32 \<or> 48 \<le> j \<Longrightarrow> t2 ! j = t1 ! j"
    using set_idt_gates_ok [of 32 "map irq [0..<16]" t1] t1(2) by auto
  obtain g where g: "set_idt_gate_dpl 0x80 (isr 128) 3 t2 = Some (t2[128 := g])" "gate_offset g = isr 128" "selector g = KERNEL_CS"
    "flags g AND 0x9F = 0x8E" "dpl_of (flags g) = 3"
    using set_idt_gate_dpl_decodes [of 128 t2 3 "isr 128"] t2(2) by auto
  let ?fin = "t2[128 := g]"
  have e: "enters ?fin (32 + k) (irq k) 0" if "k < 16" for k using t2(3) [OF that] that by (simp add: enters_def)
  have x: "enters ?fin n (isr n) 0" if "n < 32" for n using t1(3) [OF that] t2(4) [of n] that by (simp add: enters_def)
  have s: "enters ?fin 128 (isr 128) 3" using g t2(2) by (simp add: enters_def)
  have u: "user_callable ?fin n \<longleftrightarrow> n = 128" if "n < 256" for n
  proof -
    consider "n < 32" | "32 \<le> n" "n < 48" | "n = 128" | "48 \<le> n" "n \<noteq> 128" by linarith
    then show ?thesis
    proof cases
      case 2
      then have "enters ?fin n (irq (n - 32)) 0" using e [of "n - 32"] by simp
      from enters_callable [OF this] 2 show ?thesis by simp
    next
      case 4
      then have "?fin ! n = ?z" using t2(4) [of n] t1(4) [of n] that by simp
      then show ?thesis using 4 by (simp add: user_callable_def)
    qed (use enters_callable [OF x, of n] enters_callable [OF s] in auto)
  qed
  have "isr_install io isr irq a_idt (?init, c, d) = Some (?fin, load_idt a_idt c, pic_remap io d)"
    using t1(1) t2(1) g(1) by (simp add: isr_install_def)
  then show ?thesis using e x s u by (intro exI [of _ ?fin]) (simp add: gates_ok_def)
qed

text \<open>C31. Interrupts arrive where they should and user code gets in only by the system call gate. On a
  machine with two 8259 controllers, after \<^verbatim>\<open>isr_install\<close> on the empty table: every hardware line \<open>k\<close> is
  unmasked and raises vector \<open>32 + k\<close>, away from the processor's exceptions; that vector leads to the line's
  stub and vectors 0 to 31 to the exception stubs, all at kernel privilege through a ring-0 code selector;
  vector 0x80 leads to the system call stub; and of all 256 vectors it is the only one that ring 3 can
  call.\<close>

theorem isr_installed:
  assumes "pic_laws io view"
  shows "\<exists>t c' d'. isr_install io isr irq a_idt (replicate 256 \<lparr>low_offset = 0, selector = 0, always0 = 0, flags = 0, high_offset = 0\<rparr>, c, d)
      = Some (t, c', d')
     \<and> idtr c' = \<lparr>dt_limit = 2047, dt_base = a_idt\<rparr>
     \<and> (\<forall>k < 16. irq_vector (view d') k = 32 + k \<and> \<not> irq_masked (view d') k \<and> enters t (irq_vector (view d') k) (irq k) 0)
     \<and> (\<forall>n < 32. enters t n (isr n) 0) \<and> enters t 128 (isr 128) 3
     \<and> (\<forall>n < 256. user_callable t n \<longleftrightarrow> n = 128)"
proof -
  from isr_install_gates [of io isr irq a_idt c d] obtain t where t: "isr_install io isr irq a_idt (replicate 256 \<lparr>low_offset = 0, selector = 0, always0 = 0, flags = 0, high_offset = 0\<rparr>, c, d)
     = Some (t, load_idt a_idt c, pic_remap io d)" "gates_ok isr irq t" by blast
  have v: "irq_vector (view (pic_remap io d)) k = 32 + k" "\<not> irq_masked (view (pic_remap io d)) k" if "k < 16" for k
    using that by (auto simp: pic_remap_view [OF assms] irq_vector_def irq_masked_def)
  show ?thesis using t v
    by (intro exI [of _ t] exI [of _ "load_idt a_idt c"] exI [of _ "pic_remap io d"]) (simp add: load_idt_def gates_ok_def)
qed

text \<open>Two simulated controllers.\<close>

definition pic_io :: "(pic \<times> pic) io" where
  "pic_io = \<lparr>inb = (\<lambda>p d. (0x1C, d)), outb = (\<lambda>p v d. if p = 0x20 then apfst (pic_command v) d else if p = 0x21 then apfst (pic_data v) d
     else if p = 0xA0 then apsnd (pic_command v) d else if p = 0xA1 then apsnd (pic_data v) d else d),
     insw = (\<lambda>p n d. ([], d)), outsw = (\<lambda>p bs d. d)\<rparr>"

lemma pic_io_laws: "pic_laws pic_io id"
  by (simp add: pic_laws_def pic_io_def)

theorem isr_installed_witness:
  "\<exists>c t c' d'. isr_install pic_io (\<lambda>n. 0x1000 + of_nat n) (\<lambda>n. 0x2000) 0x5000
      (replicate 256 \<lparr>low_offset = 0, selector = 0, always0 = 0, flags = 0, high_offset = 0\<rparr>, c,
       (\<lparr>p_init = 0, p_offset = 8, p_cascade = 0, p_mode = 0, p_mask = 0xFF, p_serving = []\<rparr>,
        \<lparr>p_init = 0, p_offset = 0x70, p_cascade = 0, p_mode = 0, p_mask = 0xFF, p_serving = []\<rparr>)) = Some (t, c', d')
     \<and> gate_offset (t ! 14) = 0x100E \<and> irq_vector d' 12 = 44 \<and> user_callable t 128 \<and> \<not> user_callable t 14"
proof -
  let ?c = "\<lparr>gdtr = \<lparr>dt_limit = 0, dt_base = 0\<rparr>, idtr = \<lparr>dt_limit = 0, dt_base = 0\<rparr>, sel_cs = 8, sel_data = 16, sel_tr = 0\<rparr>"
  let ?d = "(\<lparr>p_init = 0, p_offset = 8, p_cascade = 0, p_mode = 0, p_mask = 0xFF, p_serving = []\<rparr>,
        \<lparr>p_init = 0, p_offset = 0x70, p_cascade = 0, p_mode = 0, p_mask = 0xFF, p_serving = []\<rparr>)"
  from isr_installed [OF pic_io_laws, where isr = "\<lambda>n. 0x1000 + of_nat n" and irq = "\<lambda>n. 0x2000" and a_idt = "0x5000" and c = ?c and d = ?d]
  obtain t c' d' where r: "isr_install pic_io (\<lambda>n. 0x1000 + of_nat n) (\<lambda>n. 0x2000) 0x5000
      (replicate 256 \<lparr>low_offset = 0, selector = 0, always0 = 0, flags = 0, high_offset = 0\<rparr>, ?c, ?d) = Some (t, c', d')"
    "\<forall>k < 16. irq_vector (id d') k = 32 + k \<and> \<not> irq_masked (id d') k \<and> enters t (irq_vector (id d') k) 0x2000 0"
    "\<forall>n < 32. enters t n (0x1000 + of_nat n) 0" "\<forall>n < 256. user_callable t n \<longleftrightarrow> n = 128" by blast
  have "gate_offset (t ! 14) = 0x100E" using r(3) [rule_format, of 14] by (simp add: enters_def)
  moreover have "irq_vector d' 12 = 44" using r(2) by simp
  moreover have "user_callable t 128" "\<not> user_callable t 14" using r(4) by auto
  ultimately show ?thesis using r(1) by blast
qed

lemma keyboard_callback_view:
  assumes "pic_laws io view" and "keyboard_callback io (kb, d) = Some (out, kb', d')"
  shows "view d' = view d"
proof -
  obtain sc d3 where i: "inb io KBD_DATA_PORT d = (sc, d3)" by fastforce
  then have "d' = d3" using assms(2) by (auto simp: keyboard_callback_def bind_eq_Some_conv)
  moreover have "view (snd (inb io KBD_DATA_PORT d)) = view d" using assms(1) unfolding pic_laws_def by blast
  ultimately show ?thesis using i by simp
qed

text \<open>C32. An interrupt is acknowledged before its handler runs, and reaches exactly the handler registered
  for it. When line \<open>k\<close> is being served, \<^verbatim>\<open>irq_handler\<close> brings both controllers back to the state before
  the interrupt, so the next tick can arrive even if the timer's handler switches to another task and
  this call returns only much later. Once timer and keyboard are registered, line 0 advances the tick
  counter and calls the scheduler, line 1 runs the keyboard driver on the scancode read, and every other
  line does nothing more.\<close>

theorem irq_acknowledged:
  assumes "pic_laws io view" and "length (interrupt_handlers s) = 256" and "k < 16" and "view d = irq_raise k v"
    and "r_int_no r = of_nat (32 + k)"
    and "interrupt_handlers s0 = replicate 256 None" and "init_keyboard s0 = Some s1" and "init_timer io 100 (s1, d0) = Some (s, d0')"
  shows "\<exists>d1. view d1 = v \<and> irq_handler cd io r (s, d) =
     (if k = 0 then do { t \<leftarrow> schedule cd (tasks s); Some (([], None), s\<lparr>ticks := ticks s + 1, tasks := t\<rparr>, d1) }
      else if k = 1 then do { (out, kb, d2) \<leftarrow> keyboard_callback io (kbd s, d1); Some (out, s\<lparr>kbd := kb\<rparr>, d2) }
      else Some (([], None), s, d1))
    \<and> (\<forall>out s' d'. irq_handler cd io r (s, d) = Some (out, s', d') \<longrightarrow> view d' = v)"
proof -
  have s: "interrupt_handlers s = (replicate 256 None)[33 := Some Keyboard_callback, 32 := Some Timer_callback]"
    using assms(6-8) by (auto simp: init_keyboard_def init_timer_def register_interrupt_handler_def bind_eq_Some_conv)
  have n: "unat (r_int_no r) = 32 + k" unfolding assms(5) by (rule unat_of_nat_u32) (use assms(3) in simp)
  have ge: "r_int_no r \<ge> 40 \<longleftrightarrow> 8 \<le> k" using n by (simp add: word_le_nat_alt)
  let ?d1 = "outb io 0x20 0x20 (if r_int_no r \<ge> 40 then outb io 0xA0 0x20 d else d)"
  have v: "view ?d1 = v"
    using assms(1,4) unfolding ge by (cases v) (auto simp: pic_laws_def irq_raise_def serve_def pic_command_def bit_numeral_word_iff)
  have i: "irq_handler cd io r (s, d) = (case interrupt_handlers s ! (32 + k) of None \<Rightarrow> Some (([], None), s, ?d1) | Some h \<Rightarrow> call_handler cd io h (s, ?d1))"
    using n assms(2,3) by (simp add: irq_handler_def Let_def)
  have h: "interrupt_handlers s ! (32 + k) = (if k = 0 then Some Timer_callback else if k = 1 then Some Keyboard_callback else None)"
    using assms(3) by (simp add: s nth_list_update)
  have e: "irq_handler cd io r (s, d) =
     (if k = 0 then do { t \<leftarrow> schedule cd (tasks s); Some (([], None), s\<lparr>ticks := ticks s + 1, tasks := t\<rparr>, ?d1) }
      else if k = 1 then do { (out, kb, d2) \<leftarrow> keyboard_callback io (kbd s, ?d1); Some (out, s\<lparr>kbd := kb\<rparr>, d2) }
      else Some (([], None), s, ?d1))"
    unfolding i h by (simp add: call_handler_def timer_callback_def)
  note K = keyboard_callback_view [OF assms(1)]
  have "view d' = v" if D: "irq_handler cd io r (s, d) = Some (out, s', d')" for out s' d'
  proof -
    consider "k = 0" | "k = 1" | "1 < k" by linarith
    then show ?thesis
    proof cases
      case 2
      then obtain kb where "keyboard_callback io (kbd s, ?d1) = Some (out, kb, d')"
        using D unfolding e by (auto simp: bind_eq_Some_conv)
      then show ?thesis using K v by metis
    qed (use D v in \<open>auto simp: e bind_eq_Some_conv\<close>)
  qed
  with e v show ?thesis by (intro exI [of _ ?d1]) simp
qed

text \<open>Enter is pressed while the controllers serve nothing else; the scheduler's state is that of boot.\<close>

definition idle_isys :: isys where
  "idle_isys = \<lparr>interrupt_handlers = replicate 256 None, ticks = 0, kbd = kbd_start,
     tasks = \<lparr>current = 0, head = 0, next_id = 0, scheduling_on = False,
       tcb = (\<lambda>_. \<lparr>t_esp = 0, t_stack_base = 0, t_kstack_base = 0, t_kstack_top = 0, t_id = 0, t_name = [], t_state = TASK_RUNNING, t_entry = 0, t_next = 0\<rparr>),
       heap = \<lparr>heap_head = 0, kmem = (\<lambda>_. 0)\<rparr>, tss_esp0 = 0,
       proc = \<lparr>ebx = 0, esi = 0, edi = 0, ebp = 0, esp = 0, eip = 0, int_flag = False, halted = False\<rparr>\<rparr>\<rparr>"

definition zero_regs :: registers where
  "zero_regs = \<lparr>r_ds = 0, r_edi = 0, r_esi = 0, r_ebp = 0, r_esp = 0, r_ebx = 0, r_edx = 0, r_ecx = 0, r_eax = 0, r_int_no = 0,
     r_err_code = 0, r_eip = 0, r_cs = 0, r_eflags = 0, r_useresp = 0, r_ss = 0\<rparr>"

theorem irq_acknowledged_witness:
  "\<exists>cd s v s'. irq_handler cd pic_io (zero_regs\<lparr>r_int_no := 33\<rparr>) (s, irq_raise 1 v) = Some (([Kputc 0x0A], Some []), s', v)"
proof -
  let ?p = "\<lparr>p_init = 0, p_offset = 0x20, p_cascade = 4, p_mode = 1, p_mask = 0, p_serving = []\<rparr>"
  let ?cd = "\<lparr>a_task_exit = 0, a_task_bootstrap = 0, a_after_switch = 0\<rparr>"
  let ?hs = "(replicate 256 None)[33 := Some Keyboard_callback]" and ?r = "zero_regs\<lparr>r_int_no := 33\<rparr>"
  let ?s1 = "idle_isys\<lparr>interrupt_handlers := ?hs\<rparr>" and ?s = "idle_isys\<lparr>interrupt_handlers := ?hs[32 := Some Timer_callback]\<rparr>"
  have a: "interrupt_handlers idle_isys = replicate 256 None" "length (interrupt_handlers ?s) = 256" "r_int_no ?r = of_nat (32 + 1)"
    by (simp_all add: idle_isys_def)
  have b: "init_keyboard idle_isys = Some ?s1" unfolding init_keyboard_def register_interrupt_handler_def by (simp add: a(1))
  have c: "init_timer pic_io 100 (?s1, (?p, ?p)) = Some (?s, (?p, ?p))"
    unfolding init_timer_def register_interrupt_handler_def by (simp add: pic_io_def Let_def)
  have "id (irq_raise 1 (?p, ?p)) = irq_raise 1 (?p, ?p)" by simp
  from irq_acknowledged [OF pic_io_laws a(2) _ this a(3,1) b c, of ?cd] obtain d1 where r: "id d1 = (?p, ?p)"
    "irq_handler ?cd pic_io ?r (?s, irq_raise 1 (?p, ?p)) = do { (out, kb, d2) \<leftarrow> keyboard_callback pic_io (kbd ?s, d1); Some (out, ?s\<lparr>kbd := kb\<rparr>, d2) }"
    by auto
  have z: "(replicate 128 (0 :: u8))[0 := 0] = replicate 128 0" "takeWhile (\<lambda>c. c \<noteq> 0) (replicate 128 (0 :: u8)) = []"
    by (simp_all add: list_update_same_conv numeral_eq_Suc)
  have k: "keyboard_callback pic_io (kbd_start, (?p, ?p)) = Some (([Kputc 0x0A], Some []), kbd_start, (?p, ?p))"
    by (simp add: keyboard_callback_def pic_io_def keyboard_key_def key_char_def lower_eq is_letter_iff submit_line_def put_char_def kbd_start_def
        keyboard_set_line_handler_def z)
  have "kbd ?s = kbd_start" by (simp add: idle_isys_def)
  then have "irq_handler ?cd pic_io ?r (?s, irq_raise 1 (?p, ?p)) = Some (([Kputc 0x0A], Some []), ?s\<lparr>kbd := kbd_start\<rparr>, (?p, ?p))"
    using r k by simp
  then show ?thesis by blast
qed

end
