(* ===== verification/Exec.thy ===== *)
theory Exec
  imports Elf Paging Sfs Interrupts
begin

text \<open>
  \<^verbatim>\<open>kernel/exec.c\<close> with \<^verbatim>\<open>kernel/usermode.asm\<close>, \<^verbatim>\<open>cpu/syscall.c\<close> and the user program \<^verbatim>\<open>user/hello.c\<close>: a program
  is loaded from the file system into the user window, entered in ring 3, calls the kernel through
  vector 0x80 and comes back through \<^verbatim>\<open>SYS_EXIT\<close>. The memory is that of the heap, the task that executes
  is the scheduler's current one, and the file system runs on the block cache. What the program does
  between entry and exit is the parameter \<open>run\<close>. \<open>None\<close> is a call that does not return.
\<close>

section \<open>State\<close>

record 'd ksys =
  kt :: tsys
  fsd :: "'d bcache"
  pg :: mmu
  g_kreturn_esp :: u32
  g_exit_code :: int
  g_user_running :: bool

abbreviation (input) "USER_STACK_TOP \<equiv> 0xC00000 :: u32"
abbreviation (input) "MAX_USER_FILE \<equiv> 7168 :: u32"

definition kmem_of :: "'d ksys \<Rightarrow> mem" where
  "kmem_of s = kmem (heap (kt s))"

definition set_kmem :: "mem \<Rightarrow> 'd ksys \<Rightarrow> 'd ksys" where
  "set_kmem m s = s\<lparr>kt := (kt s)\<lparr>heap := (heap (kt s))\<lparr>kmem := m\<rparr>\<rparr>\<rparr>"

definition set_proc :: "cpu \<Rightarrow> 'd ksys \<Rightarrow> 'd ksys" where
  "set_proc c s = s\<lparr>kt := (kt s)\<lparr>proc := c\<rparr>\<rparr>"

definition store_bytes :: "u32 \<Rightarrow> u8 list \<Rightarrow> mem \<Rightarrow> mem" where
  "store_bytes a xs m = (\<lambda>x. if unat (x - a) < length xs then xs ! unat (x - a) else m x)"

section \<open>usermode.asm\<close>

text \<open>The call of \<^verbatim>\<open>enter_user(entry, user_esp, &g_kreturn_esp)\<close>: the three arguments and the return address
  \<open>ret\<close> are pushed, then the callee-saved registers; the stack pointer is stored through the third
  argument; the frame for \<^verbatim>\<open>iret\<close> is pushed and popped by it. \<open>efl\<close> is the flags register, \<open>a_save\<close> the address
  of \<^verbatim>\<open>g_kreturn_esp\<close>.\<close>

definition enter_user :: "u32 \<Rightarrow> u32 \<Rightarrow> u32 \<Rightarrow> u32 \<Rightarrow> u32 \<Rightarrow> 'd ksys \<Rightarrow> 'd ksys" where
  "enter_user ret efl a_save entry user_esp s =
     (let cm = push a_save (proc (kt s), kmem_of s);
          cm = push user_esp cm;
          cm = push entry cm;
          cm = push ret cm;
          cm = push (ebx (fst cm)) cm;
          cm = push (esi (fst cm)) cm;
          cm = push (edi (fst cm)) cm;
          cm = push (ebp (fst cm)) cm;
          saved = esp (fst cm);
          cm = push 0x23 cm;
          cm = push user_esp cm;
          cm = push (efl OR 0x200) cm;
          cm = push 0x1B cm;
          (c, m) = push entry cm
      in set_proc (c\<lparr>ebx := efl OR 0x200, eip := entry, esp := user_esp, int_flag := True\<rparr>) (set_kmem m (s\<lparr>g_kreturn_esp := saved\<rparr>)))"

definition leave_user :: "u32 \<Rightarrow> 'd ksys \<Rightarrow> 'd ksys" where
  "leave_user saved s =
     (let m = kmem_of s
      in set_proc ((proc (kt s))\<lparr>ebp := ld32 m saved, edi := ld32 m (saved + 4), esi := ld32 m (saved + 8), ebx := ld32 m (saved + 12),
                     eip := ld32 m (saved + 16), esp := saved + 20\<rparr>) s)"

section \<open>exec.c\<close>

definition exec_on_exit :: "int \<Rightarrow> 'd ksys \<Rightarrow> 'd ksys" where
  "exec_on_exit code s =
     (let s = s\<lparr>g_exit_code := code\<rparr>;
          s = s\<lparr>g_user_running := False\<rparr>
      in leave_user (g_kreturn_esp s) s)"

text \<open>The part of \<^verbatim>\<open>exec_user\<close> up to the entry into ring 3; \<open>None\<close> instead of an entry point is the result -1.
  \<^verbatim>\<open>sfs_read\<close> stores the bytes it read to \<^verbatim>\<open>buf\<close>.\<close>

definition exec_load :: "'d io \<Rightarrow> int \<Rightarrow> 'd ksys \<Rightarrow> (u32 option \<times> 'd ksys) option" where
  "exec_load io inode s =
     (if g_user_running s then Some (None, s)
      else let t = tcb (kt s) (task_current (kt s)) in
      if t_kstack_top t = 0 then Some (None, s)
      else do {
        (ty, f) \<leftarrow> sfs_type (cache_layer io) inode (fsd s);
        let s = s\<lparr>fsd := f\<rparr>;
        if ty \<noteq> sint SFS_FILE then Some (None, s)
        else do {
          (sz, f) \<leftarrow> sfs_size (cache_layer io) inode (fsd s);
          let s = s\<lparr>fsd := f\<rparr>;
          if sz = 0 \<or> sz > MAX_USER_FILE then Some (None, s)
          else do {
            (buf, h) \<leftarrow> kmalloc sz (heap (kt s));
            let s = s\<lparr>kt := (kt s)\<lparr>heap := h\<rparr>\<rparr>;
            if buf = 0 then Some (None, s)
            else do {
              ((n, out), f) \<leftarrow> sfs_read (cache_layer io) inode sz (fsd s);
              let s = set_kmem (store_bytes buf out (kmem_of s)) (s\<lparr>fsd := f\<rparr>);
              ((rc, entry), m) \<leftarrow> elf_load buf (word_of_int n) (kmem_of s);
              let s = set_kmem m s;
              h \<leftarrow> kfree buf (heap (kt s));
              let s = s\<lparr>kt := (kt s)\<lparr>heap := h\<rparr>\<rparr>;
              if rc \<noteq> 0 then Some (None, s)
              else do {
                p \<leftarrow> paging_set_user USER_BASE (pg s);
                let s = s\<lparr>pg := p\<rparr>;
                let s = s\<lparr>kt := tss_set_kernel_stack (t_kstack_top t) (kt s)\<rparr>;
                let s = s\<lparr>g_exit_code := - 1\<rparr>;
                Some (entry, s\<lparr>g_user_running := True\<rparr>)
              }
            }
          }
        }
      })"

record uaddrs =
  a_exec_ret :: u32
  a_g_kreturn :: u32
  a_eflags :: u32

definition exec_user :: "uaddrs \<Rightarrow> 'd io \<Rightarrow> ('d ksys \<Rightarrow> (console \<times> 'd ksys) option) \<Rightarrow> int \<Rightarrow> 'd ksys \<Rightarrow> ((int \<times> console) \<times> 'd ksys) option" where
  "exec_user ua io run inode s = do {
     (e, s) \<leftarrow> exec_load io inode s;
     case e of
       None \<Rightarrow> Some ((- 1, []), s)
     | Some entry \<Rightarrow> do {
         (out, s) \<leftarrow> run (enter_user (a_exec_ret ua) (a_eflags ua) (a_g_kreturn ua) entry USER_STACK_TOP s);
         let s = s\<lparr>g_user_running := False\<rparr>;
         Some ((g_exit_code s, out), s)
       }
   }"

section \<open>syscall.c\<close>

abbreviation (input) "SYS_WRITE \<equiv> 1 :: u32"
abbreviation (input) "SYS_EXIT \<equiv> 2 :: u32"
abbreviation (input) "SYS_YIELD \<equiv> 3 :: u32"

text \<open>The kernel reads the buffer through the page table; \<open>False\<close> is a page fault on the way.\<close>

fun write_chars :: "mmu \<Rightarrow> mem \<Rightarrow> nat \<Rightarrow> u32 \<Rightarrow> console \<times> bool" where
  "write_chars t m 0 a = ([], True)"
| "write_chars t m (Suc n) a =
     (case translate t False False a of
        None \<Rightarrow> ([], False)
      | Some pa \<Rightarrow> let (out, ok) = write_chars t m n (a + 1) in (Kputc (m pa) # out, ok))"

definition sys_write :: "mmu \<Rightarrow> mem \<Rightarrow> u32 \<Rightarrow> u32 \<Rightarrow> int option \<times> console" where
  "sys_write t m p len =
     (if p < USER_BASE \<or> p + len > USER_TOP then (Some (- 1), [])
      else let (out, ok) = write_chars t m (unat len) p in (if ok then Some (sint len) else None, out))"

text \<open>How the call ends: with a return to the program, by leaving the program, or in a page fault of the
  kernel, at which the exception handler stops the machine. When \<^verbatim>\<open>yield\<close> switches, the assignment to \<^verbatim>\<open>eax\<close>
  happens when the task is resumed.\<close>

datatype sys_end = Sys_return registers | Sys_left | Sys_fault

definition syscall_handler :: "code_addrs \<Rightarrow> registers \<Rightarrow> 'd ksys \<Rightarrow> ((sys_end \<times> console) \<times> 'd ksys) option" where
  "syscall_handler cd r s =
     (if r_eax r = SYS_WRITE then
        let (n, out) = sys_write (pg s) (kmem_of s) (r_ebx r) (r_ecx r)
        in Some ((case n of Some n \<Rightarrow> Sys_return (r\<lparr>r_eax := word_of_int n\<rparr>) | None \<Rightarrow> Sys_fault, out), s)
      else if r_eax r = SYS_EXIT then Some ((Sys_left, []), exec_on_exit (sint (r_ebx r)) s)
      else if r_eax r = SYS_YIELD then do {
        t \<leftarrow> yield cd (kt s);
        Some ((Sys_return (r\<lparr>r_eax := 0\<rparr>), []), s\<lparr>kt := t\<rparr>)
      }
      else Some ((Sys_return (r\<lparr>r_eax := - 1\<rparr>), []), s))"

section \<open>hello.c\<close>

text \<open>\<^verbatim>\<open>int $0x80\<close> with the arguments in registers; \<open>a_msg\<close> is where the linker put the string.\<close>

definition int80 :: "code_addrs \<Rightarrow> u32 \<Rightarrow> u32 \<Rightarrow> u32 \<Rightarrow> 'd ksys \<Rightarrow> ((sys_end \<times> console) \<times> 'd ksys) option" where
  "int80 cd eax b c s = syscall_handler cd (zero_regs\<lparr>r_int_no := 128, r_eax := eax, r_ebx := b, r_ecx := c\<rparr>) s"

partial_function (option) slen :: "mem \<Rightarrow> u32 \<Rightarrow> u32 \<Rightarrow> u32 option" where
  "slen m a n = (if m (a + n) \<noteq> 0 then slen m a (n + 1) else Some n)"

definition hello_start :: "code_addrs \<Rightarrow> u32 \<Rightarrow> 'd ksys \<Rightarrow> (console \<times> 'd ksys) option" where
  "hello_start cd a_msg s = do {
     n \<leftarrow> slen (kmem_of s) a_msg 0;
     ((r, out), s) \<leftarrow> int80 cd SYS_WRITE a_msg n s;
     if r = Sys_fault then None else do {
       ((r, out'), s) \<leftarrow> int80 cd SYS_EXIT 0 0 s;
       Some (out @ out', s)
     }
   }"

end
