(* ===== verification/Shell.thy ===== *)
theory Shell
  imports Exec Green Pmm
begin

text \<open>
  \<^verbatim>\<open>kernel/shell.c\<close>: the command line, path resolution and every command, on the whole kernel's state. The
  output is the sequence of calls to the screen driver in \<open>out\<close>. C strings are lists of their characters;
  a missing argument is \<open>None\<close>. \<open>None\<close> as a result is a call that does not return or an access outside a
  buffer.
\<close>

section \<open>State\<close>

record 'd kernel =
  ks :: "'d ksys"
  ir :: isys
  cwd :: int
  worker_ticks :: u32
  frames :: pmm
  fibers :: gsys
  out :: console

text \<open>What the shell gets from the linker and the rest of the kernel: addresses of code, and what a ring-3
  program does.\<close>

record 'd env =
  ports_of :: "'d io"
  cds :: code_addrs
  uas :: uaddrs
  run_program :: "'d ksys \<Rightarrow> (console \<times> 'd ksys) option"
  a_worker :: u32
  a_trampoline :: u32
  a_gt_body :: u32

abbreviation (input) "VGA_LIGHT_BLUE \<equiv> 9 :: u8"
abbreviation (input) "VGA_LIGHT_GREEN \<equiv> 10 :: u8"

definition say :: "console \<Rightarrow> 'd kernel \<Rightarrow> 'd kernel" where
  "say cs s = s\<lparr>out := out s @ cs\<rparr>"

definition puts :: "string \<Rightarrow> 'd kernel \<Rightarrow> 'd kernel" where
  "puts t = say [Kprint (str t)]"

definition on_fs :: "('d bcache \<Rightarrow> ('a \<times> 'd bcache) option) \<Rightarrow> 'd kernel \<Rightarrow> ('a \<times> 'd kernel) option" where
  "on_fs g s = do { (r, f) \<leftarrow> g (fsd (ks s)); Some (r, s\<lparr>ks := (ks s)\<lparr>fsd := f\<rparr>\<rparr>) }"

definition the_heap :: "'d kernel \<Rightarrow> kheap" where
  "the_heap s = heap (kt (ks s))"

definition set_heap :: "kheap \<Rightarrow> 'd kernel \<Rightarrow> 'd kernel" where
  "set_heap h s = s\<lparr>ks := (ks s)\<lparr>kt := (kt (ks s))\<lparr>heap := h\<rparr>\<rparr>\<rparr>"

definition malloc :: "u32 \<Rightarrow> 'd kernel \<Rightarrow> (u32 \<times> 'd kernel) option" where
  "malloc n s = do { (p, h) \<leftarrow> kmalloc n (the_heap s); Some (p, set_heap h s) }"

definition mfree :: "u32 \<Rightarrow> 'd kernel \<Rightarrow> 'd kernel option" where
  "mfree p s = do { h \<leftarrow> kfree p (the_heap s); Some (set_heap h s) }"

definition kstore :: "u32 \<Rightarrow> u8 list \<Rightarrow> 'd kernel \<Rightarrow> 'd kernel" where
  "kstore a xs s = s\<lparr>ks := set_kmem (store_bytes a xs (kmem_of (ks s))) (ks s)\<rparr>"

definition kload :: "u32 \<Rightarrow> nat \<Rightarrow> 'd kernel \<Rightarrow> u8 list" where
  "kload a n s = bytes (kmem_of (ks s)) a n"

text \<open>\<^verbatim>\<open>strcmp(a, b) == 0\<close> on strings.\<close>

definition streq :: "u8 list \<Rightarrow> u8 list \<Rightarrow> bool" where
  "streq a b \<longleftrightarrow> strcmp_l (a @ [0]) (b @ [0]) = Some 0"

definition is_dots :: "u8 list \<Rightarrow> bool" where
  "is_dots nm \<longleftrightarrow> streq nm DOT \<or> streq nm DOTDOT"

abbreviation (input) "layer E \<equiv> cache_layer (ports_of E)"

section \<open>Paths\<close>

text \<open>The loop over the characters; \<open>part\<close> is the component collected so far, cut to 31 characters.\<close>

fun resolve_loop :: "'d env \<Rightarrow> u8 list \<Rightarrow> int \<Rightarrow> u8 list \<Rightarrow> 'd kernel \<Rightarrow> (int \<times> 'd kernel) option" where
  "resolve_loop E [] cur part s =
     (if 0 < length part then do {
        (cur, s) \<leftarrow> on_fs (sfs_lookup (layer E) cur part) s;
        Some (if cur < 0 then - 1 else cur, s)
      } else Some (cur, s))"
| "resolve_loop E (c # cs) cur part s =
     (if c = 0x2F then
        if 0 < length part then do {
          (cur, s) \<leftarrow> on_fs (sfs_lookup (layer E) cur part) s;
          if cur < 0 then Some (- 1, s) else resolve_loop E cs cur [] s
        } else resolve_loop E cs cur part s
      else resolve_loop E cs cur (if length part < 31 then part @ [c] else part) s)"

definition resolve :: "'d env \<Rightarrow> u8 list \<Rightarrow> 'd kernel \<Rightarrow> (int \<times> 'd kernel) option" where
  "resolve E fpath s = resolve_loop E fpath (if fpath \<noteq> [] \<and> hd fpath = 0x2F then SFS_ROOT else cwd s) [] s"

partial_function (option) name_of_loop :: "'d env \<Rightarrow> int \<Rightarrow> int \<Rightarrow> int \<Rightarrow> 'd kernel \<Rightarrow> (u8 list option \<times> 'd kernel) option" where
  "name_of_loop E parent child i s = do {
     ((ino, nm), s) \<leftarrow> on_fs (sfs_readdir (layer E) parent i) s;
     case nm of
       Some nm \<Rightarrow> if ino < 0 then Some (None, s)
                  else if ino = child \<and> \<not> is_dots nm then Some (Some nm, s)
                  else name_of_loop E parent child (i + 1) s
     | None \<Rightarrow> Some (None, s)
   }"

definition name_of :: "'d env \<Rightarrow> int \<Rightarrow> int \<Rightarrow> 'd kernel \<Rightarrow> (u8 list option \<times> 'd kernel) option" where
  "name_of E parent child s = name_of_loop E parent child 0 s"

text \<open>Up to 16 steps towards the root; the names found, nearest first.\<close>

fun cwd_parts :: "'d env \<Rightarrow> nat \<Rightarrow> int \<Rightarrow> 'd kernel \<Rightarrow> (u8 list list \<times> 'd kernel) option" where
  "cwd_parts E 0 cur s = Some ([], s)"
| "cwd_parts E (Suc n) cur s =
     (if cur = SFS_ROOT then Some ([], s) else do {
        (parent, s) \<leftarrow> on_fs (sfs_lookup (layer E) cur DOTDOT) s;
        if parent < 0 then Some ([], s) else do {
          (nm, s) \<leftarrow> name_of E parent cur s;
          case nm of
            None \<Rightarrow> Some ([], s)
          | Some nm \<Rightarrow> do { (ps, s) \<leftarrow> cwd_parts E n parent s; Some (nm # ps, s) }
        }
      })"

definition print_cwd :: "'d env \<Rightarrow> 'd kernel \<Rightarrow> 'd kernel option" where
  "print_cwd E s =
     (if cwd s = SFS_ROOT then Some (puts ''/'' s) else do {
        (ps, s) \<leftarrow> cwd_parts E 16 (cwd s) s;
        Some (say (concat (map (\<lambda>p. [Kprint (str ''/''), Kprint p]) (rev ps))) s)
      })"

section \<open>Commands\<close>

definition cmd_help :: "'d kernel \<Rightarrow> 'd kernel" where
  "cmd_help = say (map (\<lambda>t. Kprint (str t @ [0x0A])) [
     ''commands:'',
     ''  help            this list'',
     ''  clear           clear the screen'',
     ''  pwd             print working directory'',
     ''  ls [path]       list a directory'',
     ''  cd <dir>        change directory'',
     ''  mkdir <name>    create a directory'',
     ''  touch <name>    create an empty file'',
     ''  cat <file>      print a file'',
     ''  cp <src> <dst>  copy a file'',
     ''  mv <src> <dst>  rename/move a file'',
     ''  echo <txt> > f  write text to file f (>> appends)'',
     ''  rm [-r] <name>  remove a file or (with -r) a dir tree'',
     ''  ps              list running tasks'',
     ''  spawn           start a background task'',
     ''  exec <prog>     run an ELF program in user mode (try 'exec hello')'',
     ''  gt              run a cooperative green-thread demo'',
     ''  stress          hammer the heap'',
     ''  meminfo         memory + cache stats'',
     ''  uptime          seconds since boot''])"

partial_function (option) ls_loop :: "'d env \<Rightarrow> int \<Rightarrow> int \<Rightarrow> 'd kernel \<Rightarrow> 'd kernel option" where
  "ls_loop E dir i s = do {
     ((ino, nm), s) \<leftarrow> on_fs (sfs_readdir (layer E) dir i) s;
     case nm of
       None \<Rightarrow> Some s
     | Some nm \<Rightarrow>
         if ino < 0 then Some s
         else if is_dots nm then ls_loop E dir (i + 1) s
         else do {
           (ty, s) \<leftarrow> on_fs (sfs_type (layer E) ino) s;
           let s = (if ty = sint SFS_DIR then say [Set_color (VGA_COLOR VGA_LIGHT_BLUE VGA_BLACK), Kprint nm, Kprint (str ''/''),
                                       Set_color (VGA_COLOR VGA_LIGHT_GREY VGA_BLACK)] s
                    else say [Kprint nm] s);
           ls_loop E dir (i + 1) (puts ''\<newline>'' s)
         }
   }"

definition cmd_ls :: "'d env \<Rightarrow> u8 list option \<Rightarrow> 'd kernel \<Rightarrow> 'd kernel option" where
  "cmd_ls E fpath s = do {
     (dir, s) \<leftarrow> (case fpath of
        Some p \<Rightarrow> if p \<noteq> [] then resolve E p s else Some (cwd s, s)
      | None \<Rightarrow> Some (cwd s, s));
     if dir < 0 then Some (puts ''ls: no such path\<newline>'' s) else do {
       (ty, s) \<leftarrow> on_fs (sfs_type (layer E) dir) s;
       if ty \<noteq> sint SFS_DIR then Some (puts ''ls: not a directory\<newline>'' s) else ls_loop E dir 0 s
     }
   }"

definition cmd_cd :: "'d env \<Rightarrow> u8 list option \<Rightarrow> 'd kernel \<Rightarrow> 'd kernel option" where
  "cmd_cd E fpath s =
     (case fpath of
        None \<Rightarrow> Some (s\<lparr>cwd := SFS_ROOT\<rparr>)
      | Some p \<Rightarrow>
          if p = [] then Some (s\<lparr>cwd := SFS_ROOT\<rparr>) else do {
            (dir, s) \<leftarrow> resolve E p s;
            if dir < 0 then Some (puts ''cd: no such directory\<newline>'' s) else do {
              (ty, s) \<leftarrow> on_fs (sfs_type (layer E) dir) s;
              if ty \<noteq> sint SFS_DIR then Some (puts ''cd: not a directory\<newline>'' s) else Some (s\<lparr>cwd := dir\<rparr>)
            }
          })"

text \<open>\<^verbatim>\<open>kprint(buf)\<close> prints up to the terminator stored behind the \<open>n\<close> bytes read.\<close>

definition cmd_cat :: "'d env \<Rightarrow> u8 list option \<Rightarrow> 'd kernel \<Rightarrow> 'd kernel option" where
  "cmd_cat E name s =
     (if name = None \<or> name = Some [] then Some (puts ''cat: need a file\<newline>'' s) else do {
        (ino, s) \<leftarrow> resolve E (the name) s;
        if ino < 0 then Some (puts ''cat: no such file\<newline>'' s) else do {
          (ty, s) \<leftarrow> on_fs (sfs_type (layer E) ino) s;
          if ty \<noteq> sint SFS_FILE then Some (puts ''cat: not a file\<newline>'' s) else do {
            (sz, s) \<leftarrow> on_fs (sfs_size (layer E) ino) s;
            (buf, s) \<leftarrow> malloc (sz + 1) s;
            if buf = 0 then Some (puts ''cat: out of memory\<newline>'' s) else do {
              ((n, xs), s) \<leftarrow> on_fs (sfs_read (layer E) ino sz) s;
              let s = kstore buf xs s;
              let s = kstore (buf + word_of_int n) [0] s;
              let s = say [Kprint (takeWhile (\<lambda>c. c \<noteq> 0) (kload buf (nat n + 1) s))] s;
              let s = (if n > 0 \<and> kload (buf + word_of_int (n - 1)) 1 s \<noteq> [0x0A] then puts ''\<newline>'' s else s);
              mfree buf s
            }
          }
        }
      })"

abbreviation (input) "SFS_MAX_FILE \<equiv> 7168 :: u32"

definition cmd_cp :: "'d env \<Rightarrow> u8 list option \<Rightarrow> u8 list option \<Rightarrow> 'd kernel \<Rightarrow> 'd kernel option" where
  "cmd_cp E src dst s =
     (if src = None \<or> src = Some [] \<or> dst = None \<or> dst = Some [] then Some (puts ''cp: usage: cp <src> <dst>\<newline>'' s) else do {
        (sn, s) \<leftarrow> resolve E (the src) s;
        if sn < 0 then Some (puts ''cp: no such file\<newline>'' s) else do {
          (ty, s) \<leftarrow> on_fs (sfs_type (layer E) sn) s;
          if ty \<noteq> sint SFS_FILE then Some (puts ''cp: not a file\<newline>'' s) else do {
            (sz, s) \<leftarrow> on_fs (sfs_size (layer E) sn) s;
            (buf, s) \<leftarrow> malloc (if sz \<noteq> 0 then sz else 1) s;
            if buf = 0 then Some (puts ''cp: out of memory\<newline>'' s) else do {
              ((n, xs), s) \<leftarrow> on_fs (sfs_read (layer E) sn sz) s;
              let s = kstore buf xs s;
              (d, s) \<leftarrow> on_fs (sfs_lookup (layer E) (cwd s) (the dst)) s;
              (d, s) \<leftarrow> (if d < 0 then on_fs (sfs_create (layer E) (cwd s) (the dst) (sint SFS_FILE)) s else Some (d, s));
              if d < 0 then mfree buf (puts ''cp: cannot create dest\<newline>'' s) else do {
                (ty, s) \<leftarrow> on_fs (sfs_type (layer E) d) s;
                if ty \<noteq> sint SFS_FILE then mfree buf (puts ''cp: dest is not a file\<newline>'' s) else do {
                  (w, s) \<leftarrow> on_fs (sfs_write (layer E) d (kload buf (nat n) s) (word_of_int n)) s;
                  mfree buf s
                }
              }
            }
          }
        }
      })"

definition cmd_mv :: "'d env \<Rightarrow> u8 list option \<Rightarrow> u8 list option \<Rightarrow> 'd kernel \<Rightarrow> 'd kernel option" where
  "cmd_mv E src dst s =
     (if src = None \<or> src = Some [] \<or> dst = None \<or> dst = Some [] then Some (puts ''mv: usage: mv <src> <dst>\<newline>'' s) else do {
        (sn, s) \<leftarrow> on_fs (sfs_lookup (layer E) (cwd s) (the src)) s;
        if sn < 0 then Some (puts ''mv: no such file in current directory\<newline>'' s) else do {
          (ty, s) \<leftarrow> on_fs (sfs_type (layer E) sn) s;
          if ty \<noteq> sint SFS_FILE then Some (puts ''mv: only files are supported\<newline>'' s) else do {
            s \<leftarrow> cmd_cp E src dst s;
            (d, s) \<leftarrow> on_fs (sfs_lookup (layer E) (cwd s) (the dst)) s;
            if d \<ge> 0 then do { (r, s) \<leftarrow> on_fs (sfs_unlink (layer E) (cwd s) (the src)) s; Some s } else Some s
          }
        }
      })"

text \<open>The inner loop of \<^verbatim>\<open>rm_rec\<close>: the first entry that is not a dot entry.\<close>

partial_function (option) first_child :: "'d env \<Rightarrow> int \<Rightarrow> int \<Rightarrow> 'd kernel \<Rightarrow> (u8 list option \<times> 'd kernel) option" where
  "first_child E ino i s = do {
     ((c, nm), s) \<leftarrow> on_fs (sfs_readdir (layer E) ino i) s;
     case nm of
       None \<Rightarrow> Some (None, s)
     | Some nm \<Rightarrow> if c < 0 then Some (None, s) else if is_dots nm then first_child E ino (i + 1) s else Some (Some nm, s)
   }"

text \<open>\<^verbatim>\<open>rm_rec(parent, name)\<close> is \<open>Inl (parent, name)\<close>; its loop over the children of \<open>ino\<close> is \<open>Inr ino\<close>.\<close>

partial_function (option) rm_go :: "'d env \<Rightarrow> (int \<times> u8 list) + int \<Rightarrow> 'd kernel \<Rightarrow> (int \<times> 'd kernel) option" where
  "rm_go E t s = (case t of
     Inl (parent, name) \<Rightarrow> do {
       (ino, s) \<leftarrow> on_fs (sfs_lookup (layer E) parent name) s;
       if ino < 0 then Some (- 1, s) else do {
         (ty, s) \<leftarrow> on_fs (sfs_type (layer E) ino) s;
         (r, s) \<leftarrow> (if ty = sint SFS_DIR then rm_go E (Inr ino) s else Some (0, s));
         on_fs (sfs_unlink (layer E) parent name) s
       }
     }
   | Inr ino \<Rightarrow> do {
       (found, s) \<leftarrow> first_child E ino 0 s;
       case found of
         None \<Rightarrow> Some (0, s)
       | Some nm \<Rightarrow> do { (r, s) \<leftarrow> rm_go E (Inl (ino, nm)) s; rm_go E (Inr ino) s }
     })"

definition rm_rec :: "'d env \<Rightarrow> int \<Rightarrow> u8 list \<Rightarrow> 'd kernel \<Rightarrow> (int \<times> 'd kernel) option" where
  "rm_rec E parent name s = rm_go E (Inl (parent, name)) s"

definition cmd_meminfo :: "'d kernel \<Rightarrow> 'd kernel option" where
  "cmd_meminfo s = do {
     u \<leftarrow> kheap_used (the_heap s);
     f \<leftarrow> kheap_free (the_heap s);
     Some (say [Kprint (str ''frames: ''), Kprint_dec (sint (pmm_used_frames (frames s))), Kprint (str '' / ''), Kprint_dec (sint pmm_total_frames),
                Kprint (str ''   heap: ''), Kprint_dec (sint u), Kprint (str ''B used, ''), Kprint_dec (sint f), Kprint (str ''B free\<newline>''),
                Kprint (str ''cache:  ''), Kprint_dec (sint (bcache_hits (fsd (ks s)))), Kprint (str '' hits / ''),
                Kprint_dec (sint (bcache_misses (fsd (ks s)))), Kprint (str '' miss\<newline>'')] s)
   }"

text \<open>The fibers allocate from the kernel's heap.\<close>

definition shell_gt :: "'d env \<Rightarrow> 'd kernel \<Rightarrow> 'd kernel option" where
  "shell_gt E s = do {
     (cs, g) \<leftarrow> cmd_gt (a_trampoline E) (a_gt_body E) ((fibers s)\<lparr>g_heap := the_heap s\<rparr>);
     Some (say cs (set_heap (g_heap g) (s\<lparr>fibers := g\<rparr>)))
   }"

fun stress_alloc :: "nat \<Rightarrow> 'd kernel \<Rightarrow> (u32 list \<times> 'd kernel) option" where
  "stress_alloc 0 s = Some ([], s)"
| "stress_alloc (Suc n) s = do { (p, s) \<leftarrow> malloc 512 s; (ps, s) \<leftarrow> stress_alloc n s; Some (p # ps, s) }"

fun stress_free :: "u32 list \<Rightarrow> 'd kernel \<Rightarrow> 'd kernel option" where
  "stress_free [] s = Some s"
| "stress_free (p # ps) s = do { s \<leftarrow> mfree p s; stress_free ps s }"

definition cmd_stress :: "'d kernel \<Rightarrow> 'd kernel option" where
  "cmd_stress s = do {
     let s = puts ''allocating 128 blocks... '' s;
     (ps, s) \<leftarrow> stress_alloc 128 s;
     let s = say [Kprint_dec (int (length (filter (\<lambda>p. p \<noteq> 0) ps))), Kprint (str '' ok, freeing... '')] s;
     s \<leftarrow> stress_free ps s;
     u \<leftarrow> kheap_used (the_heap s);
     Some (say [Kprint (str ''heap used now ''), Kprint_dec (sint u), Kprint (str ''B\<newline>'')] s)
   }"

section \<open>The command line\<close>

text \<open>The line is split in place: \<open>buf\<close> is the buffer with its terminator, \<open>p\<close> a position in it, and the
  arguments are positions.\<close>

function tok_spaces :: "nat \<Rightarrow> u8 list \<Rightarrow> (nat \<times> u8 list) option" where
  "tok_spaces p buf =
     (if p < length buf then if buf ! p = 0x20 then tok_spaces (p + 1) (buf[p := 0]) else Some (p, buf) else None)"
  by pat_completeness auto
termination
  by (relation "measure (\<lambda>(p, buf). length buf - p)") auto

function tok_word :: "nat \<Rightarrow> u8 list \<Rightarrow> nat option" where
  "tok_word p buf =
     (if p < length buf then if buf ! p \<noteq> 0 \<and> buf ! p \<noteq> 0x20 then tok_word (p + 1) buf else Some p else None)"
  by pat_completeness auto
termination
  by (relation "measure (\<lambda>(p, buf). length buf - p)") auto

declare tok_spaces.simps [simp del] tok_word.simps [simp del]

text \<open>The first argument is how many more arguments fit.\<close>

fun tok_loop :: "nat \<Rightarrow> nat \<Rightarrow> nat list \<Rightarrow> u8 list \<Rightarrow> (nat list \<times> u8 list) option" where
  "tok_loop 0 p argv buf = Some (argv, buf)"
| "tok_loop (Suc k) p argv buf =
     (if p < length buf then
        if buf ! p \<noteq> 0 then do {
          (p, buf) \<leftarrow> tok_spaces p buf;
          if buf ! p = 0 then Some (argv, buf) else do {
            let argv = argv @ [p];
            p \<leftarrow> tok_word p buf;
            tok_loop k p argv buf
          }
        } else Some (argv, buf)
      else None)"

definition tokenize :: "u8 list \<Rightarrow> nat \<Rightarrow> (nat list \<times> u8 list) option" where
  "tokenize buf mx = tok_loop mx 0 [] buf"

definition arg_at :: "u8 list \<Rightarrow> nat \<Rightarrow> u8 list" where
  "arg_at buf p = takeWhile (\<lambda>c. c \<noteq> 0) (drop p buf)"

text \<open>\<^verbatim>\<open>echo\<close>: the first redirection, and the text collected in the 256-byte buffer.\<close>

fun find_redir :: "u8 list list \<Rightarrow> nat \<Rightarrow> (nat \<times> bool) option" where
  "find_redir [] i = None"
| "find_redir (a # as) i =
     (if streq a (str ''>'') then Some (i, False) else if streq a (str ''>>'') then Some (i, True) else find_redir as (i + 1))"

fun echo_text :: "u8 list list \<Rightarrow> nat \<Rightarrow> u8 list \<Rightarrow> u8 list" where
  "echo_text [] i text = text"
| "echo_text (a # as) i text =
     (let text = (if i > 1 \<and> length text < 255 then text @ [0x20] else text)
      in echo_text as (i + 1) (take 255 (text @ a)))"

definition cmd_echo :: "'d env \<Rightarrow> u8 list list \<Rightarrow> 'd kernel \<Rightarrow> 'd kernel option" where
  "cmd_echo E argv s =
     (let redir = find_redir (tl argv) 1;
          text = echo_text (case redir of None \<Rightarrow> tl argv | Some (i, ap) \<Rightarrow> take (i - 1) (tl argv)) 1 [];
          add = word_of_nat (length text)
      in case redir of
           None \<Rightarrow> Some (say [Kprint text, Kprint (str ''\<newline>'')] s)
         | Some (i, ap) \<Rightarrow>
             if i + 1 \<ge> length argv then Some (puts ''echo: need a filename after >\<newline>'' s)
             else do {
               let fname = argv ! (i + 1);
               (ino, s) \<leftarrow> on_fs (sfs_lookup (layer E) (cwd s) fname) s;
               (ino, s) \<leftarrow> (if ino < 0 then on_fs (sfs_create (layer E) (cwd s) fname (sint SFS_FILE)) s else Some (ino, s));
               if ino < 0 then Some (puts ''echo: cannot create file\<newline>'' s)
               else if \<not> ap then do { (w, s) \<leftarrow> on_fs (sfs_write (layer E) ino text add) s; Some s }
               else do {
                 (old, s) \<leftarrow> on_fs (sfs_size (layer E) ino) s;
                 (buf, s) \<leftarrow> malloc (old + add + 1) s;
                 if buf = 0 then Some (puts ''echo: out of memory\<newline>'' s) else do {
                   ((n, xs), s) \<leftarrow> on_fs (sfs_read (layer E) ino old) s;
                   let s = kstore buf xs s;
                   let s = kstore (buf + word_of_int n) text s;
                   let s = (if word_of_int n + add > SFS_MAX_FILE then puts ''echo: file capped at 7KB\<newline>'' s else s);
                   (w, s) \<leftarrow> on_fs (sfs_write (layer E) ino (kload buf (nat n + length text) s) (word_of_int n + add)) s;
                   mfree buf s
                 }
               }
             })"

definition cmd_mkdir :: "'d env \<Rightarrow> u8 list list \<Rightarrow> 'd kernel \<Rightarrow> 'd kernel option" where
  "cmd_mkdir E argv s =
     (if length argv < 2 then Some (puts ''mkdir: need a name\<newline>'' s) else do {
        (r, s) \<leftarrow> on_fs (sfs_create (layer E) (cwd s) (argv ! 1) (sint SFS_DIR)) s;
        Some (if r < 0 then puts ''mkdir: failed\<newline>'' s else s)
      })"

definition cmd_touch :: "'d env \<Rightarrow> u8 list list \<Rightarrow> 'd kernel \<Rightarrow> 'd kernel option" where
  "cmd_touch E argv s =
     (if length argv < 2 then Some (puts ''touch: need a name\<newline>'' s) else do {
        (r, s) \<leftarrow> on_fs (sfs_lookup (layer E) (cwd s) (argv ! 1)) s;
        if r < 0 then do {
          (r, s) \<leftarrow> on_fs (sfs_create (layer E) (cwd s) (argv ! 1) (sint SFS_FILE)) s;
          Some (if r < 0 then puts ''touch: failed\<newline>'' s else s)
        } else Some s
      })"

definition cmd_rm :: "'d env \<Rightarrow> u8 list list \<Rightarrow> 'd kernel \<Rightarrow> 'd kernel option" where
  "cmd_rm E argv s =
     (if length argv < 2 then Some (puts ''rm: need a name\<newline>'' s)
      else if streq (argv ! 1) (str ''-r'') then
        if length argv < 3 then Some (puts ''rm: -r needs a name\<newline>'' s)
        else do { (r, s) \<leftarrow> rm_rec E (cwd s) (argv ! 2) s; Some (if r < 0 then puts ''rm: failed\<newline>'' s else s) }
      else do {
        (r, s) \<leftarrow> on_fs (sfs_unlink (layer E) (cwd s) (argv ! 1)) s;
        Some (if r < 0 then puts ''rm: failed (missing or non-empty dir)\<newline>'' s else s)
      })"

definition ps_print :: "task_t \<Rightarrow> console" where
  "ps_print t = [Kprint (str ''  #''), Kprint_dec (sint (t_id t)), Kprint (str '' ''), Kprint (takeWhile (\<lambda>c. c \<noteq> 0) (t_name t)),
     Kprint (str (case t_state t of TASK_RUNNING \<Rightarrow> '' (running)'' | TASK_DEAD \<Rightarrow> '' (dead)'' | TASK_READY \<Rightarrow> '' (ready)'')),
     Kprint (str ''\<newline>'')]"

definition cmd_ps :: "'d kernel \<Rightarrow> 'd kernel option" where
  "cmd_ps s = do {
     n \<leftarrow> task_count (kt (ks s));
     ls \<leftarrow> task_foreach (kt (ks s)) (\<lambda>t cs. Some (cs @ ps_print t)) [];
     Some (say ([Kprint (str ''tasks (''), Kprint_dec n, Kprint (str ''):\<newline>'')] @ ls
                @ [Kprint (str ''background work counter: ''), Kprint_dec (sint (worker_ticks s)), Kprint (str ''\<newline>'')]) s)
   }"

definition cmd_spawn :: "'d env \<Rightarrow> 'd kernel \<Rightarrow> 'd kernel option" where
  "cmd_spawn E s = do {
     (t, k) \<leftarrow> task_create (cds E) (str ''worker'') (a_worker E) (kt (ks s));
     let s = s\<lparr>ks := (ks s)\<lparr>kt := k\<rparr>\<rparr>;
     Some (if t \<noteq> 0 then say [Kprint (str ''spawned task #''), Kprint_dec (sint (t_id (tcb k t))), Kprint (str ''\<newline>'')] s
           else puts ''spawn: failed\<newline>'' s)
   }"

definition cmd_exec :: "'d env \<Rightarrow> u8 list list \<Rightarrow> 'd kernel \<Rightarrow> 'd kernel option" where
  "cmd_exec E argv s =
     (if length argv < 2 then Some (puts ''exec: need a program\<newline>'' s) else do {
        (ino, s) \<leftarrow> resolve E (argv ! 1) s;
        (ty, s) \<leftarrow> (if ino < 0 then Some (0, s) else on_fs (sfs_type (layer E) ino) s);
        if ino < 0 \<or> ty \<noteq> sint SFS_FILE then Some (puts ''exec: no such program\<newline>'' s) else do {
          ((rc, cs), k) \<leftarrow> exec_user (uas E) (ports_of E) (run_program E) ino (ks s);
          Some (say (cs @ [Kprint (str ''[exit ''), Kprint_dec rc, Kprint (str '']\<newline>'')]) (s\<lparr>ks := k\<rparr>))
        }
      })"

definition cmd_uptime :: "'d kernel \<Rightarrow> 'd kernel" where
  "cmd_uptime s = say [Kprint_dec (sint (timer_ticks (ir s) div 100)), Kprint (str '' s (''), Kprint_dec (sint (timer_ticks (ir s))),
     Kprint (str '' ticks)\<newline>'')] s"

text \<open>The argument of number \<open>i\<close>, if there is one.\<close>

definition opt_arg :: "u8 list list \<Rightarrow> nat \<Rightarrow> u8 list option" where
  "opt_arg argv i = (if i < length argv then Some (argv ! i) else None)"

definition dispatch :: "'d env \<Rightarrow> u8 list list \<Rightarrow> 'd kernel \<Rightarrow> 'd kernel option" where
  "dispatch E argv s =
     (let cmd = hd argv; is_cmd = (\<lambda>t. streq cmd (str t)) in
      if is_cmd ''help'' then Some (cmd_help s)
      else if is_cmd ''clear'' then Some (say [Clear_screen] s)
      else if is_cmd ''pwd'' then do { s \<leftarrow> print_cwd E s; Some (puts ''\<newline>'' s) }
      else if is_cmd ''ls'' then cmd_ls E (opt_arg argv 1) s
      else if is_cmd ''cd'' then cmd_cd E (opt_arg argv 1) s
      else if is_cmd ''mkdir'' then cmd_mkdir E argv s
      else if is_cmd ''touch'' then cmd_touch E argv s
      else if is_cmd ''cat'' then cmd_cat E (opt_arg argv 1) s
      else if is_cmd ''echo'' then cmd_echo E argv s
      else if is_cmd ''cp'' then cmd_cp E (opt_arg argv 1) (opt_arg argv 2) s
      else if is_cmd ''mv'' then cmd_mv E (opt_arg argv 1) (opt_arg argv 2) s
      else if is_cmd ''rm'' then cmd_rm E argv s
      else if is_cmd ''ps'' then cmd_ps s
      else if is_cmd ''spawn'' then cmd_spawn E s
      else if is_cmd ''exec'' then cmd_exec E argv s
      else if is_cmd ''gt'' then shell_gt E s
      else if is_cmd ''stress'' then cmd_stress s
      else if is_cmd ''meminfo'' then cmd_meminfo s
      else if is_cmd ''uptime'' then Some (cmd_uptime s)
      else Some (say [Kprint (str ''unknown command: ''), Kprint cmd, Kprint (str ''  (try 'help')\<newline>'')] s))"

definition sync :: "'d env \<Rightarrow> 'd kernel \<Rightarrow> 'd kernel option" where
  "sync E s = do { f \<leftarrow> bcache_sync (ports_of E) (fsd (ks s)); Some (s\<lparr>ks := (ks s)\<lparr>fsd := f\<rparr>\<rparr>) }"

definition run_command :: "'d env \<Rightarrow> u8 list \<Rightarrow> 'd kernel \<Rightarrow> 'd kernel option" where
  "run_command E line s = do {
     (pos, buf) \<leftarrow> tokenize (line @ [0]) 16;
     let argv = map (arg_at buf) pos;
     if argv = [] then Some s else do {
       s \<leftarrow> dispatch E argv s;
       sync E s
     }
   }"

definition prompt :: "'d env \<Rightarrow> 'd kernel \<Rightarrow> 'd kernel option" where
  "prompt E s = do {
     let s = say [Set_color (VGA_COLOR VGA_LIGHT_GREEN VGA_BLACK)] s;
     s \<leftarrow> print_cwd E s;
     Some (say [Kprint (str '' $ ''), Set_color (VGA_COLOR VGA_LIGHT_GREY VGA_BLACK)] s)
   }"

definition shell_handle_line :: "'d env \<Rightarrow> u8 list \<Rightarrow> 'd kernel \<Rightarrow> 'd kernel option" where
  "shell_handle_line E line s = do { s \<leftarrow> run_command E line s; prompt E s }"

definition shell_init :: "'d env \<Rightarrow> 'd kernel \<Rightarrow> 'd kernel option" where
  "shell_init E s = do {
     let s = s\<lparr>ir := (ir s)\<lparr>kbd := keyboard_set_line_handler (kbd (ir s))\<rparr>\<rparr>;
     prompt E (puts ''\<newline>type 'help' for commands.\<newline>'' s)
   }"

text \<open>One round of the background task, up to the \<^verbatim>\<open>hlt\<close>.\<close>

definition shell_worker :: "'d kernel \<Rightarrow> 'd kernel" where
  "shell_worker s = s\<lparr>worker_ticks := worker_ticks s + 1\<rparr>"

end
