(* ===== verification/Kernel.thy ===== *)
theory Kernel
  imports Shell Screen Descriptors
begin

text \<open>
  \<^verbatim>\<open>kernel/kernel.c\<close>: the start of the kernel, from the first call to the idle loop, as the composition of all
  components; and the entry of a hardware interrupt into the running kernel, through the driver to the shell.
  The linker's addresses are parameters. \<open>None\<close> is a call that does not return.
\<close>

section \<open>State\<close>

record 'd machine =
  kern :: "'d kernel"
  seg_tables :: segs
  idt :: "idt_gate list"

text \<open>Addresses the linker assigns: the tables, the interrupt stubs, the local buffer \<^verbatim>\<open>b\<close> of \<^verbatim>\<open>main\<close>, and
  the embedded program with its end.\<close>

record kaddrs =
  a_gdt :: u32
  a_tss :: u32
  a_idt :: u32
  a_pd :: u32
  isr_stub :: "nat \<Rightarrow> u32"
  irq_stub :: "nat \<Rightarrow> u32"
  a_b :: u32
  a_hello_start :: u32
  a_hello_end :: u32

abbreviation (input) "VGA_LIGHT_CYAN \<equiv> 11 :: u8"

definition the_dev :: "'d kernel \<Rightarrow> 'd" where
  "the_dev s = dev (fsd (ks s))"

definition set_dev :: "'d \<Rightarrow> 'd kernel \<Rightarrow> 'd kernel" where
  "set_dev d s = s\<lparr>ks := (ks s)\<lparr>fsd := (fsd (ks s))\<lparr>dev := d\<rparr>\<rparr>\<rparr>"

definition set_kt :: "tsys \<Rightarrow> 'd kernel \<Rightarrow> 'd kernel" where
  "set_kt t s = s\<lparr>ks := (ks s)\<lparr>kt := t\<rparr>\<rparr>"

definition set_mem :: "mem \<Rightarrow> 'd kernel \<Rightarrow> 'd kernel" where
  "set_mem m s = s\<lparr>ks := set_kmem m (ks s)\<rparr>"

section \<open>The blocks of main\<close>

abbreviation (input) "BOOTCOUNT \<equiv> str ''bootcount''"
abbreviation (input) "HELLO \<equiv> str ''hello''"

text \<open>The boot counter: the file, created when it is missing, and the count it holds.\<close>

definition boot_count :: "'d env \<Rightarrow> u32 \<Rightarrow> 'd kernel \<Rightarrow> ((int \<times> int) \<times> 'd kernel) option" where
  "boot_count E b s = do {
     (f, s) \<leftarrow> on_fs (sfs_lookup (layer E) SFS_ROOT BOOTCOUNT) s;
     if f < 0 then do {
       (f, s) \<leftarrow> on_fs (sfs_create (layer E) SFS_ROOT BOOTCOUNT (sint SFS_FILE)) s;
       Some ((f, 0), s)
     } else do {
       ((n, xs), s) \<leftarrow> on_fs (sfs_read (layer E) f 15) s;
       let s = kstore b xs s;
       let s = kstore (b + word_of_int n) [0] s;
       count \<leftarrow> atoi (kmem_of (ks s)) b;
       Some ((f, count), s)
     }
   }"

text \<open>Adding 1 to the largest \<^verbatim>\<open>int\<close> is undefined in C.\<close>

definition boot_counter :: "'d env \<Rightarrow> u32 \<Rightarrow> 'd kernel \<Rightarrow> 'd kernel option" where
  "boot_counter E b s = do {
     ((f, count), s) \<leftarrow> boot_count E b s;
     if count = INT_MAX then None else do {
       let count = count + 1;
       let s = set_mem (itoa count b (kmem_of (ks s))) s;
       len \<leftarrow> strlen (kmem_of (ks s)) b;
       (w, s) \<leftarrow> on_fs (sfs_write (layer E) f (kload b (unat len) s) len) s;
       s \<leftarrow> sync E s;
       Some (say [Kprint (str ''[ok] filesystem mounted (boot #''), Kprint (kload b (unat len) s), Kprint (str '')\<newline>'')] s)
     }
   }"

definition install_hello :: "'d env \<Rightarrow> u32 \<Rightarrow> u32 \<Rightarrow> 'd kernel \<Rightarrow> 'd kernel option" where
  "install_hello E start fin s = do {
     let len = fin - start;
     (f, s) \<leftarrow> on_fs (sfs_lookup (layer E) SFS_ROOT HELLO) s;
     (f, s) \<leftarrow> (if f < 0 then on_fs (sfs_create (layer E) SFS_ROOT HELLO (sint SFS_FILE)) s else Some (f, s));
     s \<leftarrow> (if f \<ge> 0 then do {
              (w, s) \<leftarrow> on_fs (sfs_write (layer E) f (kload start (unat len) s) len) s;
              Some s
            } else Some s);
     sync E s
   }"

text \<open>The first part of \<^verbatim>\<open>main\<close>: screen, tables, memory.\<close>

definition boot_hardware :: "'d env \<Rightarrow> kaddrs \<Rightarrow> 'd machine \<Rightarrow> 'd machine option" where
  "boot_hardware E A m = do {
     let k = say [Screen_init,
                  Set_color (VGA_COLOR VGA_LIGHT_CYAN VGA_BLACK),
                  Kprint (str ''============================\<newline>''),
                  Kprint (str ''   Welcome to JacobOS\<newline>''),
                  Kprint (str ''============================\<newline>''),
                  Set_color (VGA_COLOR VGA_LIGHT_GREY VGA_BLACK)] (kern m);
     g \<leftarrow> gdt_install (a_gdt A) (a_tss A) (seg_tables m);
     let k = set_kt ((kt (ks k))\<lparr>tss_esp0 := tss_sp0 (tss g)\<rparr>) k;
     (t, c, d) \<leftarrow> isr_install (ports_of E) (isr_stub A) (irq_stub A) (a_idt A) (idt m, scpu g, the_dev k);
     let k = set_dev d k;
     let k = k\<lparr>frames := pmm_init\<rparr>;
     let k = k\<lparr>ks := (ks k)\<lparr>pg := paging_init (a_pd A) (pg (ks k))\<rparr>\<rparr>;
     let k = set_heap (kheap_init (kmem_of (ks k))) k;
     Some (m\<lparr>kern := puts ''[ok] paging + heap\<newline>'' k, seg_tables := g\<lparr>scpu := c\<rparr>, idt := t\<rparr>)
   }"

text \<open>The disk: driver, cache, file system, the two files.\<close>

definition boot_disk :: "'d env \<Rightarrow> kaddrs \<Rightarrow> 'd kernel \<Rightarrow> 'd kernel option" where
  "boot_disk E A k = do {
     let k = set_dev (ata_init (ports_of E) (the_dev k)) k;
     let k = k\<lparr>ks := (ks k)\<lparr>fsd := bcache_init (fsd (ks k))\<rparr>\<rparr>;
     f \<leftarrow> sfs_init (layer E) (fsd (ks k));
     let k = k\<lparr>ks := (ks k)\<lparr>fsd := f\<rparr>\<rparr>;
     k \<leftarrow> boot_counter E (a_b A) k;
     install_hello E (a_hello_start A) (a_hello_end A) k
   }"

text \<open>Keyboard, tasks and timer, interrupts on, shell.\<close>

definition boot_tasks :: "'d env \<Rightarrow> 'd kernel \<Rightarrow> 'd kernel option" where
  "boot_tasks E k = do {
     i \<leftarrow> init_keyboard (ir k);
     let k = k\<lparr>ir := i\<rparr>;
     t \<leftarrow> tasking_init (kt (ks k));
     (t1, t) \<leftarrow> task_create (cds E) (str ''worker'') (a_worker E) t;
     (t2, t) \<leftarrow> task_create (cds E) (str ''worker'') (a_worker E) t;
     let k = set_kt t k;
     (i, d) \<leftarrow> init_timer (ports_of E) 100 (ir k, the_dev k);
     let k = set_dev d (k\<lparr>ir := i\<rparr>);
     n \<leftarrow> task_count (kt (ks k));
     let k = say [Kprint (str ''[ok] scheduler + ''), Kprint_dec n, Kprint (str '' tasks\<newline>'')] k;
     let k = set_kt (sti (kt (ks k))) k;
     shell_init E k
   }"

text \<open>\<^verbatim>\<open>main\<close> up to its idle loop, which executes \<^verbatim>\<open>hlt\<close> for ever.\<close>

definition main :: "'d env \<Rightarrow> kaddrs \<Rightarrow> 'd machine \<Rightarrow> 'd machine option" where
  "main E A m = do {
     m \<leftarrow> boot_hardware E A m;
     k \<leftarrow> boot_disk E A (kern m);
     k \<leftarrow> boot_tasks E k;
     Some (m\<lparr>kern := k\<rparr>)
   }"

section \<open>Interrupts in the running kernel\<close>

text \<open>A hardware interrupt with the registers \<open>r\<close>: \<^verbatim>\<open>irq_handler\<close> on the kernel's state. The keyboard driver calls
  the line handler that \<^verbatim>\<open>shell_init\<close> registered with the line it completed.\<close>

definition kernel_irq :: "'d env \<Rightarrow> registers \<Rightarrow> 'd kernel \<Rightarrow> 'd kernel option" where
  "kernel_irq E r k = do {
     ((cs, line), i, d) \<leftarrow> irq_handler (cds E) (ports_of E) r ((ir k)\<lparr>tasks := kt (ks k)\<rparr>, the_dev k);
     let k = say cs (set_dev d (set_kt (tasks i) (k\<lparr>ir := i\<rparr>)));
     case line of None \<Rightarrow> Some k | Some l \<Rightarrow> shell_handle_line E l k
   }"

end
