(* ===== verification/Sfs_Layout.thy ===== *)
theory Sfs_Layout
  imports Sfs
begin

text \<open>
  What the blocks of a disk mean: inodes, the set of used data blocks, the entries of a directory and
  the abstract node (a file with its bytes or a directory with its entries) behind each inode
  number; and how writing an inode, a data block, the bitmap or a directory entry changes them.
\<close>

section \<open>Inodes\<close>

definition disk_ok :: "disk \<Rightarrow> bool" where
  "disk_ok D \<longleftrightarrow> (\<forall>b. unat b < 2064 \<longrightarrow> length (D b) = 512)"

definition iblk :: "nat \<Rightarrow> u32" where
  "iblk i = word_of_nat (Suc (i div 8))"

definition d_inode :: "disk \<Rightarrow> nat \<Rightarrow> inode_t" where
  "d_inode D i = dec_inode (take 64 (drop (i mod 8 * 64) (D (iblk i))))"

definition put_inode :: "nat \<Rightarrow> inode_t \<Rightarrow> disk \<Rightarrow> disk" where
  "put_inode i n D = D(iblk i := put_at (i mod 8 * 64) (enc_inode n) (D (iblk i)))"

lemma disk_okD: "disk_ok D \<Longrightarrow> unat b < 2064 \<Longrightarrow> length (D b) = 512"
  by (simp add: disk_ok_def)

lemma disk_ok_upd: "disk_ok D \<Longrightarrow> length x = 512 \<Longrightarrow> disk_ok (D(b := x))"
  by (simp add: disk_ok_def)

lemma unat_iblk: "i < 64 \<Longrightarrow> unat (iblk i) = Suc (i div 8)"
  unfolding iblk_def by (subst unat_of_nat_u32) simp_all

lemma iblk_eq: "i < 64 \<Longrightarrow> j < 64 \<Longrightarrow> iblk i = iblk j \<longleftrightarrow> i div 8 = j div 8"
  by (simp add: word_unat_eq_iff unat_iblk)

lemma iblk_low: "i < 64 \<Longrightarrow> 0 < unat (iblk i) \<and> unat (iblk i) < 9"
  by (simp add: unat_iblk)

lemma iblk_neq: "i < 64 \<Longrightarrow> unat b = 0 \<or> 9 \<le> unat b \<Longrightarrow> iblk i \<noteq> b"
  using iblk_low [of i] by auto

lemma inode_off: "i mod 8 * 64 + 64 \<le> (512 :: nat)"
  using mod_less_divisor [of 8 i] by linarith

lemma length_concat_le32: "length (concat (map le32 ws)) = 4 * length ws"
  by (induction ws) auto

lemma length_enc_inode: "length (iblocks n) = 14 \<Longrightarrow> length (enc_inode n) = 64"
  by (simp add: enc_inode_def length_concat_le32)

lemma get32_append: "get32 (xs @ ys) k = (if length xs \<le> k then get32 ys (k - length xs) else get32 (xs @ ys) k)"
  by (auto simp: get32_def nth_append Suc_diff_le)

lemma get32_le32_Cons: "get32 (le32 w @ xs) 0 = w" "get32 (le32 w @ xs) (4 + k) = get32 xs k"
  by (auto simp: get32_def le32_def nth_append add.commute)

lemma get32_concat_le32: "k < length ws \<Longrightarrow> get32 (concat (map le32 ws)) (4 * k) = ws ! k"
  by (induction ws arbitrary: k) (auto simp: get32_le32_Cons nth_Cons split: nat.splits)

lemma dec_enc_inode: "length (iblocks n) = 14 \<Longrightarrow> dec_inode (enc_inode n) = n"
proof -
  assume l: "length (iblocks n) = 14"
  have a: "get32 (le32 x @ le32 y @ xs) (8 + k) = get32 xs k" for x y k xs
    using get32_le32_Cons(2) [of x "le32 y @ xs" "4 + k"] by (simp add: get32_le32_Cons)
  have "map (\<lambda>k. get32 (enc_inode n) (8 + 4 * k)) [0..<14] = iblocks n"
    using l by (intro nth_equalityI) (simp_all add: enc_inode_def a get32_concat_le32)
  moreover have "get32 (enc_inode n) 0 = itype n" "get32 (enc_inode n) 4 = isize n"
    using get32_le32_Cons(2) [of "itype n" _ 0] by (simp_all add: enc_inode_def get32_le32_Cons)
  ultimately show ?thesis by (simp add: dec_inode_def)
qed

lemma length_iblocks [simp]: "length (iblocks (d_inode D i)) = 14"
  by (simp add: d_inode_def dec_inode_def)

lemma d_inode_cong: "D' (iblk i) = D (iblk i) \<Longrightarrow> d_inode D' i = d_inode D i"
  by (simp add: d_inode_def)

lemma d_inode_put:
  assumes "disk_ok D" and "i < 64" and "j < 64" and "length (iblocks n) = 14"
  shows "d_inode (put_inode i n D) j = (if j = i then n else d_inode D j)"
proof -
  have l: "length (D (iblk i)) = 512" using assms(1) iblk_low [OF assms(2)] by (simp add: disk_okD)
  have e: "length (enc_inode n) = 64" by (rule length_enc_inode [OF assms(4)])
  show ?thesis
  proof (cases "iblk j = iblk i")
    case True
    then have d: "j div 8 = i div 8" using assms(2,3) by (simp add: iblk_eq)
    have "j mod 8 * 64 + 64 \<le> i mod 8 * 64 \<or> i mod 8 * 64 + 64 \<le> j mod 8 * 64" if "j \<noteq> i"
    proof -
      have "j mod 8 \<noteq> i mod 8" using that d by (metis div_mod_eq_iff zero_less_numeral)
      then show ?thesis by linarith
    qed
    then show ?thesis
      using True take_drop_put_at_same [of "i mod 8 * 64" "enc_inode n" "D (iblk i)"] l e inode_off [of i]
        take_drop_put_at_other [of "i mod 8 * 64" "enc_inode n" "D (iblk i)" "j mod 8 * 64" 64] dec_enc_inode [OF assms(4)]
      by (simp add: d_inode_def put_inode_def)
  next
    case False
    then show ?thesis by (auto simp: d_inode_def put_inode_def)
  qed
qed

lemma put_inode_other: "i < 64 \<Longrightarrow> unat b = 0 \<or> 9 \<le> unat b \<Longrightarrow> put_inode i n D b = D b"
  using iblk_neq [of i b] by (auto simp: put_inode_def)

lemma disk_ok_put_inode: "disk_ok D \<Longrightarrow> i < 64 \<Longrightarrow> length (iblocks n) = 14 \<Longrightarrow> disk_ok (put_inode i n D)"
  unfolding put_inode_def using iblk_low [of i] inode_off [of i]
  by (intro disk_ok_upd) (simp_all add: disk_okD length_enc_inode)

lemma d_inode_high: "i < 64 \<Longrightarrow> 9 \<le> unat b \<Longrightarrow> d_inode (D(b := x)) i = d_inode D i"
  using iblk_neq [of i b] by (intro d_inode_cong) (auto)

lemma inode_pos_eq: "inode_pos (int i) = Some (iblk i, i mod 8 * 64)"
proof -
  have "int i - int i div 8 * 8 = int (i mod 8)" by (simp add: zmod_int minus_mult_div_eq_mod [symmetric] mult.commute)
  moreover have "word_of_int (1 + int i div 8) = iblk i"
    using of_int_of_nat_eq [of "Suc (i div 8)", where 'a = u32] by (simp add: iblk_def zdiv_int)
  ultimately show ?thesis by (simp add: inode_pos_def Let_def)
qed

section \<open>The block bitmap\<close>

abbreviation used :: "disk \<Rightarrow> nat set" where
  "used D \<equiv> flags_on (bm_test (D 9)) 2048"

lemma bm_test_bit: "bm_test bm i \<longleftrightarrow> bit (bm ! (i div 8)) (i mod 8)"
  by (simp add: bm_test_def)

interpretation bb: bitset bm_test bm_set bm_clear "\<lambda>bm. length bm = 512" 2048
proof unfold_locales
  fix bm :: "u8 list" and i j :: nat
  assume a: "length bm = 512" "i < 2048" "j < 2048"
  then have "i div 8 < length bm" "j div 8 < length bm" by auto
  then show "bm_test (bm_set i bm) j \<longleftrightarrow> i = j \<or> bm_test bm j"
    and "bm_test (bm_clear i bm) j \<longleftrightarrow> i \<noteq> j \<and> bm_test bm j"
    using div_mod_eq_iff [of 8 i j]
    by (auto simp: bm_test_bit bm_set_def bm_clear_def nth_list_update bit_or_exp bit_and_not_exp)
qed (auto simp: bm_set_def bm_clear_def)

section \<open>Directory blocks\<close>

definition ent_name :: "u8 list \<Rightarrow> nat \<Rightarrow> u8 list" where
  "ent_name buf e = takeWhile (\<lambda>c. c \<noteq> 0) (take 28 (drop (32 * e + 4) buf))"

definition entry :: "u8 list \<Rightarrow> nat \<Rightarrow> (u8 list \<times> nat) option" where
  "entry buf e = (if de_inum1 buf e = 0 then None else Some (ent_name buf e, unat (de_inum1 buf e) - 1))"

definition entries_in :: "u8 list \<Rightarrow> nat list \<Rightarrow> (u8 list \<times> nat) list" where
  "entries_in buf es = List.map_filter (entry buf) es"

abbreviation live :: "u8 list \<Rightarrow> (u8 list \<times> nat) list" where
  "live buf \<equiv> entries_in buf [0..<16]"

text \<open>Every name is terminated inside its 28 bytes and every inode number is in range.\<close>

definition dirbuf_ok :: "u8 list \<Rightarrow> bool" where
  "dirbuf_ok buf \<longleftrightarrow> length buf = 512 \<and> (\<forall>e < 16. buf ! (32 * e + 31) = 0 \<and> unat (de_inum1 buf e) \<le> 64)"

lemma entries_in_simps [simp]:
  "entries_in buf [] = []"
  "entries_in buf (e # es) = (case entry buf e of None \<Rightarrow> entries_in buf es | Some x \<Rightarrow> x # entries_in buf es)"
  "entries_in buf (es @ fs) = entries_in buf es @ entries_in buf fs"
  by (simp_all add: entries_in_def List.map_filter_def split: option.split)

lemma entries_in_cong: "(\<And>e. e \<in> set es \<Longrightarrow> entry buf' e = entry buf e) \<Longrightarrow> entries_in buf' es = entries_in buf es"
  by (induction es) (auto split: option.split)

lemma map_of_entries_in:
  "map_of (entries_in buf es) name =
     map_option (\<lambda>e. unat (de_inum1 buf e) - 1) (List.find (\<lambda>e. de_inum1 buf e \<noteq> 0 \<and> ent_name buf e = name) es)"
  by (induction es) (auto simp: entry_def)

lemma entries_in_fresh:
  "(\<And>e. e \<in> set es \<Longrightarrow> \<not> (de_inum1 buf e \<noteq> 0 \<and> ent_name buf e = name)) \<Longrightarrow> name \<notin> fst ` set (entries_in buf es)"
  by (induction es) (auto simp: entry_def)

lemma find_upt_SomeD:
  assumes "List.find P [0..<n] = Some e"
  shows "e < n" and "P e" and "\<And>j. j < e \<Longrightarrow> \<not> P j"
  using assms by (auto simp: find_Some_iff)

lemma free_entry_find: "free_entry buf k e = List.find (\<lambda>e. de_inum1 buf e = 0) [e..<e + k]"
proof (induction k arbitrary: e)
  case (Suc k)
  have "[e..<e + Suc k] = e # [Suc e..<Suc e + k]" by (simp add: upt_conv_Cons del: upt_Suc)
  then show ?case using Suc.IH [of "Suc e"] by simp
qed simp

lemma free_entry_None: "free_entry buf 16 0 = None \<Longrightarrow> length (live buf) = 16"
proof -
  assume "free_entry buf 16 0 = None"
  then have "\<forall>e \<in> set [0..<16]. entry buf e \<noteq> None" by (simp add: free_entry_find find_None_iff entry_def)
  then have "length (entries_in buf es) = length es" if "set es \<subseteq> set [0..<16]" for es
    using that by (induction es) (auto split: option.split)
  from this [of "[0..<16]"] show ?thesis by simp
qed

lemma upt16_split: "e < 16 \<Longrightarrow> [0..<16] = [0..<e] @ e # [Suc e..<16]"
  by (metis le_add_diff_inverse less_imp_le_nat upt_add_eq_append upt_conv_Cons zero_le)

text \<open>Filling a free entry inserts into the list of entries, clearing one deletes from it.\<close>

lemma live_insert:
  assumes "e < 16" and "entry buf e = None" and "\<And>e'. e' < 16 \<Longrightarrow> entry buf' e' = (if e' = e then Some x else entry buf e')"
  shows "\<exists>xs ys. live buf = xs @ ys \<and> live buf' = xs @ x # ys"
proof -
  have "entries_in buf' es = entries_in buf es" if "\<forall>a \<in> set es. a < 16 \<and> a \<noteq> e" for es
    using that assms(3) by (intro entries_in_cong) auto
  from this [of "[0..<e]"] this [of "[Suc e..<16]"] show ?thesis
    unfolding upt16_split [OF assms(1)] using assms by auto
qed

lemma live_delete:
  assumes "e < 16" and "entry buf e = Some x" and "\<And>e'. e' < 16 \<Longrightarrow> entry buf' e' = (if e' = e then None else entry buf e')"
  shows "live buf = entries_in buf [0..<e] @ x # entries_in buf [Suc e..<16]
    \<and> live buf' = entries_in buf [0..<e] @ entries_in buf [Suc e..<16]"
proof -
  have "entries_in buf' es = entries_in buf es" if "\<forall>a \<in> set es. a < 16 \<and> a \<noteq> e" for es
    using that assms(3) by (intro entries_in_cong) auto
  from this [of "[0..<e]"] this [of "[Suc e..<16]"] show ?thesis
    unfolding upt16_split [OF assms(1)] using assms by auto
qed

lemma de_name_terminated:
  assumes "dirbuf_ok buf" and "e < 16"
  shows "0 \<in> set (de_name buf e)" and "takeWhile (\<lambda>c. c \<noteq> 0) (de_name buf e) = ent_name buf e"
proof -
  have z: "de_name buf e ! 27 = 0" and l: "28 \<le> length (de_name buf e)"
    using assms by (simp_all add: dirbuf_ok_def de_name_def add.commute)
  then have i: "0 \<in> set (take 28 (de_name buf e))" using nth_mem [of 27 "take 28 (de_name buf e)"] by simp
  then show "0 \<in> set (de_name buf e)" by (rule in_set_takeD)
  have "takeWhile (\<lambda>c. c \<noteq> 0) (take 28 (de_name buf e) @ drop 28 (de_name buf e)) = takeWhile (\<lambda>c. c \<noteq> 0) (take 28 (de_name buf e))"
    using i by (intro takeWhile_append1 [of 0]) auto
  then show "takeWhile (\<lambda>c. c \<noteq> 0) (de_name buf e) = ent_name buf e" unfolding append_take_drop_id by (simp add: ent_name_def de_name_def)
qed

lemma find_entry_find:
  assumes "dirbuf_ok buf" and "0 \<notin> set name" and "e + k \<le> 16"
  shows "find_entry name buf k e = Some (List.find (\<lambda>e. de_inum1 buf e \<noteq> 0 \<and> ent_name buf e = name) [e..<e + k])"
  using assms(3)
proof (induction k arbitrary: e)
  case (Suc k)
  have u: "[e..<e + Suc k] = e # [Suc e..<Suc e + k]" by (simp add: upt_conv_Cons del: upt_Suc)
  have "e < 16" using Suc.prems by simp
  from strcmp_l_returns [OF de_name_terminated(1) [OF assms(1) this] assms(2)] de_name_terminated(2) [OF assms(1) this]
  show ?case using Suc.IH [of "Suc e"] Suc.prems unfolding u by auto
qed simp

text \<open>An entry depends only on its own 32 bytes.\<close>

definition dslot :: "u8 list \<Rightarrow> nat \<Rightarrow> u8 list" where
  "dslot buf e = take 32 (drop (32 * e) buf)"

lemma de_dslot:
  assumes "length buf = 512" and "e < 16"
  shows "de_inum1 buf e = get32 (dslot buf e) 0" and "ent_name buf e = takeWhile (\<lambda>c. c \<noteq> 0) (drop 4 (dslot buf e))"
    and "buf ! (32 * e + 31) = dslot buf e ! 31"
  using assms by (simp_all add: de_inum1_def ent_name_def dslot_def get32_take_drop drop_take add.commute)

lemma dslot_put:
  assumes "length buf = 512" and "e < 16" and "e' < 16" and "length xs \<le> 32"
  shows "dslot (put_at (32 * e) xs buf) e' = (if e' = e then xs @ drop (length xs) (dslot buf e) else dslot buf e')"
proof (cases "e' = e")
  case True
  then show ?thesis using assms by (simp add: dslot_def put_at_def drop_take min_def add.commute)
next
  case False
  then have "32 * e' + 32 \<le> 32 * e \<or> 32 * e + length xs \<le> 32 * e'" using assms(4) by linarith
  then show ?thesis using False assms by (simp add: dslot_def take_drop_put_at_other)
qed

lemma put_at_put_at: "off + length xs + length ys \<le> length buf \<Longrightarrow>
  put_at (off + length xs) ys (put_at off xs buf) = put_at off (xs @ ys) buf"
  by (simp add: put_at_def ac_simps)

lemma set_dirent_eq:
  assumes "length buf = 512" and "e < 16"
  shows "set_dirent e child name buf = put_at (32 * e) (le32 (word_of_int child + 1) @ strncpy_bytes 27 name @ [0]) buf"
  using assms put_at_put_at [of "32 * e" "le32 (word_of_int child + 1)" "strncpy_bytes 27 name" buf]
    put_at_put_at [of "32 * e" "le32 (word_of_int child + 1) @ strncpy_bytes 27 name" "[0]" buf]
  by (simp add: set_dirent_def Let_def add.assoc)

lemma takeWhile_strncpy: "0 \<notin> set name \<Longrightarrow> takeWhile (\<lambda>c. c \<noteq> 0) (strncpy_bytes n name @ [0]) = take n name"
proof -
  assume "0 \<notin> set name"
  then have "\<forall>c \<in> set (take n name). c \<noteq> 0" by (metis in_set_takeD)
  moreover have "takeWhile (\<lambda>c. c \<noteq> 0) (replicate k 0 @ [0 :: u8]) = []" for k by (cases k) auto
  ultimately show ?thesis by (simp add: strncpy_bytes_def takeWhile_append2)
qed

lemma set_dirent_entry:
  assumes "length buf = 512" and "e < 16" and "e' < 16" and "c < 64" and "0 \<notin> set name"
  shows "entry (set_dirent e (int c) name buf) e' = (if e' = e then Some (take 27 name, c) else entry buf e')"
proof -
  let ?x = "le32 (word_of_nat c + 1) @ strncpy_bytes 27 name @ [0]" and ?b = "set_dirent e (int c) name buf"
  have l: "length ?b = 512" using assms by (simp add: set_dirent_eq)
  have d: "dslot ?b e' = (if e' = e then ?x else dslot buf e')"
    using assms dslot_put [of buf e e' ?x] by (simp add: set_dirent_eq dslot_def)
  have "unat (word_of_nat c + 1 :: u32) = Suc c"
    using unat_of_nat_u32 [of "Suc c"] assms(4) by (simp add: add.commute)
  moreover from this have "(word_of_nat c + 1 :: u32) \<noteq> 0" by force
  ultimately show ?thesis using assms l d takeWhile_strncpy [OF assms(5), of 27]
    by (cases "e' = e") (simp_all add: entry_def de_dslot get32_le32_Cons)
qed

lemma set_dirent_ok:
  assumes "dirbuf_ok buf" and "e < 16" and "c < 64"
  shows "dirbuf_ok (set_dirent e (int c) name buf)"
proof -
  let ?x = "le32 (word_of_nat c + 1) @ strncpy_bytes 27 name @ [0]" and ?b = "set_dirent e (int c) name buf"
  have l: "length ?b = 512" "length buf = 512" using assms by (simp_all add: set_dirent_eq dirbuf_ok_def)
  have d: "dslot ?b e' = (if e' = e then ?x else dslot buf e')" if "e' < 16" for e'
    using assms that dslot_put [of buf e e' ?x] l by (simp add: set_dirent_eq dslot_def)
  have "unat (word_of_nat c + 1 :: u32) = Suc c"
    using unat_of_nat_u32 [of "Suc c"] assms(3) by (simp add: add.commute)
  then have "?b ! (32 * e' + 31) = 0 \<and> unat (de_inum1 ?b e') \<le> 64" if "e' < 16" for e'
    using assms that d [OF that] l
    by (cases "e' = e") (auto simp: de_dslot get32_le32_Cons nth_append dirbuf_ok_def)
  then show ?thesis using l by (simp add: dirbuf_ok_def)
qed

lemma clear_dirent_entry:
  assumes "length buf = 512" and "e < 16" and "e' < 16"
  shows "entry (put_at (32 * e) (le32 0) buf) e' = (if e' = e then None else entry buf e')"
  using assms dslot_put [of buf e e' "le32 0"] get32_le32_Cons(1) [of 0]
  by (auto simp: entry_def de_dslot)

lemma clear_dirent_ok:
  assumes "dirbuf_ok buf" and "e < 16"
  shows "dirbuf_ok (put_at (32 * e) (le32 0) buf)"
proof -
  let ?b = "put_at (32 * e) (le32 0) buf"
  have l: "length ?b = 512" "length buf = 512" using assms by (simp_all add: dirbuf_ok_def)
  have "?b ! (32 * e' + 31) = 0 \<and> unat (de_inum1 ?b e') \<le> 64" if "e' < 16" for e'
  proof -
    have b: "buf ! (32 * e' + 31) = 0" "unat (get32 (dslot buf e') 0) \<le> 64"
      using assms(1) that l(2) by (auto simp: dirbuf_ok_def de_dslot)
    have n: "?b ! (32 * e' + 31) = buf ! (32 * e' + 31)" 
    proof -
      have "\<not> (32 * e \<le> 32 * e' + 31 \<and> 32 * e' + 31 < 32 * e + 4)" by presburger
      then show ?thesis using that assms(2) l nth_put_at [of "32 * e" "le32 0" buf "32 * e' + 31"] by auto
    qed
    have "dslot ?b e' = (if e' = e then le32 0 @ drop 4 (dslot buf e) else dslot buf e')"
      using dslot_put [of buf e e' "le32 0"] assms that l by simp
    then show ?thesis using b n that l get32_le32_Cons(1) [of 0] by (simp add: de_dslot(1))
  qed
  then show ?thesis using l by (simp add: dirbuf_ok_def)
qed

lemma dirbuf_ok_zero: "dirbuf_ok (replicate 512 0)" and live_zero: "live (replicate 512 0) = []"
proof -
  have "de_inum1 (replicate 512 0) e = 0" if "e < 16" for e using that by (simp add: de_inum1_def)
  then show "dirbuf_ok (replicate 512 0)" and "live (replicate 512 0) = []"
    by (simp_all add: dirbuf_ok_def entries_in_def List.map_filter_def entry_def)
qed

lemma live_first:
  assumes "c < 64" and "0 \<notin> set name"
  shows "live (set_dirent 0 (int c) name (replicate 512 0)) = [(take 27 name, c)]"
proof -
  have "\<exists>xs ys. live (replicate 512 0) = xs @ ys \<and> live (set_dirent 0 (int c) name (replicate 512 0)) = xs @ (take 27 name, c) # ys"
    by (rule live_insert [of 0]) (simp_all add: set_dirent_entry assms, simp add: entry_def de_inum1_def)
  then show ?thesis by (simp add: live_zero)
qed

end
