(* ===== verification/Sfs_Spec.thy ===== *)
theory Sfs_Spec
  imports Sfs_Layout
begin

text \<open>
  The abstract file system: what each inode number stands for (\<open>node\<close>), and the invariant \<open>fs_ok\<close>
  of a consistent disk. Every data block belongs to at most one inode, the bitmap is exact
  (a bit is set exactly for the blocks that some inode owns), block lists have no gaps, directories have
  distinct terminated names and inode numbers in range. \<open>chg\<close> bounds what an operation changes, and
  \<open>fs_ok_step\<close> turns such a bound into preservation of the invariant and of all other nodes.
\<close>

section \<open>Nodes\<close>

datatype node = File "u8 list" | Dir "(u8 list \<times> nat) list"

definition own :: "inode_t \<Rightarrow> u32 list" where
  "own n = takeWhile (\<lambda>b. b \<noteq> 0) (iblocks n)"

abbreviation owned :: "disk \<Rightarrow> nat \<Rightarrow> u32 list" where
  "owned D i \<equiv> own (d_inode D i)"

definition dents :: "disk \<Rightarrow> u32 list \<Rightarrow> (u8 list \<times> nat) list" where
  "dents D bs = concat (map (\<lambda>b. live (D b)) bs)"

definition file_bytes :: "disk \<Rightarrow> u32 list \<Rightarrow> u8 list" where
  "file_bytes D bs = concat (map D bs)"

definition node_of :: "disk \<Rightarrow> inode_t \<Rightarrow> node option" where
  "node_of D n =
     (if itype n = SFS_FILE then Some (File (take (unat (isize n)) (file_bytes D (own n))))
      else if itype n = SFS_DIR then Some (Dir (dents D (own n)))
      else None)"

abbreviation node :: "disk \<Rightarrow> nat \<Rightarrow> node option" where
  "node D i \<equiv> node_of D (d_inode D i)"

section \<open>Consistency\<close>

definition data_blk :: "u32 \<Rightarrow> bool" where
  "data_blk b \<longleftrightarrow> 16 \<le> unat b \<and> unat b < 2064"

definition bidx :: "u32 \<Rightarrow> nat" where
  "bidx b = unat b - 16"

definition inode_ok :: "disk \<Rightarrow> inode_t \<Rightarrow> bool" where
  "inode_ok D n \<longleftrightarrow>
     iblocks n = own n @ replicate (14 - length (own n)) 0 \<and> length (own n) \<le> 14
     \<and> distinct (own n) \<and> (\<forall>b \<in> set (own n). data_blk b)
     \<and> (itype n = SFS_FREE \<and> own n = []
        \<or> itype n = SFS_FILE \<and> unat (isize n) \<le> 512 * length (own n)
        \<or> itype n = SFS_DIR \<and> (\<forall>b \<in> set (own n). dirbuf_ok (D b)) \<and> distinct (map fst (dents D (own n))))"

definition fs_ok :: "disk \<Rightarrow> bool" where
  "fs_ok D \<longleftrightarrow> disk_ok D \<and> (\<forall>i < 64. inode_ok D (d_inode D i))
     \<and> (\<forall>i < 64. \<forall>j < 64. i \<noteq> j \<longrightarrow> set (owned D i) \<inter> set (owned D j) = {})
     \<and> used D = (\<Union>i < 64. bidx ` set (owned D i))"

lemma fs_okD:
  assumes "fs_ok D"
  shows "disk_ok D" and "i < 64 \<Longrightarrow> inode_ok D (d_inode D i)"
    and "i < 64 \<Longrightarrow> j < 64 \<Longrightarrow> i \<noteq> j \<Longrightarrow> set (owned D i) \<inter> set (owned D j) = {}"
    and "used D = (\<Union>i < 64. bidx ` set (owned D i))"
  using assms unfolding fs_ok_def by blast+

lemma data_blk_inj: "data_blk b \<Longrightarrow> data_blk c \<Longrightarrow> bidx b = bidx c \<longleftrightarrow> b = c"
  by (auto simp: data_blk_def bidx_def word_unat_eq_iff)

lemma owned_data: "fs_ok D \<Longrightarrow> i < 64 \<Longrightarrow> b \<in> set (owned D i) \<Longrightarrow> data_blk b"
  using fs_okD(2) by (auto simp: inode_ok_def)

lemma owned_used: "fs_ok D \<Longrightarrow> i < 64 \<Longrightarrow> b \<in> set (owned D i) \<Longrightarrow> bidx b \<in> used D"
  using fs_okD(4) by blast

text \<open>What an operation leaves alone: the superblock, the inodes outside \<open>I\<close>, the data blocks
  outside \<open>B\<close>.\<close>

definition chg :: "nat set \<Rightarrow> u32 set \<Rightarrow> disk \<Rightarrow> disk \<Rightarrow> bool" where
  "chg I B D D' \<longleftrightarrow> disk_ok D' \<and> D' 0 = D 0 \<and> (\<forall>i < 64. i \<notin> I \<longrightarrow> d_inode D' i = d_inode D i)
     \<and> (\<forall>b. data_blk b \<and> b \<notin> B \<longrightarrow> D' b = D b)"

lemma chg_refl: "disk_ok D \<Longrightarrow> chg I B D D"
  by (simp add: chg_def)

lemma chg_trans: "chg I B D D1 \<Longrightarrow> chg I' B' D1 D2 \<Longrightarrow> chg (I \<union> I') (B \<union> B') D D2"
  unfolding chg_def by auto

lemma chg_mono: "chg I B D D' \<Longrightarrow> I \<subseteq> I' \<Longrightarrow> B \<subseteq> B' \<Longrightarrow> chg I' B' D D'"
  unfolding chg_def by blast

lemma dents_cong: "(\<And>b. b \<in> set bs \<Longrightarrow> D' b = D b) \<Longrightarrow> dents D' bs = dents D bs"
  by (simp add: dents_def cong: map_cong)

lemma file_bytes_cong: "(\<And>b. b \<in> set bs \<Longrightarrow> D' b = D b) \<Longrightarrow> file_bytes D' bs = file_bytes D bs"
  by (simp add: file_bytes_def cong: map_cong)

lemma inode_frame:
  assumes "\<And>b. b \<in> set (own n) \<Longrightarrow> D' b = D b"
  shows "node_of D' n = node_of D n" and "inode_ok D' n = inode_ok D n"
  using dents_cong [of "own n" D' D] file_bytes_cong [of "own n" D' D] assms
  by (auto simp: node_of_def inode_ok_def)

lemma UN_split: "i < n \<Longrightarrow> (\<Union>j < n. f j) = f i \<union> (\<Union>j \<in> {..<n :: nat} - {i}. f j)"
  by auto

lemma diff_union_swap: "U = A \<union> R \<Longrightarrow> A \<inter> R = {} \<Longrightarrow> U' = U - A \<union> A' \<Longrightarrow> V = A' \<union> R \<Longrightarrow> U' = V"
  by auto

lemma fs_ok_step:
  assumes ok: "fs_ok D" and i: "i < 64" and c: "chg {i} B D D'"
    and B: "\<And>j. j < 64 \<Longrightarrow> j \<noteq> i \<Longrightarrow> B \<inter> set (owned D j) = {}"
    and o: "\<And>j. j < 64 \<Longrightarrow> j \<noteq> i \<Longrightarrow> set (owned D' i) \<inter> set (owned D j) = {}"
    and n: "inode_ok D' (d_inode D' i)"
    and u: "used D' = used D - bidx ` set (owned D i) \<union> bidx ` set (owned D' i)"
  shows "fs_ok D'" and "\<And>j. j < 64 \<Longrightarrow> j \<noteq> i \<Longrightarrow> node D' j = node D j"
proof -
  have d: "d_inode D' j = d_inode D j" if "j < 64" "j \<noteq> i" for j using c that by (simp add: chg_def)
  have b: "D' b = D b" if "j < 64" "j \<noteq> i" "b \<in> set (owned D j)" for j b
    using c B [OF that(1,2)] owned_data [OF ok that(1,3)] that(3) unfolding chg_def by blast
  show "node D' j = node D j" if "j < 64" "j \<noteq> i" for j
    unfolding d [OF that] by (rule inode_frame(1)) (rule b [OF that])
  have "inode_ok D' (d_inode D' j)" if "j < 64" for j
  proof (cases "j = i")
    case False
    have "inode_ok D' (d_inode D j) = inode_ok D (d_inode D j)" by (rule inode_frame(2)) (rule b [OF that False])
    with False that fs_okD(2) [OF ok that] show ?thesis by (simp add: d)
  qed (simp add: n)
  moreover have "set (owned D' j) \<inter> set (owned D' k) = {}" if "j < 64" "k < 64" "j \<noteq> k" for j k
    using that o [of j] o [of k] fs_okD(3) [OF ok that] d [of j] d [of k]
    by (cases "j = i"; cases "k = i") (simp_all add: Int_commute)
  moreover have "used D' = (\<Union>j < 64. bidx ` set (owned D' j))"
  proof (rule diff_union_swap [OF _ _ u])
    show "used D = bidx ` set (owned D i) \<union> (\<Union>j \<in> {..<64} - {i}. bidx ` set (owned D j))"
      unfolding fs_okD(4) [OF ok] by (rule UN_split [OF i])
    show "bidx ` set (owned D i) \<inter> (\<Union>j \<in> {..<64} - {i}. bidx ` set (owned D j)) = {}"
      using fs_okD(3) [OF ok i] owned_data [OF ok] i by (force simp: data_blk_inj)
    have "(\<Union>j \<in> {..<64} - {i}. bidx ` set (owned D' j)) = (\<Union>j \<in> {..<64} - {i}. bidx ` set (owned D j))"
      using d by simp
    then show "(\<Union>j < 64. bidx ` set (owned D' j)) = bidx ` set (owned D' i) \<union> (\<Union>j \<in> {..<64} - {i}. bidx ` set (owned D j))"
      using UN_split [OF i, of "\<lambda>j. bidx ` set (owned D' j)"] by simp
  qed
  ultimately show "fs_ok D'" using c by (simp add: fs_ok_def chg_def)
qed

section \<open>Block lists\<close>

lemma own_padded: "iblocks n = bs @ replicate k 0 \<Longrightarrow> 0 \<notin> set bs \<Longrightarrow> own n = bs"
proof -
  assume n: "iblocks n = bs @ replicate k 0" "0 \<notin> set bs"
  have "\<forall>b \<in> set bs. b \<noteq> 0" using n(2) by metis
  moreover have "takeWhile (\<lambda>b. b \<noteq> 0) (replicate k (0 :: u32)) = []" by (cases k) auto
  ultimately show ?thesis by (simp add: own_def n(1) takeWhile_append2)
qed

lemma own_nonzero: "0 \<notin> set (own n)"
  by (auto simp: own_def dest: set_takeWhileD)

lemma own_nth: "j < length (own n) \<Longrightarrow> iblocks n ! j \<noteq> 0"
  using own_nonzero [of n] takeWhile_nth [of j "\<lambda>b. b \<noteq> 0" "iblocks n"] nth_mem [of j "own n"] by (auto simp: own_def)

lemma list_update_pad:
  "length xs = m \<Longrightarrow> m < n \<Longrightarrow> (xs @ replicate (n - m) z)[m := y] = (xs @ [y]) @ replicate (n - Suc m) z"
  by (cases "n - m") (auto simp: list_update_append)

lemma dents_simps [simp]: "dents D [] = []" "dents D (b # bs) = live (D b) @ dents D bs"
  "dents D (bs @ cs) = dents D bs @ dents D cs"
  by (simp_all add: dents_def)

lemma inode_chg:
  assumes "disk_ok D" and "i < 64" and "length (iblocks n) = 14"
  shows "chg {i} {} D (put_inode i n D)" and "used (put_inode i n D) = used D"
  using assms put_inode_other [OF assms(2)]
  by (auto simp: chg_def disk_ok_put_inode d_inode_put data_blk_def)

lemma data_chg:
  assumes "disk_ok D" and "data_blk b" and "length x = 512"
  shows "chg {} {b} D (D(b := x))" and "used (D(b := x)) = used D" and "i < 64 \<Longrightarrow> d_inode (D(b := x)) i = d_inode D i"
proof -
  have b: "9 \<le> unat b" "b \<noteq> 9" "b \<noteq> 0" using assms(2) by (auto simp: data_blk_def)
  show i: "i < 64 \<Longrightarrow> d_inode (D(b := x)) i = d_inode D i" for i using b by (intro d_inode_high)
  show "used (D(b := x)) = used D" using b by simp
  show "chg {} {b} D (D(b := x))" using assms b i by (auto simp: chg_def intro: disk_ok_upd)
qed

section \<open>Inserting and deleting entries\<close>

definition dir_ins :: "disk \<Rightarrow> u32 list \<Rightarrow> u8 list \<times> nat \<Rightarrow> disk \<Rightarrow> bool" where
  "dir_ins D bl x D' \<longleftrightarrow> (\<exists>b \<in> set bl. \<exists>buf. D' = D(b := buf) \<and> dirbuf_ok buf)
     \<and> (\<exists>xs ys. dents D bl = xs @ ys \<and> dents D' bl = xs @ x # ys)"

definition dir_del :: "disk \<Rightarrow> u32 list \<Rightarrow> u8 list \<Rightarrow> disk \<Rightarrow> bool" where
  "dir_del D bl name D' \<longleftrightarrow> (\<exists>b \<in> set bl. \<exists>buf. D' = D(b := buf) \<and> dirbuf_ok buf)
     \<and> (\<exists>xs k ys. dents D bl = xs @ (name, k) # ys \<and> name \<notin> fst ` set xs \<and> dents D' bl = xs @ ys)"

lemma dir_ins_hd:
  assumes "b \<notin> set bl" and "dirbuf_ok buf" and "live (D b) = xs @ ys" and "live buf = xs @ x # ys"
  shows "dir_ins D (b # bl) x (D(b := buf))"
proof -
  have "dents (D(b := buf)) bl = dents D bl" using assms(1) by (intro dents_cong) auto
  then have "dents D (b # bl) = xs @ (ys @ dents D bl)" "dents (D(b := buf)) (b # bl) = xs @ x # (ys @ dents D bl)"
    using assms(3,4) by simp_all
  then show ?thesis unfolding dir_ins_def using assms(2) by (metis list.set_intros(1))
qed

lemma dir_ins_Cons:
  assumes "b \<notin> set bl" and "dir_ins D bl x D'"
  shows "dir_ins D (b # bl) x D'"
proof -
  from assms obtain b' buf xs ys where h: "b' \<in> set bl" "D' = D(b' := buf)" "dirbuf_ok buf"
    "dents D bl = xs @ ys" "dents D' bl = xs @ x # ys" unfolding dir_ins_def by blast
  then have "dents D (b # bl) = (live (D b) @ xs) @ ys" "dents D' (b # bl) = (live (D b) @ xs) @ x # ys"
    using assms(1) by auto
  then show ?thesis unfolding dir_ins_def using h(1-3) by (metis list.set_intros(2))
qed

lemma dir_del_hd:
  assumes "b \<notin> set bl" and "dirbuf_ok buf" and "live (D b) = xs @ (name, k) # ys" and "live buf = xs @ ys"
    and "name \<notin> fst ` set xs"
  shows "dir_del D (b # bl) name (D(b := buf))"
proof -
  have "dents (D(b := buf)) bl = dents D bl" using assms(1) by (intro dents_cong) auto
  then have "dents D (b # bl) = xs @ (name, k) # (ys @ dents D bl)" "dents (D(b := buf)) (b # bl) = xs @ (ys @ dents D bl)"
    using assms(3,4) by simp_all
  then show ?thesis unfolding dir_del_def using assms(2,5) by (metis list.set_intros(1))
qed

lemma dir_del_Cons:
  assumes "b \<notin> set bl" and "dir_del D bl name D'" and "name \<notin> fst ` set (live (D b))"
  shows "dir_del D (b # bl) name D'"
proof -
  from assms obtain b' buf xs k ys where h: "b' \<in> set bl" "D' = D(b' := buf)" "dirbuf_ok buf"
    "dents D bl = xs @ (name, k) # ys" "name \<notin> fst ` set xs" "dents D' bl = xs @ ys" unfolding dir_del_def by blast
  then have "dents D (b # bl) = (live (D b) @ xs) @ (name, k) # ys" "dents D' (b # bl) = (live (D b) @ xs) @ ys"
    "name \<notin> fst ` set (live (D b) @ xs)" using assms(1,3) by auto
  then show ?thesis unfolding dir_del_def using h(1-3) by (metis list.set_intros(2))
qed

lemma length_entries_in: "length (entries_in buf es) \<le> length es"
  by (induction es) (auto split: option.split)

lemma length_live: "length (live buf) \<le> 16"
  by (rule order_trans [OF length_entries_in]) simp

lemma length_dents: "length (dents D bl) \<le> 16 * length bl"
proof (induction bl)
  case (Cons b bl)
  then show ?case using length_live [of "D b"] by simp
qed simp

definition disk_full :: "disk \<Rightarrow> bool" where
  "disk_full D \<longleftrightarrow> used D = {..<2048}"

lemma disk_full_cong: "used D' = used D \<Longrightarrow> disk_full D' = disk_full D"
  by (simp add: disk_full_def)

lemma not_disk_full:
  assumes "data_blk b" and "bidx b \<notin> used D"
  shows "\<not> disk_full D"
proof -
  have "bidx b \<in> {..<2048}" using assms(1) by (simp only: lessThan_iff) (auto simp: bidx_def data_blk_def)
  then show ?thesis using assms(2) unfolding disk_full_def by metis
qed

text \<open>No room for another entry: every slot is taken, and there is no block to add.\<close>

definition dir_full :: "disk \<Rightarrow> nat \<Rightarrow> bool" where
  "dir_full D i \<longleftrightarrow> length (dents D (owned D i)) = 16 * length (owned D i)
     \<and> (disk_full D \<or> length (owned D i) = 14)"

lemma dir_ins_not_full: "dir_ins D (owned D i) x D' \<Longrightarrow> \<not> dir_full D i"
proof -
  assume "dir_ins D (owned D i) x D'"
  then have "length (dents D (owned D i)) < length (dents D' (owned D i))" by (auto simp: dir_ins_def)
  then have "length (dents D (owned D i)) \<noteq> 16 * length (owned D i)" using length_dents [of D' "owned D i"] by linarith
  then show ?thesis unfolding dir_full_def by blast
qed

section \<open>What the public operations do\<close>

definition others :: "nat \<Rightarrow> disk \<Rightarrow> disk \<Rightarrow> bool" where
  "others i D D' \<longleftrightarrow> (\<forall>j < 64. j \<noteq> i \<longrightarrow> node D' j = node D j)"

text \<open>The two entries of a new directory: both are written, or none when no data block is left.\<close>

definition dot_entries :: "nat \<Rightarrow> nat \<Rightarrow> (u8 list \<times> nat) list \<Rightarrow> bool" where
  "dot_entries k parent es \<longleftrightarrow> length es = 2 \<and> map_of es DOT = Some k \<and> map_of es DOTDOT = Some parent"

definition created :: "disk \<Rightarrow> nat \<Rightarrow> nat \<Rightarrow> int \<Rightarrow> node option \<Rightarrow> bool" where
  "created D dir k t n \<longleftrightarrow> (if t = 1 then n = Some (File [])
     else \<exists>ks. n = Some (Dir ks) \<and> (if disk_full D then ks = [] else dot_entries k dir ks))"

text \<open>The outcome of \<^verbatim>\<open>sfs_create\<close> in a directory with entries \<open>es\<close>; the name is stored cut to 27 bytes.\<close>

definition create_post :: "disk \<Rightarrow> nat \<Rightarrow> (u8 list \<times> nat) list \<Rightarrow> u8 list \<Rightarrow> int \<Rightarrow> int \<Rightarrow> disk \<Rightarrow> bool" where
  "create_post D dir es name t r D' \<longleftrightarrow> fs_ok D' \<and> D' 0 = D 0 \<and>
     (if name \<in> fst ` set es \<or> (\<forall>k < 64. node D k \<noteq> None) then r = - 1 \<and> D' = D
      else \<exists>k < 64. node D k = None \<and> created D dir k t (node D' k)
        \<and> (\<forall>j < 64. j \<noteq> k \<and> j \<noteq> dir \<longrightarrow> node D' j = node D j)
        \<and> (r = int k \<and> (\<exists>xs ys. es = xs @ ys \<and> node D' dir = Some (Dir (xs @ (take 27 name, k) # ys)))
           \<or> r = - 1 \<and> node D' dir = Some (Dir es) \<and> dir_full D' dir))"

text \<open>The outcome of \<^verbatim>\<open>sfs_unlink\<close> for a name that is neither \<open>DOT\<close> nor \<open>DOTDOT\<close>.\<close>

definition unlink_post :: "disk \<Rightarrow> nat \<Rightarrow> (u8 list \<times> nat) list \<Rightarrow> u8 list \<Rightarrow> int \<Rightarrow> disk \<Rightarrow> bool" where
  "unlink_post D dir es name r D' \<longleftrightarrow> fs_ok D' \<and> D' 0 = D 0 \<and>
     (case map_of es name of
        None \<Rightarrow> r = - 1 \<and> D' = D
      | Some k \<Rightarrow>
          if \<exists>ks. node D k = Some (Dir ks) \<and> 2 < length ks then r = - 1 \<and> D' = D
          else r = 0 \<and> node D' k = None \<and> (\<forall>j < 64. j \<noteq> k \<and> j \<noteq> dir \<longrightarrow> node D' j = node D j)
            \<and> (\<exists>xs ys. es = xs @ (name, k) # ys \<and> node D' dir = Some (Dir (xs @ ys))))"

end
