(* ===== verification/Sfs_Ops.thy ===== *)
theory Sfs_Ops
  imports Sfs_Spec
begin

text \<open>
  The operations of the file system on any block store with at least 2064 blocks (the laws of the
  locale \<open>block_store\<close>): each returns, and what it does to the logical disk is stated with the notions of
  the layout. The lemmas hold for the cache on a working disk and for a plain array of blocks, which
  interpret the locale.
\<close>

locale sfs_store = block_store st view ok cap
  for st :: "'s block_layer" and view :: "'s \<Rightarrow> disk" and ok :: "'s \<Rightarrow> bool" and cap :: nat +
  assumes cap_2064: "2064 \<le> cap"
begin

definition at :: "disk \<Rightarrow> 's \<Rightarrow> bool" where
  "at D s \<longleftrightarrow> ok s \<and> view s = D"

lemma at_disk_ok: "at D s \<Longrightarrow> disk_ok D"
  using view_length [of s] cap_2064 by (auto simp: at_def disk_ok_def)

lemma read_wp: "at D s \<Longrightarrow> unat b < 2064 \<Longrightarrow> wp (read_block st b s) (\<lambda>(x, s'). x = D b \<and> at D s')"
  using read_law [of s b] cap_2064 by (auto simp: wp_def at_def)

lemma write_wp: "at D s \<Longrightarrow> unat b < 2064 \<Longrightarrow> length x = 512 \<Longrightarrow> wp (write_block st b x s) (at (D(b := x)))"
  using write_law [of s b x] cap_2064 by (auto simp: wp_def at_def)

section \<open>Inodes\<close>

lemma read_inode_wp:
  assumes "at D s" and "i < 64"
  shows "wp (read_inode st (int i) s) (\<lambda>(n, s'). n = d_inode D i \<and> at D s')"
  unfolding read_inode_def inode_pos_eq using iblk_low [OF assms(2)]
  by (auto intro!: wp_bind [OF read_wp [OF assms(1)]] simp: d_inode_def)

lemma write_inode_wp:
  assumes "at D s" and "i < 64" and "length (iblocks n) = 14"
  shows "wp (write_inode st (int i) n s) (at (put_inode i n D))"
proof -
  have l: "length (D (iblk i)) = 512" using at_disk_ok [OF assms(1)] iblk_low [OF assms(2)] by (simp add: disk_okD)
  show ?thesis unfolding write_inode_def inode_pos_eq put_inode_def
    using iblk_low [OF assms(2)] inode_off [of i] l
    by (auto intro!: wp_bind [OF read_wp [OF assms(1)]] write_wp simp: length_enc_inode assms(3))
qed

lemma alloc_inode_loop_wp:
  assumes "at D s" and "i + k \<le> 64"
  shows "wp (alloc_inode_loop st k i s) (\<lambda>(r, s'). at D s'
    \<and> r = (case List.find (\<lambda>i. itype (d_inode D i) = 0) [i..<i + k] of Some i \<Rightarrow> int i | None \<Rightarrow> - 1))"
  using assms
proof (induction k arbitrary: i s)
  case (Suc k)
  have u: "[i..<i + Suc k] = i # [Suc i..<Suc i + k]" by (simp add: upt_conv_Cons del: upt_Suc)
  have "i < 64" using Suc.prems by simp
  then show ?case unfolding u alloc_inode_loop.simps
    by (intro wp_bind [OF read_inode_wp [OF Suc.prems(1)]]) (use Suc.IH [of _ "Suc i"] Suc.prems in auto)
qed simp

lemma alloc_inode_wp:
  assumes "at D s"
  shows "wp (alloc_inode st s) (\<lambda>(r, s'). at D s' \<and>
    (r = - 1 \<and> (\<forall>i < 64. itype (d_inode D i) \<noteq> 0) \<or> (\<exists>i < 64. r = int i \<and> itype (d_inode D i) = 0)))"
  unfolding alloc_inode_def
  by (rule wp_mono [OF alloc_inode_loop_wp [OF assms]])
    (auto split: option.splits simp: find_None_iff find_Some_iff)

section \<open>Data blocks\<close>

lemma alloc_block_loop_wp:
  assumes "at D s" and "length bm = 512" and "i + k \<le> 2048"
  shows "wp (alloc_block_loop st bm k i s) (\<lambda>(nb, s'). case scan_off (bm_test bm) k i of
      None \<Rightarrow> nb = 0 \<and> at D s'
    | Some f \<Rightarrow> nb = 16 + word_of_nat f \<and> at (D(9 := bm_set f bm, 16 + word_of_nat f := replicate 512 0)) s')"
  using assms(1,3)
proof (induction k arbitrary: i s)
  case (Suc k)
  have "unat (16 + word_of_nat i :: u32) = 16 + i" using unat_of_nat_u32 [of "16 + i"] Suc.prems by simp
  then have w: "wp (write_block st (16 + word_of_nat i) (replicate 512 0) s') (at (D(9 := bm_set i bm, 16 + word_of_nat i := replicate 512 0)))"
    if "at (D(9 := bm_set i bm)) s'" for s' using that Suc.prems by (intro write_wp) auto
  have v: "wp (write_block st 9 (bm_set i bm) s) (at (D(9 := bm_set i bm)))"
    using Suc.prems assms(2) by (intro write_wp) (auto simp: bb.wf_put)
  show ?case
  proof (cases "bm_test bm i")
    case True
    then show ?thesis using Suc.IH [of s "Suc i"] Suc.prems by simp
  next
    case False
    then show ?thesis by (auto intro!: wp_bind [OF v] wp_bind [OF w])
  qed
qed simp

text \<open>A new block is a free one; it is marked, zeroed, and nothing else changes.\<close>

lemma alloc_block_wp:
  assumes "at D s"
  shows "wp (alloc_block st s) (\<lambda>(nb, s'). \<exists>D'. at D' s' \<and>
    (nb = 0 \<and> D' = D \<and> disk_full D
     \<or> nb \<noteq> 0 \<and> data_blk nb \<and> bidx nb \<notin> used D \<and> used D' = insert (bidx nb) (used D)
       \<and> D' nb = replicate 512 0 \<and> chg {} {nb} D D'))"
proof -
  have l: "length (D 9) = 512" using at_disk_ok [OF assms] by (simp add: disk_ok_def)
  have "wp (alloc_block_loop st (D 9) 2048 0 s') (\<lambda>(nb, s'). \<exists>D'. at D' s' \<and>
    (nb = 0 \<and> D' = D \<and> disk_full D
     \<or> nb \<noteq> 0 \<and> data_blk nb \<and> bidx nb \<notin> used D \<and> used D' = insert (bidx nb) (used D)
       \<and> D' nb = replicate 512 0 \<and> chg {} {nb} D D'))" if "at D s'" for s'
  proof (rule wp_mono [OF alloc_block_loop_wp [OF that l, of 0 2048]], goal_cases)
    case (2 x)
    show ?case
    proof (cases "first_off (bm_test (D 9)) 2048")
      case None
      with 2 show ?thesis by (auto simp: scan_off_first_off first_off_None disk_full_def)
    next
      case (Some f)
      note f = first_off_SomeD [OF Some]
      let ?nb = "16 + word_of_nat f :: u32" and ?D = "D(9 := bm_set f (D 9), 16 + word_of_nat f := replicate 512 0)"
      have u: "unat ?nb = 16 + f" using unat_of_nat_u32 [of "16 + f"] f(1) by simp
      then have n: "?nb \<noteq> 0" "?nb \<noteq> 9" "?nb \<noteq> 0" by (auto simp: word_unat_eq_iff)
      have b: "data_blk ?nb" "bidx ?nb = f" using u f(1) by (simp_all add: data_blk_def bidx_def)
      have i: "d_inode ?D i = d_inode D i" if "i < 64" for i
        using that u by (subst d_inode_high, simp, simp, subst d_inode_high) auto
      have "chg {} {?nb} D ?D"
        using at_disk_ok [OF that] n i l by (auto simp: chg_def data_blk_def bb.wf_put f(1) intro!: disk_ok_upd)
      moreover have "used ?D = insert f (used D)" using n bb.on_put [OF l f(1)] by simp
      moreover have "f \<notin> used D" using f by (simp add: flags_on_def)
      ultimately show ?thesis using 2 Some b n by (auto simp: scan_off_first_off)
    qed
  qed simp
  then show ?thesis unfolding alloc_block_def by (intro wp_bind [OF read_wp [OF assms]]) auto
qed

lemma free_block_wp:
  assumes "at D s" and "data_blk b"
  shows "wp (free_block st b s) (\<lambda>s'. \<exists>D'. at D' s' \<and> used D' = used D - {bidx b} \<and> chg {} {} D D')"
proof -
  have l: "length (D 9) = 512" and k: "disk_ok D" using at_disk_ok [OF assms(1)] by (simp_all add: disk_ok_def)
  have b: "\<not> b < 16" "unat (b - 16) = bidx b" "bidx b < 2048"
    using assms(2) by (auto simp: data_blk_def bidx_def word_less_nat_alt unat_sub word_le_nat_alt)
  let ?D = "D(9 := bm_clear (bidx b) (D 9))"
  have "chg {} {} D ?D"
    using k l b(3) by (auto simp: chg_def data_blk_def bb.wf_clr d_inode_high intro!: disk_ok_upd)
  moreover have "used ?D = used D - {bidx b}" using bb.on_clr [OF l b(3)] by simp
  ultimately have "wp (write_block st 9 (bm_clear (bidx b) (D 9)) s') (\<lambda>s'. \<exists>D'. at D' s' \<and> used D' = used D - {bidx b} \<and> chg {} {} D D')"
    if "at D s'" for s'
    using that l b(3) by (intro wp_mono [OF write_wp]) (auto simp: bb.wf_clr)
  moreover have "bidx b div 8 < 512" using b(3) by simp
  ultimately show ?thesis
    unfolding free_block_def Let_def using b
    by (auto intro!: wp_bind [OF read_wp [OF assms(1)]])
qed

lemma free_blocks_wp:
  assumes "at D s" and "\<forall>b \<in> set bs. b \<noteq> 0 \<longrightarrow> data_blk b"
  shows "wp (free_blocks st bs s) (\<lambda>s'. \<exists>D'. at D' s' \<and> used D' = used D - bidx ` (set bs - {0}) \<and> chg {} {} D D')"
  using assms
proof (induction bs arbitrary: D s)
  case Nil
  then show ?case using chg_refl [OF at_disk_ok] by auto
next
  case (Cons b bs)
  show ?case
  proof (cases "b = 0")
    case True
    then show ?thesis using Cons by auto
  next
    case False
    then have "wp (free_block st b s) (\<lambda>s'. \<exists>D'. at D' s' \<and> used D' = used D - {bidx b} \<and> chg {} {} D D')"
      using Cons.prems by (intro free_block_wp) auto
    moreover have "wp (free_blocks st bs s1) (\<lambda>s'. \<exists>D'. at D' s' \<and> used D' = used D - bidx ` (set (b # bs) - {0}) \<and> chg {} {} D D')"
      if "\<exists>D'. at D' s1 \<and> used D' = used D - {bidx b} \<and> chg {} {} D D'" for s1
    proof -
      from that obtain D1 where D1: "at D1 s1" "used D1 = used D - {bidx b}" "chg {} {} D D1" by auto
      show ?thesis
      proof (rule wp_mono [OF Cons.IH [OF D1(1)]])
        fix s'
        assume "\<exists>D'. at D' s' \<and> used D' = used D1 - bidx ` (set bs - {0}) \<and> chg {} {} D1 D'"
        then obtain D' where "at D' s'" "used D' = used D1 - bidx ` (set bs - {0})" "chg {} {} D1 D'" by auto
        then show "\<exists>D'. at D' s' \<and> used D' = used D - bidx ` (set (b # bs) - {0}) \<and> chg {} {} D D'"
          using D1 False chg_trans [OF D1(3)] by (intro exI [of _ D']) auto
      qed (use Cons.prems in auto)
    qed
    ultimately show ?thesis using False by (auto intro: wp_bind)
  qed
qed

section \<open>Directories\<close>

definition dir_blocks :: "disk \<Rightarrow> u32 list \<Rightarrow> bool" where
  "dir_blocks D bs \<longleftrightarrow> (\<forall>b \<in> set bs. data_blk b \<and> dirbuf_ok (D b))"

lemma data_blk_lt: "data_blk b \<Longrightarrow> unat b < 2064" "data_blk b \<Longrightarrow> b \<noteq> 0"
  by (auto simp: data_blk_def)

lemma inum_of_small:
  assumes "unat w \<le> 64"
  shows "inum_of w = Some (int (unat w) - 1)"
proof -
  have "uint w \<noteq> - 2147483648" using uint_ge_0 [of w] by linarith
  then show ?thesis using assms sint_small [of w] by (simp add: inum_of_def)
qed

lemma dir_lookup_loop_wp:
  assumes "at D s" and "dir_blocks D (takeWhile (\<lambda>b. b \<noteq> 0) bs)" and "0 \<notin> set name"
  shows "wp (dir_lookup_loop st name bs s) (\<lambda>(r, s'). at D s'
    \<and> r = (case map_of (dents D (takeWhile (\<lambda>b. b \<noteq> 0) bs)) name of Some k \<Rightarrow> int k | None \<Rightarrow> - 1))"
  using assms(1,2)
proof (induction bs arbitrary: s)
  case Nil
  then show ?case by (simp add: dents_def)
next
  case (Cons b bs)
  show ?case
  proof (cases "b = 0")
    case True
    then show ?thesis using Cons.prems by (simp add: dents_def)
  next
    case False
    then have b: "data_blk b" "dirbuf_ok (D b)" using Cons.prems(2) by (simp_all add: dir_blocks_def)
    let ?f = "List.find (\<lambda>e. de_inum1 (D b) e \<noteq> 0 \<and> ent_name (D b) e = name) [0..<16]"
    have f: "find_entry name (D b) 16 0 = Some ?f" using find_entry_find [OF b(2) assms(3), of 0 16] by simp
    have d: "dents D (takeWhile (\<lambda>b. b \<noteq> 0) (b # bs)) = live (D b) @ dents D (takeWhile (\<lambda>b. b \<noteq> 0) bs)"
      using False by (simp add: dents_def)
    have i: "inum_of (de_inum1 (D b) e) = Some (int (unat (de_inum1 (D b) e) - 1))" if "?f = Some e" for e
    proof -
      have e: "e < 16" "de_inum1 (D b) e \<noteq> 0" using that by (auto simp: find_Some_iff)
      then have "unat (de_inum1 (D b) e) \<le> 64" "unat (de_inum1 (D b) e) \<noteq> 0"
        using b(2) by (auto simp: dirbuf_ok_def unat_eq_0)
      then show ?thesis by (simp add: inum_of_small)
    qed
    have "wp (dir_lookup_loop st name bs s') (\<lambda>(r, s'). at D s'
      \<and> r = (case map_of (dents D (takeWhile (\<lambda>b. b \<noteq> 0) bs)) name of Some k \<Rightarrow> int k | None \<Rightarrow> - 1))"
      if "at D s'" for s' using Cons.IH [OF that] Cons.prems(2) False by (simp add: dir_blocks_def)
    then show ?thesis using False
      by (auto intro!: wp_bind [OF read_wp [OF Cons.prems(1) data_blk_lt(1) [OF b(1)]]] elim: wp_mono
          simp: f d i map_add_def map_of_entries_in simp del: takeWhile.simps split: option.splits)
  qed
qed

lemma dir_lookup_wp:
  assumes "at D s" and "i < 64" and "inode_ok D (d_inode D i)" and "0 \<notin> set name"
  shows "wp (dir_lookup st (int i) name s) (\<lambda>(r, s'). at D s' \<and> r = (case node D i of
      Some (Dir es) \<Rightarrow> (case map_of es name of Some k \<Rightarrow> int k | None \<Rightarrow> - 1) | _ \<Rightarrow> - 1))"
proof (cases "itype (d_inode D i) = 2")
  case True
  then have "dir_blocks D (takeWhile (\<lambda>b. b \<noteq> 0) (iblocks (d_inode D i)))"
    using assms(3) by (auto simp: inode_ok_def dir_blocks_def own_def)
  from dir_lookup_loop_wp [OF _ this assms(4)] True show ?thesis
    unfolding dir_lookup_def by (intro wp_bind [OF read_inode_wp [OF assms(1,2)]]) (auto simp: node_of_def own_def)
next
  case False
  then show ?thesis unfolding dir_lookup_def
    by (intro wp_bind [OF read_inode_wp [OF assms(1,2)]]) (auto simp: node_of_def)
qed

lemma free_entry_Some:
  "free_entry buf 16 0 = Some e \<Longrightarrow> e < 16 \<and> entry buf e = None"
  unfolding free_entry_find by (auto simp: find_Some_iff entry_def)

lemma dir_add_reuse_wp:
  assumes "at D s" and "dir_blocks D (takeWhile (\<lambda>b. b \<noteq> 0) bs)" and "distinct (takeWhile (\<lambda>b. b \<noteq> 0) bs)"
    and "c < 64" and "0 \<notin> set name"
  shows "wp (dir_add_reuse st name (int c) bs s) (\<lambda>(f, s'). \<exists>D'. at D' s'
    \<and> (if f then dir_ins D (takeWhile (\<lambda>b. b \<noteq> 0) bs) (take 27 name, c) D'
        else D' = D \<and> length (dents D (takeWhile (\<lambda>b. b \<noteq> 0) bs)) = 16 * length (takeWhile (\<lambda>b. b \<noteq> 0) bs)))"
  using assms(1-3)
proof (induction bs arbitrary: s)
  case (Cons b bs)
  let ?w = "\<lambda>bs. takeWhile (\<lambda>b. b \<noteq> (0 :: u32)) bs"
  show ?case
  proof (cases "b = 0")
    case True
    then show ?thesis using Cons.prems(1) by simp
  next
    case False
    then have b: "data_blk b" "dirbuf_ok (D b)" "b \<notin> set (?w bs)" and l: "length (D b) = 512"
      using Cons.prems(2,3) by (simp_all add: dir_blocks_def dirbuf_ok_def)
    have r: "wp (read_block st b s) (\<lambda>(x, s'). x = D b \<and> at D s')" by (rule read_wp [OF Cons.prems(1) data_blk_lt(1) [OF b(1)]])
    show ?thesis
    proof (cases "free_entry (D b) 16 0")
      case (Some e)
      note e = free_entry_Some [OF Some]
      let ?x = "set_dirent e (int c) name (D b)"
      have x: "dirbuf_ok ?x" using b(2) e assms(4) by (simp add: set_dirent_ok)
      obtain xs ys where "live (D b) = xs @ ys" "live ?x = xs @ (take 27 name, c) # ys"
        using live_insert [of e "D b" ?x "(take 27 name, c)"] e l assms(4,5) by (auto simp: set_dirent_entry)
      then have d: "dir_ins D (?w (b # bs)) (take 27 name, c) (D(b := ?x))"
        using False dir_ins_hd [OF b(3) x, of D] by simp
      have w: "wp (write_block st b ?x s') (at (D(b := ?x)))" if "at D s'" for s'
        using that x b(1) by (intro write_wp) (auto simp: data_blk_lt dirbuf_ok_def)
      show ?thesis using False Some d by (auto intro!: wp_bind [OF r] wp_bind [OF w] exI [of _ "D(b := ?x)"] simp del: takeWhile.simps)
    next
      case None
      have "wp (dir_add_reuse st name (int c) bs s') (\<lambda>(f, s'). \<exists>D'. at D' s'
        \<and> (if f then dir_ins D (?w (b # bs)) (take 27 name, c) D'
            else D' = D \<and> length (dents D (?w (b # bs))) = 16 * length (?w (b # bs))))" if "at D s'" for s'
        by (rule wp_mono [OF Cons.IH [OF that]])
          (use Cons.prems False b(3) free_entry_None [OF None] in \<open>auto simp: dir_blocks_def dir_ins_Cons split: if_splits\<close>)
      then show ?thesis using False None by (auto intro!: wp_bind [OF r] simp del: takeWhile.simps split del: if_split)
    qed
  qed
qed simp

lemma dir_add_grow_skip:
  "b \<le> m \<Longrightarrow> m \<le> 14 \<Longrightarrow> b + k = 14 \<Longrightarrow> \<forall>j. b \<le> j \<and> j < m \<longrightarrow> iblocks d ! j \<noteq> 0 \<Longrightarrow>
     dir_add_grow st dir name child d k b s = dir_add_grow st dir name child d (14 - m) m s"
proof (induction k arbitrary: b)
  case (Suc k)
  show ?case
  proof (cases "b = m")
    case True
    then have "14 - m = Suc k" using Suc.prems by simp
    with True show ?thesis by simp
  next
    case False
    then show ?thesis using Suc.IH [of "Suc b"] Suc.prems by simp
  qed
qed simp

text \<open>Adding an entry to a directory: it fails only when no block is left for it.\<close>

lemma dir_inode:
  assumes "fs_ok D" and "i < 64" and "node D i = Some (Dir es)"
  shows "itype (d_inode D i) = 2" and "dents D (owned D i) = es" and "dir_blocks D (owned D i)"
    and "distinct (owned D i)" and "length (owned D i) \<le> 14"
    and "iblocks (d_inode D i) = owned D i @ replicate (14 - length (owned D i)) 0" and "distinct (map fst es)"
  using assms(3) fs_okD(2) [OF assms(1,2)]
  by (auto simp: node_of_def inode_ok_def dir_blocks_def split: if_splits)

lemma dir_update:
  assumes ok: "fs_ok D" and i: "i < 64" and t: "itype (d_inode D i) = 2"
    and b: "b \<in> set (owned D i)" and D': "D' = D(b := buf)" and buf: "dirbuf_ok buf"
    and d: "distinct (map fst (dents D' (owned D i)))"
  shows "fs_ok D'" and "others i D D'" and "node D' i = Some (Dir (dents D' (owned D i)))" and "chg {} {b} D D'"
proof -
  have b': "data_blk b" by (rule owned_data [OF ok i b])
  have l: "length buf = 512" using buf by (simp add: dirbuf_ok_def)
  note c = data_chg [OF fs_okD(1) [OF ok] b' l, folded D']
  have n: "inode_ok D' (d_inode D' i)"
    using fs_okD(2) [OF ok i] t buf d by (auto simp: inode_ok_def c(3) [OF i]) (simp add: D')
  have "chg {i} {b} D D'" using c(1) by (rule chg_mono) auto
  moreover have "{b} \<inter> set (owned D j) = {}" "set (owned D' i) \<inter> set (owned D j) = {}" if "j < 64" "j \<noteq> i" for j
    using fs_okD(3) [OF ok i that(1)] that(2) b by (auto simp: c(3) [OF i])
  moreover have "used D' = used D - bidx ` set (owned D i) \<union> bidx ` set (owned D' i)"
    using c(2) owned_used [OF ok i] by (auto simp: c(3) [OF i])
  ultimately show "fs_ok D'" and "others i D D'"
    unfolding others_def using fs_ok_step [OF ok i _ _ _ n, of "{b}"] by blast+
  show "node D' i = Some (Dir (dents D' (owned D i)))" by (simp add: node_of_def c(3) [OF i] t)
  show "chg {} {b} D D'" by (rule c(1))
qed

lemma dir_grow:
  assumes ok: "fs_ok D" and i: "i < 64" and n: "node D i = Some (Dir es)" and m: "length (owned D i) < 14"
    and nb: "data_blk nb" "bidx nb \<notin> used D" and D1: "chg {} {nb} D D1" "used D1 = insert (bidx nb) (used D)"
    and d': "d' = (d_inode D i)\<lparr>iblocks := (iblocks (d_inode D i))[length (owned D i) := nb], isize := z\<rparr>"
    and D3: "D3 = (put_inode i d' D1)(nb := buf)" and buf: "dirbuf_ok buf" "live buf = [x]" "fst x \<notin> fst ` set es"
  shows "fs_ok D3 \<and> others i D D3 \<and> node D3 i = Some (Dir (es @ [x])) \<and> D3 0 = D 0"
proof -
  note dd = dir_inode [OF ok i n]
  let ?o = "owned D i"
  have k1: "disk_ok D1" using D1(1) by (simp add: chg_def)
  have l: "length buf = 512" using buf(1) by (simp add: dirbuf_ok_def)
  have ib: "iblocks d' = (?o @ [nb]) @ replicate (14 - Suc (length ?o)) 0"
    unfolding d' using list_update_pad [OF refl m, where z = 0 and y = nb] dd(6) by simp
  have o': "own d' = ?o @ [nb]"
    using ib own_nonzero [of "d_inode D i"] nb(1) by (intro own_padded) (auto simp: data_blk_lt)
  have il: "length (iblocks d') = 14" by (simp add: d')
  note p = inode_chg [OF k1 i il]
  have k2: "disk_ok (put_inode i d' D1)" using p(1) by (simp add: chg_def)
  note q = data_chg [OF k2 nb(1) l, folded D3]
  have c: "chg {i} {nb} D D3" using chg_trans [OF chg_trans [OF D1(1) p(1)] q(1)] by (rule chg_mono) auto
  have i3: "d_inode D3 i = d'" using q(3) [OF i] d_inode_put [OF k1 i i il] by simp
  have u: "used D3 = insert (bidx nb) (used D)" using q(2) p(2) D1(2) by simp
  have nw: "nb \<notin> set (owned D j)" if "j < 64" for j using owned_used [OF ok that] nb(2) by auto
  have e: "dents D3 (?o @ [nb]) = es @ [x]"
  proof -
    have "dents D3 ?o = dents D ?o"
      using c owned_data [OF ok i] nw [OF i] by (intro dents_cong) (auto simp: chg_def)
    then show ?thesis using dd(2) buf(2) by (simp add: D3)
  qed
  have "\<forall>b \<in> set ?o. D3 b = D b" using c owned_data [OF ok i] nw [OF i] by (auto simp: chg_def)
  then have "\<forall>b \<in> set (?o @ [nb]). dirbuf_ok (D3 b)" using dd(3) buf(1) by (auto simp: dir_blocks_def D3)
  then have n3: "inode_ok D3 (d_inode D3 i)"
    using ib o' m dd(1,3,4,7) nb(1) nw [OF i] e buf(3) unfolding i3
    by (auto simp: inode_ok_def dir_blocks_def d' image_iff)
  have "{nb} \<inter> set (owned D j) = {}" "set (owned D3 i) \<inter> set (owned D j) = {}" if "j < 64" "j \<noteq> i" for j
    using fs_okD(3) [OF ok i that(1)] that(2) nw [OF that(1)] by (auto simp: i3 o')
  moreover have "used D3 = used D - bidx ` set ?o \<union> bidx ` set (owned D3 i)"
    unfolding u i3 o' using owned_used [OF ok i] by auto
  ultimately have "fs_ok D3" "others i D D3"
    unfolding others_def using fs_ok_step [OF ok i c _ _ n3] by blast+
  moreover have "node D3 i = Some (Dir (es @ [x]))" using dd(1) unfolding node_of_def i3 o' e by (simp add: d')
  ultimately show ?thesis using c by (simp add: chg_def)
qed

lemma dir_add_wp:
  assumes s: "at D s" and ok: "fs_ok D" and i: "i < 64" and n: "node D i = Some (Dir es)"
    and c: "c < 64" and nm: "0 \<notin> set name" "take 27 name \<notin> fst ` set es"
  shows "wp (dir_add st (int i) name (int c) s) (\<lambda>(r, s'). \<exists>D'. at D' s' \<and> fs_ok D' \<and> others i D D' \<and> D' 0 = D 0
    \<and> (r = - 1 \<and> D' = D \<and> dir_full D i
       \<or> r = 0 \<and> \<not> dir_full D i \<and> (\<exists>xs ys. es = xs @ ys \<and> node D' i = Some (Dir (xs @ (take 27 name, c) # ys)))))"
    (is "wp _ ?P")
proof -
  note dd = dir_inode [OF ok i n]
  let ?d = "d_inode D i" and ?m = "length (owned D i)"
  have full: "?P (- 1, s')" if "at D s'" "dir_full D i" for s'
    using that ok by (auto simp: others_def)
  have grow: "wp (dir_add_grow st (int i) name (int c) ?d 14 0 s') ?P" if "at D s'" "length es = 16 * ?m" for s'
  proof -
    note at = that(1)
    have fl: "dir_full D i \<longleftrightarrow> disk_full D \<or> ?m = 14" using that(2) by (simp add: dir_full_def dd(2))
    have sk: "dir_add_grow st (int i) name (int c) ?d 14 0 s' = dir_add_grow st (int i) name (int c) ?d (14 - ?m) ?m s'"
      using own_nth [of _ ?d] dd(5) by (intro dir_add_grow_skip) auto
    show ?thesis
    proof (cases "?m = 14")
      case True
      then show ?thesis using at full fl unfolding sk by simp
    next
      case False
      then have m: "?m < 14" using dd(5) by simp
      then obtain k where k: "14 - ?m = Suc k" by (metis Suc_diff_Suc)
      have z: "iblocks ?d ! ?m = 0" using m by (subst dd(6)) (simp add: nth_append)
      have body: "wp (if nb = 0 then Some (- 1, s1) else do {
          let d = ?d\<lparr>iblocks := (iblocks ?d)[?m := nb], isize := isize ?d + of_nat BLOCK_SIZE\<rparr>;
          s \<leftarrow> write_inode st (int i) d s1;
          s \<leftarrow> write_block st nb (set_dirent 0 (int c) name (replicate BLOCK_SIZE 0)) s;
          Some (0, s)
        }) ?P" if "\<exists>D1. at D1 s1 \<and> (nb = 0 \<and> D1 = D \<and> disk_full D
             \<or> nb \<noteq> 0 \<and> data_blk nb \<and> bidx nb \<notin> used D \<and> used D1 = insert (bidx nb) (used D)
               \<and> D1 nb = replicate 512 0 \<and> chg {} {nb} D D1)" for nb s1
      proof -
        let ?d' = "?d\<lparr>iblocks := (iblocks ?d)[?m := nb], isize := isize ?d + 512\<rparr>"
        let ?x = "set_dirent 0 (int c) name (replicate 512 0)"
        from that obtain D1 where D1: "at D1 s1" "nb = 0 \<and> D1 = D \<and> disk_full D
             \<or> nb \<noteq> 0 \<and> data_blk nb \<and> bidx nb \<notin> used D \<and> used D1 = insert (bidx nb) (used D) \<and> chg {} {nb} D D1" by blast
        have x: "dirbuf_ok ?x" using c by (intro set_dirent_ok dirbuf_ok_zero) auto
        note lv = live_first [OF c nm(1)]
        show ?thesis
        proof (cases "nb = 0")
          case True
          then show ?thesis using D1 full fl by auto
        next
          case False
          then have nb: "data_blk nb" "bidx nb \<notin> used D" "used D1 = insert (bidx nb) (used D)" "chg {} {nb} D D1"
            using D1(2) by auto
          define D3 where "D3 = (put_inode i ?d' D1)(nb := ?x)"
          have w1: "wp (write_inode st (int i) ?d' s1) (at (put_inode i ?d' D1))"
            by (rule write_inode_wp [OF D1(1) i]) simp
          have w2: "wp (write_block st nb ?x s2) (at D3)" if "at (put_inode i ?d' D1) s2" for s2
            using that nb(1) x unfolding D3_def by (intro write_wp) (auto simp: data_blk_lt dirbuf_ok_def)
          have g: "fs_ok D3 \<and> others i D D3 \<and> node D3 i = Some (Dir (es @ [(take 27 name, c)])) \<and> D3 0 = D 0"
            using dir_grow [OF ok i n m nb(1,2,4,3) refl D3_def x lv] nm(2) by simp
          then have "\<exists>xs ys. es = xs @ ys \<and> node D3 i = Some (Dir (xs @ (take 27 name, c) # ys))"
            by (intro exI [of _ es] exI [of _ "[]"]) simp
          moreover have "\<not> dir_full D i" using m fl nb(1,2) not_disk_full [of nb D] by simp
          ultimately have "?P (0, s3)" if "at D3 s3" for s3 using that g by blast
          then show ?thesis using False by (auto intro!: wp_bind [OF w1] wp_bind [OF w2] simp: Let_def)
        qed
      qed
      show ?thesis unfolding sk k dir_add_grow.simps z simp_thms if_True
      proof (rule wp_bind [OF alloc_block_wp [OF at]], goal_cases)
        case (1 x)
        then show ?case using body [of "snd x" "fst x"] by (cases x) (simp only: prod.case fst_conv snd_conv)
      qed
    qed
  qed
  have reuse: "?P (0, s')" if "at D' s'" "dir_ins D (owned D i) (take 27 name, c) D'" for D' s'
  proof -
    from that(2) obtain b buf xs ys where h: "b \<in> set (owned D i)" "D' = D(b := buf)" "dirbuf_ok buf"
      "dents D (owned D i) = xs @ ys" "dents D' (owned D i) = xs @ (take 27 name, c) # ys" unfolding dir_ins_def by blast
    have "distinct (map fst (dents D' (owned D i)))" using h(4,5) dd(2,7) nm(2) by auto
    note u = dir_update [OF ok i dd(1) h(1-3) this]
    then show ?thesis using that(1) h(4,5) dd(2) dir_ins_not_full [OF that(2)] by (auto simp: chg_def)
  qed
  show ?thesis unfolding dir_add_def
  proof (rule wp_bind [OF read_inode_wp [OF s i]], clarify)
    fix s1 assume s1: "at D s1"
    have w: "wp (dir_add_reuse st name (int c) (iblocks ?d) s1) (\<lambda>(f, s'). \<exists>D'. at D' s'
      \<and> (if f then dir_ins D (owned D i) (take 27 name, c) D'
          else D' = D \<and> length (dents D (owned D i)) = 16 * length (owned D i)))"
      using dir_add_reuse_wp [OF s1, of "iblocks ?d" c name] dd(3,4) c nm(1) unfolding own_def by blast
    show "wp (dir_add_reuse st name (int c) (iblocks ?d) s1 \<bind> (\<lambda>(found, s).
        if found then Some (0, s) else dir_add_grow st (int i) name (int c) ?d DIRECT 0 s)) ?P"
      by (rule wp_bind [OF w]) (use reuse grow dd(2) in \<open>auto split: if_splits\<close>)
  qed
qed

end

end
