(* ===== verification/Sfs_Files.thy ===== *)
theory Sfs_Files
  imports Sfs_Ops
begin

text \<open>
  Reading and writing files: \<open>sfs_write\<close> replaces the contents of one file and touches no other node,
  \<open>sfs_read\<close> returns them.
\<close>

context sfs_store
begin

section \<open>Reading\<close>

lemma length_file_bytes: "(\<And>b. b \<in> set bs \<Longrightarrow> length (D b) = 512) \<Longrightarrow> length (file_bytes D bs) = 512 * length bs"
  by (induction bs) (auto simp: file_bytes_def)

lemma file_bytes_simps [simp]: "file_bytes D [] = []" "file_bytes D (b # bs) = D b @ file_bytes D bs"
  by (simp_all add: file_bytes_def)

lemma chunk_cases:
  fixes len dn :: u32
  assumes "dn < len" and "chunk = (if len - dn > 512 then 512 else len - dn)"
  shows "unat chunk = min 512 (unat len - unat dn)" and "unat (dn + chunk) = unat dn + unat chunk"
    and "unat dn < unat len"
proof -
  show d: "unat dn < unat len" using assms(1) by (simp add: word_less_nat_alt)
  have u: "unat (len - dn) = unat len - unat dn" using assms(1) by (simp add: unat_sub)
  then show c: "unat chunk = min 512 (unat len - unat dn)" using assms(2) by (simp add: word_less_nat_alt min_def)
  have "unat dn + unat chunk \<le> unat len" using c d by simp
  then have "unat dn + unat chunk < 4294967296" by (rule le_less_trans [OF _ unat_u32_lt])
  then show "unat (dn + chunk) = unat dn + unat chunk" by (simp add: unat_word_ariths)
qed

lemma sfs_read_loop_wp:
  assumes "at D s" and "\<forall>b \<in> set (takeWhile (\<lambda>b. b \<noteq> 0) bs). data_blk b"
    and "unat len \<le> unat dn + 512 * length (takeWhile (\<lambda>b. b \<noteq> 0) bs)" and "dn \<le> len" and "length out = unat dn"
  shows "wp (sfs_read_loop st len bs dn out s) (\<lambda>((n, out'), s'). at D s' \<and> n = len
    \<and> out' = out @ take (unat len - unat dn) (file_bytes D (takeWhile (\<lambda>b. b \<noteq> 0) bs)))"
  using assms
proof (induction bs arbitrary: dn out s)
  case Nil
  then have "dn = len" by (simp add: word_le_nat_alt word_unat_eq_iff)
  then show ?case using Nil by simp
next
  case (Cons b bs)
  show ?case
  proof (cases "dn < len \<and> b \<noteq> 0")
    case True
    define chunk where "chunk = (if len - dn > 512 then 512 else len - dn)"
    note c = chunk_cases [OF conjunct1 [OF True] chunk_def]
    have b: "data_blk b" using Cons.prems(2) True by simp
    have l: "length (D b) = 512" using at_disk_ok [OF Cons.prems(1)] b by (simp add: disk_okD data_blk_lt)
    have "wp (sfs_read_loop st len bs (dn + chunk) (out @ take (unat chunk) (D b)) s') (\<lambda>((n, out'), s'). at D s' \<and> n = len
      \<and> out' = out @ take (unat chunk) (D b) @ take (unat len - unat (dn + chunk)) (file_bytes D (takeWhile (\<lambda>b. b \<noteq> 0) bs)))"
      if "at D s'" for s'
      by (rule wp_mono [OF Cons.IH [OF that]]) (use Cons.prems True c l in \<open>auto simp: word_le_nat_alt\<close>)
    moreover have "take (unat chunk) (D b) @ take (unat len - unat (dn + chunk)) fs = take (unat len - unat dn) (D b @ fs)" for fs
      using c l by (cases "512 < unat len - unat dn") (auto simp: min_def)
    moreover have "sfs_read_loop st len (b # bs) dn out s = do { (buf, s) \<leftarrow> read_block st b s;
        sfs_read_loop st len bs (dn + chunk) (out @ take (unat chunk) buf) s }"
      using True by (simp add: chunk_def Let_def)
    ultimately show ?thesis using True
      by (auto intro!: wp_bind [OF read_wp [OF Cons.prems(1) data_blk_lt(1) [OF b]]])
  next
    case False
    then have "dn = len" using Cons.prems(3,4) by (cases "b = 0") (auto simp: word_le_nat_alt word_less_nat_alt word_unat_eq_iff)
    then show ?thesis using Cons.prems by simp
  qed
qed

lemma sfs_read_wp:
  assumes "at D s" and "fs_ok D" and "i < 64" and "node D i = Some (File bs)"
  shows "wp (sfs_read st (int i) mx s) (\<lambda>((r, out), s'). at D s' \<and> out = take (unat mx) bs \<and> r = int (length out))"
proof -
  let ?n = "d_inode D i" and ?o = "owned D i"
  have o: "takeWhile (\<lambda>b. b \<noteq> 0) (iblocks ?n) = ?o" by (simp add: own_def)
  have n: "unat (isize ?n) \<le> 512 * length ?o" "length ?o \<le> 14" "bs = take (unat (isize ?n)) (file_bytes D ?o)"
    using assms(4) fs_okD(2) [OF assms(2,3)] by (auto simp: node_of_def inode_ok_def split: if_splits)
  have l: "length (file_bytes D ?o) = 512 * length ?o"
    using fs_okD(1) [OF assms(2)] owned_data [OF assms(2,3)] by (intro length_file_bytes) (simp add: disk_okD data_blk_lt)
  define len where "len = (if isize ?n > mx then mx else isize ?n)"
  have len: "unat len = min (unat mx) (unat (isize ?n))" by (simp add: len_def word_less_nat_alt min_def)
  have out: "take (unat len) (file_bytes D ?o) = take (unat mx) bs" "length (take (unat mx) bs) = unat len"
    using n l by (simp_all add: len min.commute)
  have r: "sint len = int (unat len)" using n len by (intro sint_small) simp
  have w: "wp (sfs_read_loop st len (iblocks ?n) 0 [] s') (\<lambda>((n, out), s'). at D s' \<and> n = len \<and> out = take (unat mx) bs)"
    if "at D s'" for s'
    by (rule wp_mono [OF sfs_read_loop_wp [OF that]]) (use o owned_data [OF assms(2,3)] n len out in auto)
  show ?thesis unfolding sfs_read_def
    using r out(2) by (auto intro!: wp_bind [OF read_inode_wp [OF assms(1,3)]] wp_bind [OF w] simp: Let_def simp flip: len_def)
qed

section \<open>Writing\<close>

lemma take_drop_split: "k \<le> n \<Longrightarrow> take n (drop m xs) = take k (drop m xs) @ take (n - k) (drop (m + k) xs)"
  by (metis add.commute drop_drop le_add_diff_inverse take_add)

text \<open>The loop: the blocks it allocates were free, they hold the bytes written so far, and it stops
  early only when the disk is full.\<close>

definition written_post :: "disk \<Rightarrow> u8 list \<Rightarrow> nat \<Rightarrow> nat \<Rightarrow> nat \<Rightarrow> u32 list \<Rightarrow> disk \<Rightarrow> bool" where
  "written_post D data from len w new D' \<longleftrightarrow> from \<le> w \<and> w \<le> len \<and> distinct new \<and> (\<forall>b \<in> set new. data_blk b)
     \<and> bidx ` set new \<inter> used D = {} \<and> used D' = used D \<union> bidx ` set new \<and> chg {} (set new) D D'
     \<and> w - from \<le> 512 * length new \<and> 512 * length new < w - from + 512
     \<and> take (w - from) (file_bytes D' new) = take (w - from) (drop from data)
     \<and> (w < len \<longrightarrow> disk_full D')"

lemma written_post_nil:
  "disk_ok D \<Longrightarrow> w \<le> len \<Longrightarrow> (w < len \<Longrightarrow> disk_full D) \<Longrightarrow> written_post D data w len w [] D"
  by (simp add: written_post_def chg_refl)

lemma written_post_Cons:
  assumes D1: "data_blk nb" "bidx nb \<notin> used D" "used D1 = insert (bidx nb) (used D)" "chg {} {nb} D D1"
    and D2: "D2 = D1(nb := x)" and x: "length x = 512" "take c x = take c (drop from data)" "c = min 512 (len - from)" "from < len"
    and p: "written_post D2 data (from + c) len w new D'"
  shows "written_post D data from len w (nb # new) D'"
proof -
  note q = p [unfolded written_post_def]
  have k: "disk_ok D1" using D1(4) by (simp add: chg_def)
  note u = data_chg [OF k D1(1) x(1), folded D2]
  have nn: "nb \<notin> set new" using q D1(3) u(2) by auto
  have D'nb: "D' nb = x" using q nn D1(1) by (auto simp: chg_def D2)
  have "chg ({} \<union> {} \<union> {}) ({nb} \<union> {nb} \<union> set new) D D'" using D1(4) u(1) q by (blast intro: chg_trans)
  then have c: "chg {} (set (nb # new)) D D'" by simp
  have "take (w - from) (x @ file_bytes D' new) = take (w - from) (drop from data)"
  proof -
    have w: "from + c \<le> w" using q by simp
    have "take (w - from) (x @ fs) = take c x @ take (w - from - c) fs" if "w - from - c = 0 \<or> c = 512" for fs
      using that w x(1,3) by (auto simp: min_def)
    moreover have "w - from - c = 0 \<or> c = 512" using q x(3) by (auto simp: min_def)
    moreover have "take (w - from - c) (file_bytes D' new) = take (w - from - c) (drop (from + c) data)"
      using q by (simp add: diff_diff_eq)
    moreover have "take (w - from) (drop from data) = take c (drop from data) @ take (w - from - c) (drop (from + c) data)"
      using w by (intro take_drop_split) simp
    ultimately show ?thesis using x(2) by simp
  qed
  then have t: "take (w - from) (file_bytes D' (nb # new)) = take (w - from) (drop from data)" using D'nb by simp
  have U: "used D2 = insert (bidx nb) (used D)" using u(2) D1(3) by simp
  have a: "from + c \<le> w" "w \<le> len" "w - (from + c) \<le> 512 * length new" "512 * length new < w - (from + c) + 512"
    "w < len \<longrightarrow> disk_full D'" using q by auto
  have d: "distinct (nb # new)" "\<forall>b \<in> set (nb # new). data_blk b" using q nn D1(1) by auto
  have b: "bidx ` set (nb # new) \<inter> used D = {}" "used D' = used D \<union> bidx ` set (nb # new)"
    using q D1(2) U by auto
  have "new = []" if "c < 512"
  proof -
    have "w = from + c" using that a(1,2) x(3) by (simp add: min_def split: if_splits)
    then show ?thesis using a(4) by simp
  qed
  then have "w - from \<le> 512 * length (nb # new)" "512 * length (nb # new) < w - from + 512"
    using a(1,3,4) x(3,4) by (cases "c < 512"; simp add: min_def split: if_splits)+
  with a t d b c show ?thesis by (simp add: written_post_def)
qed

lemma sfs_write_loop_wp:
  assumes "at D s" and "unat len \<le> 7168" and "unat len \<le> length data"
    and "unat written = min (512 * length cur) (unat len)" and "length cur \<le> 14"
  shows "wp (sfs_write_loop st data len written (length cur) (cur @ replicate (14 - length cur) 0) s)
    (\<lambda>((w, bs), s'). \<exists>D' new. at D' s' \<and> length cur + length new \<le> 14
      \<and> bs = (cur @ new) @ replicate (14 - length (cur @ new)) 0
      \<and> written_post D data (unat written) (unat len) (unat w) new D')"
  using assms
proof (induction "unat len - unat written" arbitrary: D s written cur rule: less_induct)
  case less
  let ?bs = "cur @ replicate (14 - length cur) 0" and ?m = "length cur"
  show ?case
  proof (cases "written < len")
    case False
    then have "written_post D data (unat written) (unat len) (unat written) [] D"
      using less.prems(4) at_disk_ok [OF less.prems(1)] by (intro written_post_nil) (auto simp: word_less_nat_alt)
    then show ?thesis using False less.prems(1,5) by (subst sfs_write_loop.simps) (auto intro!: exI [of _ D] exI [of _ "[]"])
  next
    case True
    define chunk where "chunk = (if len - written > 512 then 512 else len - written)"
    note c = chunk_cases [OF True chunk_def]
    have m: "?m < 14" "unat written = 512 * ?m" using c(3) less.prems(2,4) by auto
    let ?x = "put_at 0 (take (unat chunk) (drop (unat written) data)) (replicate 512 0)"
    have lc: "length (take (unat chunk) (drop (unat written) data)) = unat chunk" "unat chunk \<le> 512"
      using c less.prems(3) by auto
    have x: "length ?x = 512" "take (unat chunk) ?x = take (unat chunk) (drop (unat written) data)"
      using lc take_drop_put_at_same [of 0 "take (unat chunk) (drop (unat written) data)" "replicate 512 0"] by auto
    have g: "unat written + unat chunk \<le> length data" using c(1,3) less.prems(3) by linarith
    have e: "sfs_write_loop st data len written ?m ?bs s = do {
        (nb, s) \<leftarrow> alloc_block st s;
        if nb = 0 then Some ((written, ?bs), s)
        else do { s \<leftarrow> write_block st nb ?x s; sfs_write_loop st data len (written + chunk) (Suc ?m) (?bs[?m := nb]) s } }"
      using True m(1) g by (subst sfs_write_loop.simps) (simp add: Let_def chunk_def [symmetric] cong: if_cong)
    show ?thesis unfolding e
    proof (rule wp_bind [OF alloc_block_wp [OF less.prems(1)]], clarify)
      fix nb s1 D1
      assume s1: "at D1 s1" and nb: "nb = 0 \<and> D1 = D \<and> disk_full D
        \<or> nb \<noteq> 0 \<and> data_blk nb \<and> bidx nb \<notin> used D \<and> used D1 = insert (bidx nb) (used D)
          \<and> D1 nb = replicate 512 0 \<and> chg {} {nb} D D1"
      let ?P = "\<lambda>((w, bs), s'). \<exists>D' new. at D' s' \<and> ?m + length new \<le> 14
        \<and> bs = (cur @ new) @ replicate (14 - length (cur @ new)) 0
        \<and> written_post D data (unat written) (unat len) (unat w) new D'"
      show "wp (if nb = 0 then Some ((written, ?bs), s1)
        else do { s \<leftarrow> write_block st nb ?x s1; sfs_write_loop st data len (written + chunk) (Suc ?m) (?bs[?m := nb]) s }) ?P"
      proof (cases "nb = 0")
        case True
        then have "written_post D data (unat written) (unat len) (unat written) [] D"
          using nb c(3) at_disk_ok [OF less.prems(1)] by (intro written_post_nil) auto
        moreover have "at D s1" using True nb s1 by auto
        ultimately have "?P ((written, ?bs), s1)"
          using m(1) unfolding prod.case by (intro exI [of _ D] exI [of _ "[]"]) simp
        then show ?thesis using True by simp
      next
        case False
        then have nb': "data_blk nb" "bidx nb \<notin> used D" "used D1 = insert (bidx nb) (used D)" "chg {} {nb} D D1" using nb by auto
        have b: "?bs[?m := nb] = (cur @ [nb]) @ replicate (14 - length (cur @ [nb])) 0"
          using list_update_pad [OF refl m(1), where z = 0 and y = nb] by simp
        have w: "wp (write_block st nb ?x s1) (at (D1(nb := ?x)))"
          using x(1) nb'(1) by (intro write_wp [OF s1]) (auto simp: data_blk_lt)
        have "wp (sfs_write_loop st data len (written + chunk) (length (cur @ [nb])) ((cur @ [nb]) @ replicate (14 - length (cur @ [nb])) 0) s2) ?P"
          if s2: "at (D1(nb := ?x)) s2" for s2
        proof (rule wp_mono [OF less.hyps [OF _ s2]], goal_cases)
          case (6 y)
          then obtain w bs s' D' new where y: "y = ((w, bs), s')" "at D' s'" "length (cur @ [nb]) + length new \<le> 14"
            "bs = ((cur @ [nb]) @ new) @ replicate (14 - length ((cur @ [nb]) @ new)) 0"
            "written_post (D1(nb := ?x)) data (unat (written + chunk)) (unat len) (unat w) new D'" by (auto simp del: append_assoc)
          have "written_post D data (unat written) (unat len) (unat w) (nb # new) D'"
            by (rule written_post_Cons [OF nb' refl x]) (use y(5) c in auto)
          with y show ?case by (auto intro!: exI [of _ D'] exI [of _ "nb # new"])
        qed (use c m less.prems in auto)
        then show ?thesis using False unfolding b by (simp add: wp_bind [OF w])
      qed
    qed
  qed
qed

lemma write_disk:
  assumes ok: "fs_ok D" and i: "i < 64" and t: "itype (d_inode D i) = 1"
    and D1: "used D1 = used D - bidx ` set (owned D i)" "chg {} {} D D1"
    and w: "written_post D1 data 0 len w new D2" "length new \<le> 14" "w \<le> 7168"
    and n': "n' = (d_inode D i)\<lparr>iblocks := new @ replicate (14 - length new) 0, isize := word_of_nat w\<rparr>"
    and D3: "D3 = put_inode i n' D2"
  shows "fs_ok D3" and "others i D D3" and "node D3 i = Some (File (take w data))" and "D3 0 = D 0"
proof -
  note q = w(1) [unfolded written_post_def]
  have k2: "disk_ok D2" using q by (simp add: chg_def)
  have il: "length (iblocks n') = 14" using w(2) by (simp add: n')
  note p = inode_chg [OF k2 i il, folded D3]
  have "chg ({} \<union> {} \<union> {i}) ({} \<union> set new \<union> {}) D D3" using D1(2) q p(1) by (blast intro: chg_trans)
  then have c: "chg {i} (set new) D D3" by simp
  have i3: "d_inode D3 i = n'" using d_inode_put [OF k2 i i il] by (simp add: D3)
  have "\<not> data_blk 0" by (simp add: data_blk_def)
  then have "0 \<notin> set new" using q by blast
  then have o': "own n' = new" by (intro own_padded [of _ _ "14 - length new"]) (simp_all add: n')
  have sz: "unat (isize n') = w" using w(3) by (simp add: n' unat_of_nat_u32)
  have n3: "inode_ok D3 (d_inode D3 i)" unfolding i3 inode_ok_def o' sz using q w(2) t by (auto simp: n')
  have fr: "b \<notin> set new" if "j < 64" "j \<noteq> i" "b \<in> set (owned D j)" for j b
  proof -
    have "bidx b \<notin> bidx ` set (owned D i)"
      using fs_okD(3) [OF ok i that(1)] that owned_data [OF ok i] owned_data [OF ok that(1,3)] by (force simp: data_blk_inj)
    then have "bidx b \<in> used D1" using owned_used [OF ok that(1,3)] D1(1) by simp
    then show ?thesis using q by auto
  qed
  have "set new \<inter> set (owned D j) = {}" if "j < 64" "j \<noteq> i" for j using fr [OF that] by auto
  moreover have "used D3 = used D - bidx ` set (owned D i) \<union> bidx ` set (owned D3 i)"
    unfolding p(2) i3 o' using q D1(1) by simp
  ultimately show "fs_ok D3" and "others i D D3"
    unfolding others_def using fs_ok_step [OF ok i c _ _ n3] unfolding i3 o' by blast+
  have "file_bytes D3 new = file_bytes D2 new"
    using p(1) q by (intro file_bytes_cong) (auto simp: chg_def)
  then have "take w (file_bytes D3 new) = take w data" using q by simp
  moreover have "itype n' = 1" using t by (simp add: n')
  ultimately show "node D3 i = Some (File (take w data))" by (simp add: node_of_def i3 o' sz)
  show "D3 0 = D 0" using c by (simp add: chg_def)
qed

lemma sfs_write_wp:
  assumes "at D s" and ok: "fs_ok D" and i: "i < 64" and n: "node D i = Some (File old)" and l: "unat len \<le> length data"
  shows "wp (sfs_write st (int i) data len s) (\<lambda>(r, s'). \<exists>D' w. at D' s' \<and> fs_ok D' \<and> others i D D' \<and> D' 0 = D 0
    \<and> r = int w \<and> w \<le> min (unat len) 7168 \<and> node D' i = Some (File (take w data))
    \<and> (w < min (unat len) 7168 \<longrightarrow> disk_full D'))" (is "wp _ ?P")
proof -
  let ?n = "d_inode D i"
  have t: "itype ?n = 1" and ib: "iblocks ?n = owned D i @ replicate (14 - length (owned D i)) 0"
    using n fs_okD(2) [OF ok i] by (auto simp: node_of_def inode_ok_def split: if_splits)
  have sb: "set (iblocks ?n) - {0} = set (owned D i)" using own_nonzero [of ?n] by (subst ib) auto
  have db: "\<forall>b \<in> set (iblocks ?n). b \<noteq> 0 \<longrightarrow> data_blk b" using sb owned_data [OF ok i] by blast
  define len' where "len' = (if len > 7168 then 7168 else len)"
  have len': "unat len' = min (unat len) 7168" by (simp add: len'_def word_less_nat_alt min_def)
  have len'': "(if word_of_nat (DIRECT * BLOCK_SIZE) < len then word_of_nat (DIRECT * BLOCK_SIZE) else len) = len'"
    by (simp add: len'_def)
  have body: "wp (sfs_write_loop st data len' 0 0 (replicate 14 0) s2 \<bind> (\<lambda>((written, bs), s).
      write_inode st (int i) (?n\<lparr>iblocks := bs, isize := written\<rparr>) s \<bind> (\<lambda>s. Some (sint written, s)))) ?P"
    if D1: "at D1 s2" "used D1 = used D - bidx ` set (owned D i)" "chg {} {} D D1" for D1 s2
  proof -
    have lp: "wp (sfs_write_loop st data len' 0 0 (replicate 14 0) s2) (\<lambda>((w, bs), s'). \<exists>D' new. at D' s' \<and> length new \<le> 14
      \<and> bs = new @ replicate (14 - length new) 0 \<and> written_post D1 data 0 (unat len') (unat w) new D')"
      using sfs_write_loop_wp [OF D1(1), of len' data 0 "[]"] l len' by simp
    show ?thesis
    proof (rule wp_bind [OF lp], clarify)
      fix w :: u32 and bs s3 D2 new
      assume D2: "at D2 s3" "length new \<le> 14" and wpost: "written_post D1 data 0 (unat len') (unat w) new D2"
      define n' where "n' = ?n\<lparr>iblocks := new @ replicate (14 - length new) 0, isize := w\<rparr>"
      have w: "unat w \<le> 7168" "unat w \<le> unat len'" and f: "unat w < unat len' \<longrightarrow> disk_full D2"
        using wpost len' by (auto simp: written_post_def)
      have il: "length (iblocks n') = 14" using D2(2) by (simp add: n'_def)
      have n'': "n' = ?n\<lparr>iblocks := new @ replicate (14 - length new) 0, isize := word_of_nat (unat w)\<rparr>" by (simp add: n'_def)
      note d = write_disk [OF ok i t D1(2,3) wpost D2(2) w(1) n'' refl]
      have u: "disk_full (put_inode i n' D2) = disk_full D2"
        by (rule disk_full_cong) (rule inode_chg(2) [OF at_disk_ok [OF D2(1)] i il])
      have r: "sint w = int (unat w)" using w(1) by (intro sint_small) simp
      have "?P (sint w, s4)" if "at (put_inode i n' D2) s4" for s4
        unfolding prod.case using that d w(2) f r len' u by (intro exI [of _ "put_inode i n' D2"] exI [of _ "unat w"]) simp
      then show "wp (write_inode st (int i) (?n\<lparr>iblocks := new @ replicate (14 - length new) 0, isize := w\<rparr>) s3 \<bind> (\<lambda>s. Some (sint w, s))) ?P"
        unfolding n'_def [symmetric] by (auto intro!: wp_bind [OF write_inode_wp [OF D2(1) i il]])
    qed
  qed
  show ?thesis unfolding sfs_write_def Let_def
  proof (rule wp_bind [OF read_inode_wp [OF assms(1) i]], clarify)
    fix s1 assume s1: "at D s1"
    show "wp (if itype ?n \<noteq> SFS_FILE then Some (- 1, s1) else
      free_blocks st (iblocks ?n) s1 \<bind> (\<lambda>s. sfs_write_loop st data (if word_of_nat (DIRECT * BLOCK_SIZE) < len then word_of_nat (DIRECT * BLOCK_SIZE) else len)
        0 0 (replicate DIRECT 0) s \<bind> (\<lambda>((written, bs), s).
        write_inode st (int i) (?n\<lparr>iblocks := bs, isize := written\<rparr>) s \<bind> (\<lambda>s. Some (sint written, s))))) ?P"
      unfolding t len''
      by simp (rule wp_bind [OF free_blocks_wp [OF s1 db, unfolded sb]], use body in auto)
  qed
qed

end

end
