(* ===== verification/Sfs_Names.thy ===== *)
theory Sfs_Names
  imports Sfs_Files
begin

text \<open>
  The operations on names: removing an entry, listing a directory, \<open>sfs_create\<close>, \<open>sfs_unlink\<close> and
  \<open>format\<close>, each with its effect on the nodes of the abstract file system.
\<close>

context sfs_store
begin

section \<open>Removing an entry\<close>

lemma dir_remove_loop_wp:
  assumes "at D s" and "dir_blocks D (takeWhile (\<lambda>b. b \<noteq> 0) bs)" and "distinct (takeWhile (\<lambda>b. b \<noteq> 0) bs)"
    and "0 \<notin> set name"
  shows "wp (dir_remove_loop st name bs s) (\<lambda>(r, s'). \<exists>D'. at D' s' \<and>
    (r = - 1 \<and> D' = D \<and> name \<notin> fst ` set (dents D (takeWhile (\<lambda>b. b \<noteq> 0) bs))
     \<or> r = 0 \<and> dir_del D (takeWhile (\<lambda>b. b \<noteq> 0) bs) name D'))"
  using assms(1-3)
proof (induction bs arbitrary: s)
  case Nil
  then show ?case by simp
next
  case (Cons b bs)
  let ?w = "\<lambda>bs. takeWhile (\<lambda>b. b \<noteq> (0 :: u32)) bs"
  show ?case
  proof (cases "b = 0")
    case True
    then show ?thesis using Cons.prems(1) by simp
  next
    case False
    then have b: "data_blk b" "dirbuf_ok (D b)" "b \<notin> set (?w bs)" and l: "length (D b) = 512"
      using Cons.prems(2,3) by (simp_all add: dir_blocks_def dirbuf_ok_def)
    have r: "wp (read_block st b s) (\<lambda>(x, s'). x = D b \<and> at D s')" by (rule read_wp [OF Cons.prems(1) data_blk_lt(1) [OF b(1)]])
    let ?f = "List.find (\<lambda>e. de_inum1 (D b) e \<noteq> 0 \<and> ent_name (D b) e = name) [0..<16]"
    have f: "find_entry name (D b) 16 0 = Some ?f" using find_entry_find [OF b(2) assms(4), of 0 16] by simp
    show ?thesis
    proof (cases ?f)
      case (Some e)
      note e = find_upt_SomeD [OF Some]
      let ?x = "put_at (32 * e) (le32 0) (D b)"
      have x: "dirbuf_ok ?x" using b(2) e(1) by (simp add: clear_dirent_ok)
      have n: "name \<notin> fst ` set (entries_in (D b) [0..<e])" using e(3) by (intro entries_in_fresh) auto
      have "entry (D b) e = Some (name, unat (de_inum1 (D b) e) - 1)" using e(2) by (simp add: entry_def)
      from live_delete [OF e(1) this, of ?x] e(1) l
      have "dir_del D (?w (b # bs)) name (D(b := ?x))"
        using False dir_del_hd [OF b(3) x, of D _ name _ _] n by (simp add: clear_dirent_entry)
      moreover have w: "wp (write_block st b ?x s') (at (D(b := ?x)))" if "at D s'" for s'
        using that x b(1) by (intro write_wp) (auto simp: data_blk_lt dirbuf_ok_def)
      ultimately show ?thesis using False Some f
        by (auto intro!: wp_bind [OF r] wp_bind [OF w] exI [of _ "D(b := ?x)"] simp del: takeWhile.simps)
    next
      case None
      then have n: "name \<notin> fst ` set (live (D b))" by (intro entries_in_fresh) (auto simp: find_None_iff)
      have "wp (dir_remove_loop st name bs s') (\<lambda>(r, s'). \<exists>D'. at D' s' \<and>
        (r = - 1 \<and> D' = D \<and> name \<notin> fst ` set (dents D (?w (b # bs))) \<or> r = 0 \<and> dir_del D (?w (b # bs)) name D'))"
        if "at D s'" for s'
        by (rule wp_mono [OF Cons.IH [OF that]])
          (use Cons.prems False b(3) n in \<open>auto simp: dir_blocks_def dir_del_Cons\<close>)
      then show ?thesis using False None f by (auto intro!: wp_bind [OF r] simp del: takeWhile.simps)
    qed
  qed
qed

lemma dir_remove_wp:
  assumes s: "at D s" and ok: "fs_ok D" and i: "i < 64" and n: "node D i = Some (Dir es)" and nm: "0 \<notin> set name"
  shows "wp (dir_remove st (int i) name s) (\<lambda>(r, s'). \<exists>D'. at D' s' \<and> fs_ok D' \<and> others i D D' \<and> D' 0 = D 0
    \<and> (r = - 1 \<and> D' = D \<and> name \<notin> fst ` set es
       \<or> r = 0 \<and> (\<exists>xs k ys. es = xs @ (name, k) # ys \<and> node D' i = Some (Dir (xs @ ys)))))"
    (is "wp _ ?P")
proof -
  note dd = dir_inode [OF ok i n]
  have del: "?P (0, s')" if "at D' s'" "dir_del D (owned D i) name D'" for D' s'
  proof -
    from that(2) obtain b buf xs k ys where h: "b \<in> set (owned D i)" "D' = D(b := buf)" "dirbuf_ok buf"
      "dents D (owned D i) = xs @ (name, k) # ys" "dents D' (owned D i) = xs @ ys" unfolding dir_del_def by blast
    have "distinct (map fst (dents D' (owned D i)))" using h(4,5) dd(2,7) by auto
    note u = dir_update [OF ok i dd(1) h(1-3) this]
    then show ?thesis using that(1) h(4,5) dd(2) by (auto simp: chg_def)
  qed
  have w: "wp (dir_remove_loop st name (iblocks (d_inode D i)) s1) (\<lambda>(r, s'). \<exists>D'. at D' s' \<and>
    (r = - 1 \<and> D' = D \<and> name \<notin> fst ` set es \<or> r = 0 \<and> dir_del D (owned D i) name D'))" if "at D s1" for s1
    using dir_remove_loop_wp [OF that, of "iblocks (d_inode D i)" name] dd(2-4) nm unfolding own_def by simp
  have "wp (dir_remove_loop st name (iblocks (d_inode D i)) s1) ?P" if "at D s1" for s1
    by (rule wp_mono [OF w [OF that]]) (use del ok in \<open>auto simp: others_def\<close>)
  then show ?thesis unfolding dir_remove_def by (intro wp_bind [OF read_inode_wp [OF s i]]) auto
qed

section \<open>Listing a directory\<close>

lemma readdir_entries_eq:
  assumes "seen \<le> index"
  shows "readdir_entries buf index k e seen =
    (let xs = filter (\<lambda>e. de_inum1 buf e \<noteq> 0) [e..<e + k]; j = nat (index - seen)
     in if j < length xs then Inl (xs ! j) else Inr (seen + int (length xs)))"
  using assms
proof (induction k arbitrary: e seen)
  case (Suc k)
  have u: "[e..<e + Suc k] = e # [Suc e..<Suc e + k]" by (simp add: upt_conv_Cons del: upt_Suc)
  show ?case
  proof (cases "de_inum1 buf e \<noteq> 0 \<and> seen \<noteq> index")
    case True
    then have "nat (index - seen) = Suc (nat (index - (seen + 1)))" using Suc.prems by linarith
    then show ?thesis using True Suc.IH [of "seen + 1" "Suc e"] Suc.prems unfolding u by (simp add: Let_def)
  next
    case False
    then show ?thesis using Suc.IH [of seen "Suc e"] Suc.prems unfolding u by (auto simp: Let_def)
  qed
qed simp

lemma entries_in_filter:
  "entries_in buf es = map (\<lambda>e. (ent_name buf e, unat (de_inum1 buf e) - 1)) (filter (\<lambda>e. de_inum1 buf e \<noteq> 0) es)"
  by (induction es) (auto simp: entry_def)

lemma readdir_loop_wp:
  assumes "at D s" and "dir_blocks D (takeWhile (\<lambda>b. b \<noteq> 0) bs)" and "seen \<le> index"
  shows "wp (readdir_loop st index bs seen s) (\<lambda>(r, s'). at D s' \<and>
    r = (let es = dents D (takeWhile (\<lambda>b. b \<noteq> 0) bs); j = nat (index - seen)
         in if j < length es then (int (snd (es ! j)), Some (fst (es ! j))) else (- 1, None)))"
  using assms
proof (induction bs arbitrary: s seen)
  case Nil
  then show ?case by simp
next
  case (Cons b bs)
  let ?w = "\<lambda>bs. takeWhile (\<lambda>b. b \<noteq> (0 :: u32)) bs"
  show ?case
  proof (cases "b = 0")
    case True
    then show ?thesis using Cons.prems(1) by simp
  next
    case False
    then have b: "data_blk b" "dirbuf_ok (D b)" using Cons.prems(2) by (simp_all add: dir_blocks_def)
    have r: "wp (read_block st b s) (\<lambda>(x, s'). x = D b \<and> at D s')" by (rule read_wp [OF Cons.prems(1) data_blk_lt(1) [OF b(1)]])
    let ?xs = "filter (\<lambda>e. de_inum1 (D b) e \<noteq> 0) [0..<16]" and ?j = "nat (index - seen)"
    have lv: "live (D b) = map (\<lambda>e. (ent_name (D b) e, unat (de_inum1 (D b) e) - 1)) ?xs" by (rule entries_in_filter)
    have d: "dents D (?w (b # bs)) = live (D b) @ dents D (?w bs)" using False by simp
    show ?thesis
    proof (cases "?j < length ?xs")
      case True
      let ?e = "?xs ! ?j"
      have "?e \<in> set ?xs" using True by (rule nth_mem)
      then have e: "?e < 16" "de_inum1 (D b) ?e \<noteq> 0" by auto
      then have "unat (de_inum1 (D b) ?e) \<le> 64" "unat (de_inum1 (D b) ?e) \<noteq> 0" using b(2) by (auto simp: dirbuf_ok_def unat_eq_0)
      then have "inum_of (de_inum1 (D b) ?e) = Some (int (unat (de_inum1 (D b) ?e) - 1))" by (simp add: inum_of_small)
      moreover have "copy_name (de_name (D b) ?e) = Some (ent_name (D b) ?e)"
        using de_name_terminated [OF b(2) e(1)] by (simp add: copy_name_def)
      moreover have "readdir_entries (D b) index 16 0 seen = Inl ?e"
        using readdir_entries_eq [OF Cons.prems(3), of "D b" 16 0] True by (simp add: Let_def)
      moreover have "live (D b) ! ?j = (ent_name (D b) ?e, unat (de_inum1 (D b) ?e) - 1)" "?j < length (live (D b))"
        using True by (simp_all add: lv)
      ultimately show ?thesis using False unfolding d
        by (auto intro!: wp_bind [OF r] simp: Let_def nth_append)
    next
      case F: False
      let ?seen = "seen + int (length ?xs)"
      have re: "readdir_entries (D b) index 16 0 seen = Inr ?seen"
        using readdir_entries_eq [OF Cons.prems(3), of "D b" 16 0] F by (simp add: Let_def)
      have ll: "length (live (D b)) = length ?xs" by (simp add: lv)
      have le: "?seen \<le> index" "nat (index - ?seen) = ?j - length ?xs" using F Cons.prems(3) by auto
      have "(let es = dents D (?w bs); j = nat (index - ?seen) in if j < length es then (int (snd (es ! j)), Some (fst (es ! j))) else (- 1, None))
        = (let es = dents D (?w (b # bs)) in if ?j < length es then (int (snd (es ! ?j)), Some (fst (es ! ?j))) else (- 1, None))"
        unfolding d le(2) Let_def using F ll by (auto simp: nth_append)
      moreover have "dir_blocks D (?w bs)" using Cons.prems(2) False by (simp add: dir_blocks_def)
      ultimately have "wp (readdir_loop st index bs ?seen s') (\<lambda>(r, s'). at D s' \<and>
        r = (let es = dents D (?w (b # bs)); j = ?j in if j < length es then (int (snd (es ! j)), Some (fst (es ! j))) else (- 1, None)))"
        if "at D s'" for s' using Cons.IH [OF that _ le(1)] by (simp add: Let_def)
      then show ?thesis using False re by (auto intro!: wp_bind [OF r] simp del: takeWhile.simps)
    qed
  qed
qed

lemma sfs_readdir_wp:
  assumes "at D s" and "fs_ok D" and "i < 64" and "node D i = Some (Dir es)"
  shows "wp (sfs_readdir st (int i) (int j) s) (\<lambda>(r, s'). at D s' \<and>
    r = (if j < length es then (int (snd (es ! j)), Some (fst (es ! j))) else (- 1, None)))"
proof -
  note dd = dir_inode [OF assms(2-4)]
  have "wp (readdir_loop st (int j) (iblocks (d_inode D i)) 0 s') (\<lambda>(r, s'). at D s' \<and>
    r = (if j < length es then (int (snd (es ! j)), Some (fst (es ! j))) else (- 1, None)))" if "at D s'" for s'
    using readdir_loop_wp [OF that, of "iblocks (d_inode D i)" 0 "int j"] dd(2,3) unfolding own_def Let_def
    by (simp split: if_splits)
  then show ?thesis unfolding sfs_readdir_def using dd(1) by (auto intro!: wp_bind [OF read_inode_wp [OF assms(1,3)]])
qed

lemma unlink_count_wp:
  assumes "at D s" and "fs_ok D" and "i < 64" and "node D i = Some (Dir es)" and "j \<le> length es"
  shows "wp (unlink_count st (int i) (int j) s) (\<lambda>(r, s'). at D s' \<and> r = int (length es))"
  using assms(1,5)
proof (induction "length es - j" arbitrary: j s)
  case 0
  then show ?case
    by (subst unlink_count.simps) (auto intro!: wp_bind [OF sfs_readdir_wp [OF 0(2) assms(2-4)]])
next
  case (Suc n)
  have "wp (unlink_count st (int i) (int j + 1) s') (\<lambda>(r, s'). at D s' \<and> r = int (length es))" if "at D s'" for s'
    using Suc.hyps(1) [OF _ that, of "Suc j"] Suc.hyps(2) by (simp add: add.commute)
  moreover have "j < length es" using Suc.hyps(2) by simp
  ultimately show ?case
    by (subst unlink_count.simps) (auto intro!: wp_bind [OF sfs_readdir_wp [OF Suc.prems(1) assms(2-4)]])
qed

section \<open>Creating\<close>

lemma blank_inode: "own (zero_inode\<lparr>itype := t\<rparr>) = []" "length (iblocks (zero_inode\<lparr>itype := t\<rparr>)) = 14"
    "iblocks (zero_inode\<lparr>itype := t\<rparr>) = replicate 14 0" "isize (zero_inode\<lparr>itype := t\<rparr>) = 0"
  by (simp_all add: own_def zero_inode_def)

text \<open>Overwriting an inode by a blank one of type \<open>t\<close>, after its blocks have been freed.\<close>

lemma reset_inode:
  assumes ok: "fs_ok D" and i: "i < 64" and t: "t \<in> {0, 1, 2}"
    and D1: "used D1 = used D - bidx ` set (owned D i)" "chg {} {} D D1"
    and D2: "D2 = put_inode i (zero_inode\<lparr>itype := t\<rparr>) D1"
  shows "fs_ok D2" and "others i D D2" and "D2 0 = D 0" and "used D2 = used D1" and "owned D2 i = []"
    and "node D2 i = (if t = 1 then Some (File []) else if t = 2 then Some (Dir []) else None)"
proof -
  let ?n = "zero_inode\<lparr>itype := t\<rparr>"
  have k: "disk_ok D1" using D1(2) by (simp add: chg_def)
  note p = inode_chg [OF k i blank_inode(2) [of t], folded D2]
  have i2: "d_inode D2 i = ?n" using d_inode_put [OF k i i blank_inode(2)] by (simp add: D2)
  have "chg ({} \<union> {i}) ({} \<union> {}) D D2" using D1(2) p(1) by (rule chg_trans)
  then have c: "chg {i} {} D D2" by simp
  show o: "owned D2 i = []" by (simp only: i2 blank_inode)
  have n: "inode_ok D2 (d_inode D2 i)" unfolding i2 inode_ok_def blank_inode using t by auto
  have "used D2 = used D - bidx ` set (owned D i) \<union> bidx ` set (owned D2 i)" using p(2) D1(1) o by simp
  with o show "fs_ok D2" and "others i D D2"
    unfolding others_def using fs_ok_step [OF ok i c _ _ n] by auto
  show "D2 0 = D 0" using c by (simp add: chg_def)
  show "used D2 = used D1" by (rule p(2))
  show "node D2 i = (if t = 1 then Some (File []) else if t = 2 then Some (Dir []) else None)"
    unfolding node_of_def i2 blank_inode by simp
qed

lemma node_None: "fs_ok D \<Longrightarrow> i < 64 \<Longrightarrow> node D i = None \<longleftrightarrow> itype (d_inode D i) = 0"
  using fs_okD(2) [of D i] by (auto simp: node_of_def inode_ok_def)

lemma others_trans: "others i D D1 \<Longrightarrow> others i D1 D2 \<Longrightarrow> others i D D2"
  by (simp add: others_def)

lemma dot_names: "0 \<notin> set DOT" "0 \<notin> set DOTDOT" "take 27 DOT = DOT" "take 27 DOTDOT = DOTDOT" "DOT \<noteq> DOTDOT"
  by (simp_all add: DOT_def DOTDOT_def)

lemma dot_entries_wp:
  assumes s: "at D s" and ok: "fs_ok D" and k: "k < 64" and p: "p < 64" and n: "node D k = Some (Dir [])" "owned D k = []"
  shows "wp (do { (r, s) \<leftarrow> dir_add st (int k) DOT (int k) s; (r, s) \<leftarrow> dir_add st (int k) DOTDOT (int p) s; Some s })
    (\<lambda>s'. \<exists>D' es. at D' s' \<and> fs_ok D' \<and> others k D D' \<and> D' 0 = D 0 \<and> node D' k = Some (Dir es)
      \<and> (if disk_full D then D' = D else dot_entries k p es))" (is "wp _ ?P")
proof (rule wp_bind [OF dir_add_wp [OF s ok k n(1) k dot_names(1)]], simp, clarify)
  fix r s1 D1
  assume D1: "at D1 s1" "fs_ok D1" "others k D D1" "D1 0 = D 0"
    and r: "r = - 1 \<and> D1 = D \<and> dir_full D k
       \<or> r = 0 \<and> \<not> dir_full D k \<and> (\<exists>xs ys. [] = xs @ ys \<and> node D1 k = Some (Dir (xs @ (take 27 DOT, k) # ys)))"
  have full: "dir_full D k \<longleftrightarrow> disk_full D" unfolding dir_full_def n(2) dents_simps by simp
  show "wp (dir_add st (int k) DOTDOT (int p) s1 \<bind> (\<lambda>(r, s). Some s)) ?P"
  proof (cases "disk_full D")
    case True
    then have e: "D1 = D" using r full by blast
    have P: "?P s2" if "at D s2" for s2 using that ok n(1) True by (auto simp: others_def)
    have "wp (dir_add st (int k) DOTDOT (int p) s1) (\<lambda>(r, s'). at D s')"
      by (rule wp_mono [OF dir_add_wp [OF D1(1,2) k, unfolded e, OF n(1) p dot_names(2)]]) (use full True in \<open>simp, blast\<close>)
    then show ?thesis
    proof (rule wp_bind)
      fix x assume "case x of (r, s') \<Rightarrow> at D s'"
      then show "wp (case x of (r, s) \<Rightarrow> Some s) ?P" using P [of "snd x"] by (cases x) (simp only: prod.case snd_conv wp_Some)
    qed
  next
    case False
    then have n1: "node D1 k = Some (Dir [(DOT, k)])" using r full by (auto simp: dot_names)
    have nf: "\<not> dir_full D1 k"
    proof -
      have "length (dents D1 (owned D1 k)) = 1" using dir_inode(2) [OF D1(2) k n1] by simp
      then show ?thesis unfolding dir_full_def by presburger
    qed
    have P: "?P s2" if "at D2 s2" "fs_ok D2" "others k D1 D2" "D2 0 = D1 0"
      "\<exists>xs ys. [(DOT, k)] = xs @ ys \<and> node D2 k = Some (Dir (xs @ (DOTDOT, p) # ys))" for D2 s2
    proof -
      from that(5) obtain xs ys where h: "[(DOT, k)] = xs @ ys" "node D2 k = Some (Dir (xs @ (DOTDOT, p) # ys))" by blast
      then have "dot_entries k p (xs @ (DOTDOT, p) # ys)"
        using dot_names(5) by (cases xs) (auto simp: dot_entries_def)
      then show ?thesis using that(1-4) h(2) D1(3,4) False others_trans by auto
    qed
    show ?thesis
    proof (rule wp_bind [OF dir_add_wp [OF D1(1,2) k n1 p dot_names(2)]], goal_cases)
      case 1
      then show ?case using dot_names by simp
    next
      case (2 x)
      then have "?P (snd x)" using nf unfolding dot_names(4) split_beta by (elim exE conjE disjE) (use P in blast)+
      then show ?case by (simp only: split_beta wp_Some)
    qed
  qed
qed

lemma created_wp:
  assumes s: "at D s" and ok: "fs_ok D" and k: "k < 64" and p: "p < 64" and n: "node D k = None" and t: "t = 1 \<or> t = 2"
  shows "wp (do {
       s \<leftarrow> write_inode st (int k) (zero_inode\<lparr>itype := word_of_int t\<rparr>) s;
       if t = uint SFS_DIR then do {
         (r, s) \<leftarrow> dir_add st (int k) DOT (int k) s;
         (r, s) \<leftarrow> dir_add st (int k) DOTDOT (int p) s;
         Some s
       } else Some s })
    (\<lambda>s'. \<exists>D'. at D' s' \<and> fs_ok D' \<and> others k D D' \<and> D' 0 = D 0 \<and> created D p k t (node D' k))"
    (is "wp _ ?P")
proof -
  have t0: "itype (d_inode D k) = 0" using node_None [OF ok k] n by simp
  then have o: "owned D k = []" using fs_okD(2) [OF ok k] by (auto simp: inode_ok_def)
  let ?D = "put_inode k (zero_inode\<lparr>itype := word_of_int t\<rparr>) D"
  note r = reset_inode [OF ok k _ _ chg_refl [OF fs_okD(1) [OF ok]] refl, of "word_of_int t"]
  have D: "fs_ok ?D" "others k D ?D" "?D 0 = D 0" "used ?D = used D" "owned ?D k = []"
    "node ?D k = (if t = 1 then Some (File []) else Some (Dir []))" using r t o by auto
  have w: "wp (write_inode st (int k) (zero_inode\<lparr>itype := word_of_int t\<rparr>) s) (at ?D)"
    by (rule write_inode_wp [OF s k blank_inode(2)])
  show ?thesis
  proof (rule wp_bind [OF w])
    fix s1 assume s1: "at ?D s1"
    show "wp (if t = uint SFS_DIR then do { (r, s) \<leftarrow> dir_add st (int k) DOT (int k) s1;
         (r, s) \<leftarrow> dir_add st (int k) DOTDOT (int p) s; Some s } else Some s1) ?P"
    proof (cases "t = 2")
      case False
      then have "created D p k t (node ?D k)" using t D(6) by (simp add: created_def)
      then show ?thesis using False s1 D by auto
    next
      case True
      have f: "disk_full ?D = disk_full D" by (rule disk_full_cong) (rule D(4))
      have "node ?D k = Some (Dir [])" using D(6) True by simp
      note dw = dot_entries_wp [OF s1 D(1) k p this D(5), unfolded f]
      have "?P s2" if "at D2 s2" "fs_ok D2" "others k ?D D2" "D2 0 = ?D 0" "node D2 k = Some (Dir es)"
        "if disk_full D then D2 = ?D else dot_entries k p es" for s2 D2 es
      proof -
        have "created D p k t (node D2 k)" using that(5,6) D(6) True by (auto simp: created_def split: if_splits)
        then show ?thesis using that(1-4) D(2,3) others_trans by auto
      qed
      then have "wp (do { (r, s) \<leftarrow> dir_add st (int k) DOT (int k) s1; (r, s) \<leftarrow> dir_add st (int k) DOTDOT (int p) s; Some s }) ?P"
        by (intro wp_mono [OF dw]) blast
      then show ?thesis using True by simp
    qed
  qed
qed

lemma sfs_create_wp:
  assumes s: "at D s" and ok: "fs_ok D" and d: "dir < 64" and n: "node D dir = Some (Dir es)"
    and nm: "0 \<notin> set name" "take 27 name \<notin> fst ` set es \<or> name \<in> fst ` set es" and t: "t = 1 \<or> t = 2"
  shows "wp (sfs_create st (int dir) name t s) (\<lambda>(r, s'). \<exists>D'. at D' s' \<and> create_post D dir es name t r D')"
    (is "wp _ ?P")
proof -
  have keep: "?P (- 1, s')" if "at D s'" "name \<in> fst ` set es \<or> (\<forall>k < 64. node D k \<noteq> None)" for s'
    using that ok by (auto simp: create_post_def)
  have body: "wp (do {
      s \<leftarrow> write_inode st (int k) (zero_inode\<lparr>itype := word_of_int t\<rparr>) s1;
      s \<leftarrow> (if t = uint SFS_DIR then do {
              (r, s) \<leftarrow> dir_add st (int k) DOT (int k) s;
              (r, s) \<leftarrow> dir_add st (int k) DOTDOT (int dir) s;
              Some s
            } else Some s);
      (r, s) \<leftarrow> dir_add st (int dir) name (int k) s;
      if r \<noteq> 0 then Some (- 1, s) else Some (int k, s) }) ?P"
    if s1: "at D s1" and k: "k < 64" "node D k = None" and f: "name \<notin> fst ` set es" for s1 k
  proof -
    have kd: "k \<noteq> dir" using k(2) n by auto
    have add: "wp (do { (r, s) \<leftarrow> dir_add st (int dir) name (int k) s3; if r \<noteq> 0 then Some (- 1, s) else Some (int k, s) }) ?P"
      if D3: "at D3 s3" "fs_ok D3" "others k D D3" "D3 0 = D 0" "created D dir k t (node D3 k)" for s3 D3
    proof -
      have n3: "node D3 dir = Some (Dir es)" using D3(3) kd d n by (auto simp: others_def)
      have nm': "take 27 name \<notin> fst ` set es" using f nm(2) by blast
      have post: "?P (r, s4)" if D4: "at D4 s4" "fs_ok D4" "others dir D3 D4" "D4 0 = D3 0" and
        r: "r = - 1 \<and> D4 = D3 \<and> dir_full D3 dir \<or> r = int k \<and> (\<exists>xs ys. es = xs @ ys \<and> node D4 dir = Some (Dir (xs @ (take 27 name, k) # ys)))"
        for r s4 D4
      proof -
        have "\<exists>k < 64. node D k = None" using k by auto
        moreover have "created D dir k t (node D4 k)" using D4(3) kd k(1) D3(5) by (simp add: others_def)
        moreover have "\<forall>j < 64. j \<noteq> k \<and> j \<noteq> dir \<longrightarrow> node D4 j = node D j" using D4(3) D3(3) by (simp add: others_def)
        ultimately have "create_post D dir es name t r D4"
          using D4(2,4) D3(4) f k r n3 by (auto simp: create_post_def)
        then show ?thesis using D4(1) by auto
      qed
      show ?thesis
      proof (rule wp_bind [OF dir_add_wp [OF D3(1,2) d n3 k(1) nm(1) nm']], clarify)
        fix r :: int and s4 D4
        assume D4: "at D4 s4" "fs_ok D4" "others dir D3 D4" "D4 0 = D3 0" and r: "r = - 1 \<and> D4 = D3 \<and> dir_full D3 dir
          \<or> r = 0 \<and> \<not> dir_full D3 dir \<and> (\<exists>xs ys. es = xs @ ys \<and> node D4 dir = Some (Dir (xs @ (take 27 name, k) # ys)))"
        show "wp (if r \<noteq> 0 then Some (- 1, s4) else Some (int k, s4)) ?P"
        proof (cases "r = 0")
          case True
          then have "\<exists>xs ys. es = xs @ ys \<and> node D4 dir = Some (Dir (xs @ (take 27 name, k) # ys))" using r by simp
          then show ?thesis using post [OF D4, of "int k"] True by simp
        next
          case False
          then show ?thesis using post [OF D4, of "- 1"] r by simp
        qed
      qed
    qed
    have "wp (do { s \<leftarrow> do {
        s \<leftarrow> write_inode st (int k) (zero_inode\<lparr>itype := word_of_int t\<rparr>) s1;
        if t = uint SFS_DIR then do {
          (r, s) \<leftarrow> dir_add st (int k) DOT (int k) s; (r, s) \<leftarrow> dir_add st (int k) DOTDOT (int dir) s; Some s
        } else Some s };
      (r, s) \<leftarrow> dir_add st (int dir) name (int k) s;
      if r \<noteq> 0 then Some (- 1, s) else Some (int k, s) }) ?P"
      by (rule wp_bind [OF created_wp [OF s1 ok k(1) d k(2) t]]) (use add in blast)
    then show ?thesis unfolding bind_assoc .
  qed
  show ?thesis unfolding sfs_create_def
  proof (rule wp_bind [OF dir_lookup_wp [OF s d fs_okD(2) [OF ok d] nm(1)]], clarify, goal_cases)
    case (1 r s1)
    show ?case
    proof (cases "name \<in> fst ` set es")
      case True
      then have "map_of es name \<noteq> None" by (simp add: map_of_eq_None_iff)
      then show ?thesis using 1 keep True n by (auto split: option.splits)
    next
      case False
      then have m: "map_of es name = None" by (simp add: map_of_eq_None_iff)
      show ?thesis unfolding n option.case node.case m using 1
        by (simp, intro wp_bind [OF alloc_inode_wp [OF 1(1)]])
          (use keep body False node_None [OF ok] in auto)
    qed
  qed
qed

section \<open>Unlinking\<close>

lemma strcmp_l_eq:
  assumes "0 \<notin> set xs" and "0 \<notin> set ys"
  shows "strcmp_l (xs @ [0]) (ys @ [0]) = Some 0 \<longleftrightarrow> xs = ys"
proof -
  have "\<forall>c \<in> set xs. c \<noteq> 0" using assms(1) by metis
  then have "takeWhile (\<lambda>c. c \<noteq> 0) (xs @ [0]) = xs" by (simp add: takeWhile_append2)
  then show ?thesis using strcmp_l_returns [of "xs @ [0]" ys] assms(2) by auto
qed

lemma entry_inum:
  assumes "dir_blocks D bs" and "(nm, k) \<in> set (dents D bs)"
  shows "k < 64"
proof -
  from assms(2) obtain b where b: "b \<in> set bs" "(nm, k) \<in> set (live (D b))" unfolding dents_def set_concat set_map by blast
  then obtain e where e: "e \<in> set [0..<16]" "de_inum1 (D b) e \<noteq> 0" "k = unat (de_inum1 (D b) e) - 1"
    unfolding entries_in_filter set_map set_filter by blast
  then have "e < 16" by (simp only: set_upt atLeastLessThan_iff)
  then have "unat (de_inum1 (D b) e) \<le> 64" using assms(1) b(1) by (simp add: dir_blocks_def dirbuf_ok_def)
  moreover have "unat (de_inum1 (D b) e) \<noteq> 0" using e(2) by (simp add: unat_eq_0)
  ultimately show ?thesis using e(3) by simp
qed

lemma inode_blocks:
  assumes "fs_ok D" and "i < 64"
  shows "set (iblocks (d_inode D i)) - {0} = set (owned D i)"
    and "\<forall>b \<in> set (iblocks (d_inode D i)). b \<noteq> 0 \<longrightarrow> data_blk b"
proof -
  have "iblocks (d_inode D i) = owned D i @ replicate (14 - length (owned D i)) 0"
    using fs_okD(2) [OF assms] by (auto simp: inode_ok_def)
  then have "set (iblocks (d_inode D i)) = set (owned D i) \<union> set (replicate (14 - length (owned D i)) 0)" by (metis set_append)
  then show s: "set (iblocks (d_inode D i)) - {0} = set (owned D i)"
    using own_nonzero [of "d_inode D i"] by (simp add: set_replicate_conv_if)
  show "\<forall>b \<in> set (iblocks (d_inode D i)). b \<noteq> 0 \<longrightarrow> data_blk b" using s owned_data [OF assms] by blast
qed

lemma sfs_unlink_wp:
  assumes s: "at D s" and ok: "fs_ok D" and d: "dir < 64" and n: "node D dir = Some (Dir es)"
    and nm: "0 \<notin> set name" "name \<noteq> DOT" "name \<noteq> DOTDOT" and ns: "map_of es name \<noteq> Some dir"
  shows "wp (sfs_unlink st (int dir) name s) (\<lambda>(r, s'). \<exists>D'. at D' s' \<and> unlink_post D dir es name r D')"
    (is "wp _ ?P")
proof -
  note dd = dir_inode [OF ok d n]
  have keep: "?P (- 1, s')" if "at D s'" "map_of es name = None \<or> (\<exists>k ks. map_of es name = Some k \<and> node D k = Some (Dir ks) \<and> 2 < length ks)" for s'
    using that ok by (auto simp: unlink_post_def split: option.splits)
  have rm: "wp (do { s \<leftarrow> free_blocks st (iblocks (d_inode D k)) s1; s \<leftarrow> write_inode st (int k) zero_inode s; dir_remove st (int dir) name s }) ?P"
    if s1: "at D s1" and k: "map_of es name = Some k" "k < 64" and small: "\<not> (\<exists>ks. node D k = Some (Dir ks) \<and> 2 < length ks)" for s1 k
  proof (rule wp_bind [OF free_blocks_wp [OF s1 inode_blocks(2) [OF ok k(2)], unfolded inode_blocks(1) [OF ok k(2)]]], clarify)
    fix s2 D1
    assume D1: "at D1 s2" "used D1 = used D - bidx ` set (owned D k)" "chg {} {} D D1"
    let ?D = "put_inode k zero_inode D1"
    have z: "zero_inode = zero_inode\<lparr>itype := 0\<rparr>" by (simp add: zero_inode_def)
    note r = reset_inode [OF ok k(2) _ D1(2,3), of 0 ?D, folded z]
    have kd: "k \<noteq> dir" using k(1) ns by auto
    have nd: "node ?D dir = Some (Dir es)" using r(2) kd d n by (auto simp: others_def)
    have w: "wp (write_inode st (int k) zero_inode s2) (at ?D)" by (rule write_inode_wp [OF D1(1) k(2)]) (simp add: zero_inode_def)
    have post: "?P (0, s4)" if D4: "at D4 s4" "fs_ok D4" "others dir ?D D4" "D4 0 = ?D 0"
      and e: "es = xs @ (name, k') # ys" "node D4 dir = Some (Dir (xs @ ys))" for D4 s4 xs k' ys
    proof -
      have "map_of es name = Some k'" by (rule map_of_is_SomeI [OF dd(7)]) (simp add: e(1))
      then have "k' = k" using k(1) by simp
      moreover have "node D4 k = None" using D4(3) kd k(2) r(6) by (simp add: others_def)
      moreover have "\<forall>j < 64. j \<noteq> k \<and> j \<noteq> dir \<longrightarrow> node D4 j = node D j" using D4(3) r(2) by (simp add: others_def)
      ultimately have "unlink_post D dir es name 0 D4"
        using D4(2,4) r(3) k(1) small e unfolding unlink_post_def by auto
      then show ?thesis using D4(1) by auto
    qed
    have mem: "name \<in> fst ` set es" using k(1) by (metis map_of_eq_None_iff option.distinct(1))
    have "wp (dir_remove st (int dir) name s3) ?P" if "at ?D s3" for s3
    proof (rule wp_mono [OF dir_remove_wp [OF that _ d nd nm(1)]], goal_cases)
      case 1
      then show ?case using r(1) by simp
    next
      case (2 x)
      then show ?case using mem post by (auto simp: split_beta)
    qed
    then show "wp (write_inode st (int k) zero_inode s2 \<bind> dir_remove st (int dir) name) ?P" by (intro wp_bind [OF w])
  qed
  have body: "wp (do {
        (n, s) \<leftarrow> read_inode st (int k) s1;
        (refuse, s) \<leftarrow> (if itype n = SFS_DIR then do { (count, s) \<leftarrow> unlink_count st (int k) 0 s; Some (2 < count, s) } else Some (False, s));
        if refuse then Some (- 1, s) else do {
          s \<leftarrow> free_blocks st (iblocks n) s; s \<leftarrow> write_inode st (int k) zero_inode s; dir_remove st (int dir) name s } }) ?P"
    if s1: "at D s1" and k: "map_of es name = Some k" "k < 64" for s1 k
  proof (rule wp_bind [OF read_inode_wp [OF s1 k(2)]], clarify)
    fix s2 assume s2: "at D s2"
    let ?n = "d_inode D k"
    show "wp (do { (refuse, s) \<leftarrow> (if itype ?n = SFS_DIR then do { (count, s) \<leftarrow> unlink_count st (int k) 0 s2; Some (2 < count, s) } else Some (False, s2));
        if refuse then Some (- 1, s) else do {
          s \<leftarrow> free_blocks st (iblocks ?n) s; s \<leftarrow> write_inode st (int k) zero_inode s; dir_remove st (int dir) name s } }) ?P"
    proof (cases "itype ?n = 2")
      case True
      then obtain ks where ks: "node D k = Some (Dir ks)" by (auto simp: node_of_def)
      have c: "wp (unlink_count st (int k) 0 s2) (\<lambda>(r, s'). at D s' \<and> r = int (length ks))"
        using unlink_count_wp [OF s2 ok k(2) ks, of 0] by simp
      have "wp (do { (count, s) \<leftarrow> unlink_count st (int k) 0 s2; Some (2 < count, s) }) (\<lambda>(f, s'). at D s' \<and> f = (2 < length ks))"
        by (rule wp_bind [OF c]) auto
      then have "wp (do { (refuse, s) \<leftarrow> do { (count, s) \<leftarrow> unlink_count st (int k) 0 s2; Some (2 < count, s) };
          if refuse then Some (- 1, s) else do {
            s \<leftarrow> free_blocks st (iblocks ?n) s; s \<leftarrow> write_inode st (int k) zero_inode s; dir_remove st (int dir) name s } }) ?P"
      proof (rule wp_bind, clarify)
        fix s3 assume s3: "at D s3"
        show "wp (if 2 < length ks then Some (- 1, s3) else do {
            s \<leftarrow> free_blocks st (iblocks ?n) s3; s \<leftarrow> write_inode st (int k) zero_inode s; dir_remove st (int dir) name s }) ?P"
        proof (cases "2 < length ks")
          case True
          then have "?P (- 1, s3)" using keep [OF s3] k(1) ks by blast
          then show ?thesis using True by simp
        next
          case False
          then have "\<not> (\<exists>ks. node D k = Some (Dir ks) \<and> 2 < length ks)" using ks by simp
          then show ?thesis using rm [OF s3 k] False by simp
        qed
      qed
      then show ?thesis using True by simp
    next
      case False
      then have "\<not> (\<exists>ks. node D k = Some (Dir ks) \<and> 2 < length ks)" by (simp add: node_of_def)
      then show ?thesis using rm [OF s2 k] False by simp
    qed
  qed
  have g: "\<not> (strcmp_l (name @ [0]) (DOT @ [0]) = Some 0 \<or> strcmp_l (name @ [0]) (DOTDOT @ [0]) = Some 0)"
    using nm dot_names by (simp add: strcmp_l_eq)
  show ?thesis unfolding sfs_unlink_def if_not_P [OF g]
  proof (rule wp_bind [OF dir_lookup_wp [OF s d fs_okD(2) [OF ok d] nm(1)]], clarify, goal_cases)
    case (1 r s1)
    show ?case
    proof (cases "map_of es name")
      case None
      then have "?P (- 1, s1)" using keep [OF 1(1)] by blast
      then show ?thesis using n None by simp
    next
      case (Some k)
      then have "(name, k) \<in> set (dents D (owned D dir))" using dd(2) by (simp add: map_of_SomeD)
      then have "k < 64" by (rule entry_inum [OF dd(3)])
      from body [OF 1(1) Some this] show ?thesis unfolding n Some option.case node.case by simp
    qed
  qed
qed

section \<open>Format and mount\<close>

lemma write_blocks_wp:
  assumes "at D s" and "unat b + k \<le> 2064" and "length x = 512"
  shows "wp (write_blocks st x k b s) (at (\<lambda>c. if unat b \<le> unat c \<and> unat c < unat b + k then x else D c))"
  using assms(1,2)
proof (induction k arbitrary: b D s)
  case 0
  have "(\<lambda>c. if unat b \<le> unat c \<and> unat c < unat b + 0 then x else D c) = D" by (rule ext) auto
  then show ?case using 0(1) by (simp only: write_blocks.simps wp_Some)
next
  case (Suc k)
  have b: "unat (b + 1) = Suc (unat b)" using Suc.prems(2) by (simp add: unat_word_ariths)
  have w: "wp (write_block st b x s) (at (D(b := x)))" using Suc.prems assms(3) by (intro write_wp) auto
  have e: "(\<lambda>c. if unat (b + 1) \<le> unat c \<and> unat c < unat (b + 1) + k then x else (D(b := x)) c)
      = (\<lambda>c. if unat b \<le> unat c \<and> unat c < unat b + Suc k then x else D c)"
    unfolding b by (rule ext) (auto simp: word_unat_eq_iff)
  have "wp (write_blocks st x k (b + 1) s') (at (\<lambda>c. if unat b \<le> unat c \<and> unat c < unat b + Suc k then x else D c))"
    if "at (D(b := x)) s'" for s' using Suc.IH [OF that, of "b + 1"] Suc.prems(2) unfolding e by (simp add: b)
  then show ?case by (auto intro!: wp_bind [OF w])
qed

lemma zero_block_inode: "D (iblk i) = replicate 512 0 \<Longrightarrow> d_inode D i = zero_inode"
proof -
  assume "D (iblk i) = replicate 512 0"
  then have z: "take 64 (drop (i mod 8 * 64) (D (iblk i))) = replicate 64 0" using inode_off [of i] by simp
  have "map (\<lambda>k. get32 (replicate 64 0) (8 + 4 * k)) [0..<14] = replicate 14 0"
    by (intro nth_equalityI) simp_all
  then show ?thesis unfolding d_inode_def z by (simp add: dec_inode_def zero_inode_def)
qed

lemma fs_ok_blank:
  assumes "disk_ok D" and "\<And>i. i < 64 \<Longrightarrow> D (iblk i) = replicate 512 0" and "D 9 = replicate 512 0"
  shows "fs_ok D" and "\<And>i. i < 64 \<Longrightarrow> node D i = None" and "used D = {}"
proof -
  have i: "d_inode D i = zero_inode" if "i < 64" for i using assms(2) [OF that] by (rule zero_block_inode)
  have z: "own zero_inode = []" "inode_ok D zero_inode" "node_of D zero_inode = None"
    by (simp_all add: own_def zero_inode_def inode_ok_def node_of_def)
  show u: "used D = {}" by (auto simp: flags_on_def bm_test_bit assms(3))
  show "node D i = None" if "i < 64" for i using i [OF that] z(3) by simp
  show "fs_ok D" using assms(1) i z u by (simp add: fs_ok_def)
qed

lemma format_wp:
  assumes "at D s"
  shows "wp (format st s) (\<lambda>s'. \<exists>D' es. at D' s' \<and> fs_ok D' \<and> D' 0 = superblock \<and> node D' 0 = Some (Dir es)
    \<and> dot_entries 0 0 es \<and> (\<forall>j < 64. j \<noteq> 0 \<longrightarrow> node D' j = None))" (is "wp _ ?P")
proof -
  let ?z = "replicate 512 (0 :: u8)"
  define D1 where "D1 = D(0 := superblock)"
  define D2 where "D2 = (\<lambda>c. if unat (1 :: u32) \<le> unat c \<and> unat c < unat (1 :: u32) + 8 then ?z else D1 c)"
  define D3 where "D3 = D2(9 := ?z)"
  define D4 where "D4 = put_inode 0 (zero_inode\<lparr>itype := 2\<rparr>) D3"
  have sb: "length superblock = 512" by (simp add: superblock_def)
  have w1: "wp (write_block st 0 superblock s) (at D1)" unfolding D1_def by (rule write_wp [OF assms]) (simp_all add: sb)
  have w2: "wp (write_blocks st ?z 8 1 s') (at D2)" if "at D1 s'" for s'
    unfolding D2_def by (rule write_blocks_wp [OF that]) simp_all
  have w3: "wp (write_block st 9 ?z s') (at D3)" if "at D2 s'" for s' unfolding D3_def by (rule write_wp [OF that]) simp_all
  have w4: "wp (write_inode st 0 (zero_inode\<lparr>itype := 2\<rparr>) s') (at D4)" if "at D3 s'" for s'
    using write_inode_wp [OF that, of 0 "zero_inode\<lparr>itype := 2\<rparr>"] blank_inode(2) by (simp add: D4_def)
  have k3: "disk_ok D3" using at_disk_ok [OF assms] sb by (auto simp: disk_ok_def D1_def D2_def D3_def)
  have t3: "D3 (iblk i) = ?z" if "i < 64" for i using iblk_low [OF that] by (simp add: D3_def D2_def)
  have "D3 9 = ?z" by (simp add: D3_def)
  note b = fs_ok_blank [OF k3 t3 this]
  have s0: "D3 0 = superblock" by (simp add: D3_def D2_def D1_def)
  have "owned D3 0 = []" using zero_block_inode [of D3 0] t3 [of 0] by (simp add: own_def zero_inode_def)
  then have D4: "fs_ok D4" "others 0 D3 D4" "D4 0 = superblock" "used D4 = {}" "owned D4 0 = []" "node D4 0 = Some (Dir [])"
    using reset_inode [OF b(1), of 0 2 D3 D4] chg_refl [OF k3, of "{}" "{}"] b(3) s0 by (simp_all add: D4_def)
  have nf: "\<not> disk_full D4"
  proof -
    have "(0 :: nat) \<in> {..<2048}" by (simp only: lessThan_iff zero_less_numeral)
    then show ?thesis using D4(4) unfolding disk_full_def by blast
  qed
  have w5: "wp (do { (r, s) \<leftarrow> dir_add st 0 DOT 0 s'; (r, s) \<leftarrow> dir_add st 0 DOTDOT 0 s; Some s }) ?P" if "at D4 s'" for s'
  proof (rule wp_mono [OF dot_entries_wp [OF that D4(1), of 0 0, simplified, OF D4(6,5)]], clarify)
    fix s5 D5 es
    assume h: "at D5 s5" "fs_ok D5" "others 0 D4 D5" "D5 0 = D4 0" "node D5 0 = Some (Dir es)"
      "if disk_full D4 then D5 = D4 else dot_entries 0 0 es"
    then have "\<forall>j < 64. j \<noteq> 0 \<longrightarrow> node D5 j = None" using D4(2) b(2) by (simp add: others_def)
    then show "?P s5" using h D4(3) nf by auto
  qed
  show ?thesis unfolding format_def Let_def
    using w5 by (auto intro!: wp_bind [OF w1] wp_bind [OF w2] wp_bind [OF w3] wp_bind [OF w4])
qed

lemma sfs_init_wp:
  assumes "at D s"
  shows "wp (sfs_init st s) (\<lambda>s'. if get32 (D 0) 0 = SFS_MAGIC then at D s'
    else \<exists>D' es. at D' s' \<and> fs_ok D' \<and> D' 0 = superblock \<and> node D' 0 = Some (Dir es) \<and> dot_entries 0 0 es
      \<and> (\<forall>j < 64. j \<noteq> 0 \<longrightarrow> node D' j = None))" (is "wp _ ?P")
proof -
  have f: "wp (format st s1) ?P" if "at D s1" "get32 (D 0) 0 \<noteq> SFS_MAGIC" for s1
    using format_wp [OF that(1)] that(2) by simp
  have r: "wp (read_block st 0 s) (\<lambda>(x, s'). x = D 0 \<and> at D s')" by (rule read_wp [OF assms]) simp
  show ?thesis unfolding sfs_init_def by (rule wp_bind [OF r]) (use f in auto)
qed

lemma sfs_lookup_wp:
  assumes "at D s" and "fs_ok D" and "i < 64" and "node D i = Some (Dir es)" and "0 \<notin> set name"
  shows "wp (sfs_lookup st (int i) name s) (\<lambda>(r, s'). at D s' \<and> r = (case map_of es name of Some k \<Rightarrow> int k | None \<Rightarrow> - 1))"
  unfolding sfs_lookup_def using dir_lookup_wp [OF assms(1,3) fs_okD(2) [OF assms(2,3)] assms(5)] assms(4) by simp

lemma ent_name_le: "dirbuf_ok buf \<Longrightarrow> e < 16 \<Longrightarrow> length (ent_name buf e) \<le> 27"
proof -
  assume b: "dirbuf_ok buf" "e < 16"
  let ?xs = "take 28 (drop (32 * e + 4) buf)"
  have l: "length ?xs = 28" "?xs ! 27 = 0" using b by (simp_all add: dirbuf_ok_def add.commute)
  have "\<not> 27 < length (ent_name buf e)"
  proof
    assume a: "27 < length (ent_name buf e)"
    then have "ent_name buf e ! 27 = ?xs ! 27" unfolding ent_name_def by (rule takeWhile_nth)
    moreover have "ent_name buf e ! 27 \<noteq> 0"
      using set_takeWhileD [of "ent_name buf e ! 27" "\<lambda>c. c \<noteq> 0" ?xs] nth_mem [OF a] unfolding ent_name_def by blast
    ultimately show False using l(2) by simp
  qed
  then show ?thesis by simp
qed

lemma entry_name_le:
  assumes "dir_blocks D bs" and "nm \<in> fst ` set (dents D bs)"
  shows "length nm \<le> 27"
proof -
  from assms(2) obtain b where b: "b \<in> set bs" "nm \<in> fst ` set (live (D b))" by (auto simp: dents_def)
  then obtain e where e: "e \<in> set [0..<16]" "nm = ent_name (D b) e" unfolding entries_in_filter set_map set_filter by auto
  then have "e < 16" by (simp only: set_upt atLeastLessThan_iff)
  then show ?thesis using ent_name_le assms(1) b(1) e(2) by (simp add: dir_blocks_def)
qed

end

end
