(* ===== verification/Sfs_Props.thy ===== *)
theory Sfs_Props
  imports Sfs_Names
begin

text \<open>
  The file system on the block cache on a disk: the interface \<open>sfs_store\<close> is interpreted on the
  model's own layers (\<open>cache_layer\<close> over any working disk), and the properties of the public operations of
  \<^verbatim>\<open>fs/sfs.c\<close> are stated over them. A tree invariant (no dangling entries, every file has one name)
  is added to the consistency of the disk, and both hold in every history of calls.
\<close>

section \<open>The layers together\<close>

locale sfs_disk = sector_disk io good sec cap
  for io :: "'d io" and good :: "'d \<Rightarrow> bool" and sec :: "'d \<Rightarrow> disk" and cap :: nat +
  assumes big_enough: "2064 \<le> cap"

sublocale sfs_disk \<subseteq> fs: sfs_store "cache_layer io" "blocks sec" "bc_ok good sec cap" cap
  by unfold_locales (rule big_enough)

interpretation simfs: sfs_disk sim_io "\<lambda>d. s_phase d = Ready" sim_sec 32768
  by unfold_locales simp

text \<open>The block layer of the mounted kernel, and its state.\<close>

abbreviation mounted :: "('d \<Rightarrow> bool) \<Rightarrow> ('d \<Rightarrow> disk) \<Rightarrow> nat \<Rightarrow> 'd bcache \<Rightarrow> bool" where
  "mounted good sec cap s \<equiv> bc_ok good sec cap s \<and> fs_ok (blocks sec s)"

section \<open>Names and files form a tree of references\<close>

definition plain :: "u8 list \<Rightarrow> bool" where
  "plain nm \<longleftrightarrow> nm \<noteq> DOT \<and> nm \<noteq> DOTDOT"

definition ref :: "(nat \<Rightarrow> node option) \<Rightarrow> nat \<Rightarrow> u8 list \<Rightarrow> nat \<Rightarrow> bool" where
  "ref N i nm k \<longleftrightarrow> i < 64 \<and> plain nm \<and> (\<exists>es. N i = Some (Dir es) \<and> (nm, k) \<in> set es)"

text \<open>Apart from the dot entries, an entry leads to an allocated inode other than the root and its own
  directory, and no two entries lead to the same inode.\<close>

definition tree_ok :: "(nat \<Rightarrow> node option) \<Rightarrow> bool" where
  "tree_ok N \<longleftrightarrow> (\<exists>es. N 0 = Some (Dir es))
     \<and> (\<forall>i nm k. ref N i nm k \<longrightarrow> k < 64 \<and> N k \<noteq> None \<and> k \<noteq> 0 \<and> k \<noteq> i)
     \<and> (\<forall>i nm k j nm'. ref N i nm k \<and> ref N j nm' k \<longrightarrow> i = j \<and> nm = nm')"

lemma tree_okD:
  assumes "tree_ok N"
  shows "\<exists>es. N 0 = Some (Dir es)" and "ref N i nm k \<Longrightarrow> k < 64 \<and> N k \<noteq> None \<and> k \<noteq> 0 \<and> k \<noteq> i"
    and "ref N i nm k \<Longrightarrow> ref N j nm' k \<Longrightarrow> i = j \<and> nm = nm'"
  using assms unfolding tree_ok_def by blast+

lemma tree_ok_insert:
  assumes t: "tree_ok N" and r: "\<And>i nm' k'. ref N' i nm' k' \<Longrightarrow> ref N i nm' k' \<or> i = d \<and> nm' = nm \<and> k' = k"
    and k: "N k = None" "k < 64" "d \<noteq> k" and n: "\<And>j. j < 64 \<Longrightarrow> N j \<noteq> None \<Longrightarrow> N' j \<noteq> None" "N' k \<noteq> None"
    and z: "\<exists>es. N' 0 = Some (Dir es)"
  shows "tree_ok N'"
proof -
  have k0: "k \<noteq> 0" using tree_okD(1) [OF t] k(1) by (metis option.distinct(1))
  have fresh: "\<not> ref N i nm' k" for i nm' using tree_okD(2) [OF t] k(1) by blast
  have "k' < 64 \<and> N' k' \<noteq> None \<and> k' \<noteq> 0 \<and> k' \<noteq> i" if "ref N' i nm' k'" for i nm' k'
    using r [OF that] tree_okD(2) [OF t, of i nm' k'] n k k0 by auto
  moreover have "i = j \<and> nm1 = nm2" if "ref N' i nm1 k'" "ref N' j nm2 k'" for i j nm1 nm2 k'
    using r [OF that(1)] r [OF that(2)] tree_okD(3) [OF t] fresh by blast
  ultimately show ?thesis using z unfolding tree_ok_def by blast
qed

lemma tree_ok_delete:
  assumes t: "tree_ok N" and r: "\<And>i nm' k'. ref N' i nm' k' \<Longrightarrow> ref N i nm' k' \<and> (i = d \<longrightarrow> nm' \<noteq> nm)" and e: "ref N d nm k"
    and n: "\<And>j. j < 64 \<Longrightarrow> j \<noteq> k \<Longrightarrow> N j \<noteq> None \<Longrightarrow> N' j \<noteq> None" and z: "\<exists>es. N' 0 = Some (Dir es)"
  shows "tree_ok N'"
proof -
  have "k' < 64 \<and> N' k' \<noteq> None \<and> k' \<noteq> 0 \<and> k' \<noteq> i" if "ref N' i nm' k'" for i nm' k'
  proof -
    have "k' \<noteq> k" using r [OF that] tree_okD(3) [OF t e] by blast
    then show ?thesis using r [OF that] tree_okD(2) [OF t, of i nm' k'] n by blast
  qed
  moreover have "i = j \<and> nm1 = nm2" if "ref N' i nm1 k'" "ref N' j nm2 k'" for i j nm1 nm2 k'
    using r [OF that(1)] r [OF that(2)] tree_okD(3) [OF t] by blast
  ultimately show ?thesis using z unfolding tree_ok_def by blast
qed

text \<open>Nodes that are not directories, or whose entries are the dot entries, refer to nothing.\<close>

lemma dot_entries_plain: "\<not> plain nm" if "dot_entries k d es" and "(nm, k') \<in> set es"
proof -
  have l: "length es = Suc (Suc 0)" and m: "(DOT, k) \<in> set es" "(DOTDOT, d) \<in> set es"
    using that(1) by (simp_all add: dot_entries_def map_of_SomeD)
  obtain a b where ab: "es = [a, b]" using l by (auto simp: length_Suc_conv)
  have "DOT \<noteq> DOTDOT" by (simp add: DOT_def DOTDOT_def)
  moreover have "DOT \<in> {fst a, fst b}" "DOTDOT \<in> {fst a, fst b}" "nm \<in> {fst a, fst b}"
    using m that(2) ab by (metis fst_conv insert_iff list.set(1) list.set(2) singletonD)+
  ultimately show ?thesis by (auto simp: plain_def)
qed

lemma created_refs:
  assumes "created D d k t n"
  shows "n \<noteq> None" and "n = Some (Dir es) \<Longrightarrow> (nm, k') \<in> set es \<Longrightarrow> \<not> plain nm"
proof -
  show "n \<noteq> None" using assms by (auto simp: created_def split: if_splits)
  assume e: "n = Some (Dir es)" "(nm, k') \<in> set es"
  then have "dot_entries k d es" using assms by (auto simp: created_def split: if_splits)
  then show "\<not> plain nm" by (rule dot_entries_plain) (rule e(2))
qed
text \<open>Capacity: 64 inodes of 14 blocks cannot use up the 2048 data blocks, and a directory's entries, all to
  different inodes but for the dots, cannot fill its 14 blocks. So allocation of a block and growth of a
  directory never fail.\<close>

lemma never_full: assumes "fs_ok D" shows "\<not> disk_full D"
proof
  assume f: "disk_full D"
  have "card (bidx ` set (owned D i)) \<le> 14" if "i < 64" for i
  proof -
    have "card (bidx ` set (owned D i)) \<le> length (owned D i)" using card_image_le [of "set (owned D i)" bidx] card_length [of "owned D i"] by force
    moreover have "length (owned D i) \<le> 14" using fs_okD(2) [OF assms that] by (simp add: inode_ok_def)
    ultimately show ?thesis by simp
  qed
  then have "(\<Sum>i < 64. card (bidx ` set (owned D i))) \<le> (\<Sum>i < (64 :: nat). 14)" by (intro sum_mono) auto
  moreover have "card (used D) \<le> (\<Sum>i < 64. card (bidx ` set (owned D i)))"
    unfolding fs_okD(4) [OF assms] by (rule card_UN_le) simp
  ultimately show False using f by (simp add: disk_full_def)
qed

lemma dir_small:
  assumes "fs_ok D" and "tree_ok (node D)" and "i < 64" and "node D i = Some (Dir es)"
  shows "length es \<le> 66"
proof -
  have d: "distinct (map fst es)"
    using assms(4) fs_okD(2) [OF assms(1,3)] by (auto simp: node_of_def inode_ok_def split: if_splits)
  let ?P = "filter (\<lambda>e. plain (fst e)) es" and ?Q = "filter (\<lambda>e. \<not> plain (fst e)) es"
  have r: "ref (node D) i (fst e) (snd e)" if "e \<in> set ?P" for e using that assms(3,4) by (simp add: ref_def)
  have "distinct ?P" using d by (simp add: distinct_map)
  moreover have "inj_on snd (set ?P)"
  proof (rule inj_onI)
    fix x y assume xy: "x \<in> set ?P" "y \<in> set ?P" "snd x = snd y"
    then have "fst x = fst y" using tree_okD(3) [OF assms(2) r [OF xy(1)]] r [OF xy(2)] by simp
    then show "x = y" using xy(3) by (simp add: prod_eq_iff)
  qed
  ultimately have "distinct (map snd ?P)" by (simp add: distinct_map)
  moreover have "set (map snd ?P) \<subseteq> {..<64}" using tree_okD(2) [OF assms(2) r] by auto
  ultimately have p: "length ?P \<le> 64" using card_mono [of "{..<64}" "set (map snd ?P)"] distinct_card by fastforce
  have "distinct (map fst ?Q)" using d by (simp add: distinct_map_filter)
  moreover have "set (map fst ?Q) \<subseteq> {DOT, DOTDOT}" by (auto simp: plain_def)
  ultimately have "length ?Q \<le> card {DOT, DOTDOT}" using card_mono [of "{DOT, DOTDOT}" "set (map fst ?Q)"] distinct_card by fastforce
  then have "length ?Q \<le> 2" by (simp add: DOT_def DOTDOT_def)
  then show ?thesis using p sum_length_filter_compl [of "\<lambda>e. plain (fst e)" es] by simp
qed

lemma create_succeeds:
  assumes "create_post D dir es name t r D'" and "fs_ok D" and "tree_ok (node D)" and "dir < 64" and "node D dir = Some (Dir es)"
    and "name \<notin> fst ` set es" and "k0 < 64" and "node D k0 = None"
  shows "\<exists>k < 64. r = int k \<and> node D k = None \<and> (if t = 1 then node D' k = Some (File []) else \<exists>ks. node D' k = Some (Dir ks) \<and> dot_entries k dir ks)
    \<and> (\<forall>j < 64. j \<noteq> k \<and> j \<noteq> dir \<longrightarrow> node D' j = node D j)
    \<and> (\<exists>xs ys. es = xs @ ys \<and> node D' dir = Some (Dir (xs @ (take 27 name, k) # ys)))"
proof -
  have "\<not> (name \<in> fst ` set es \<or> (\<forall>k < 64. node D k \<noteq> None))" using assms(6-8) by blast
  from assms(1) [unfolded create_post_def if_not_P [OF this]] obtain k where k: "fs_ok D'" "k < 64" "node D k = None" "created D dir k t (node D' k)"
    "\<forall>j < 64. j \<noteq> k \<and> j \<noteq> dir \<longrightarrow> node D' j = node D j"
    "r = int k \<and> (\<exists>xs ys. es = xs @ ys \<and> node D' dir = Some (Dir (xs @ (take 27 name, k) # ys)))
       \<or> r = - 1 \<and> node D' dir = Some (Dir es) \<and> dir_full D' dir" by blast
  have "\<not> (node D' dir = Some (Dir es) \<and> dir_full D' dir)"
  proof
    assume "node D' dir = Some (Dir es) \<and> dir_full D' dir"
    then have "length es = 224" using never_full [OF k(1)] by (auto simp: node_of_def dir_full_def split: if_splits)
    then show False using dir_small [OF assms(2,3,4,5)] by simp
  qed
  then show ?thesis using k never_full [OF assms(2)] by (intro exI [of _ k]) (auto simp: created_def)
qed

lemma tree_ok_create:
  assumes t: "tree_ok (node D)" and p: "create_post D dir es name ty r D'" and n: "node D dir = Some (Dir es)" and d: "dir < 64"
  shows "tree_ok (node D')"
proof (cases "name \<in> fst ` set es \<or> (\<forall>k < 64. node D k \<noteq> None)")
  case True
  then have "D' = D" using p by (auto simp: create_post_def)
  then show ?thesis using t by simp
next
  case False
  then obtain k where k: "k < 64" "node D k = None" and c: "created D dir k ty (node D' k)"
    and o: "\<forall>j < 64. j \<noteq> k \<and> j \<noteq> dir \<longrightarrow> node D' j = node D j"
    and e: "(\<exists>xs ys. es = xs @ ys \<and> node D' dir = Some (Dir (xs @ (take 27 name, k) # ys))) \<or> node D' dir = Some (Dir es)"
    using p unfolding create_post_def if_not_P [OF False] by blast
  have dk: "dir \<noteq> k" using n k(2) by auto
  have "\<exists>es'. node D' dir = Some (Dir es') \<and> set es' \<subseteq> insert (take 27 name, k) (set es)" using e by fastforce
  then obtain es' where es': "node D' dir = Some (Dir es')" "set es' \<subseteq> insert (take 27 name, k) (set es)" by blast
  show ?thesis
  proof (rule tree_ok_insert [OF t _ k(2,1) dk])
    fix i nm' k'
    assume "ref (node D') i nm' k'"
    then obtain fs where i: "i < 64" "plain nm'" and fs: "node D' i = Some (Dir fs)" "(nm', k') \<in> set fs" unfolding ref_def by blast
    have "i \<noteq> k" using created_refs(2) [OF c, of fs nm' k'] fs i(2) by blast
    then show "ref (node D) i nm' k' \<or> i = dir \<and> nm' = take 27 name \<and> k' = k"
    proof (cases "i = dir")
      case True
      then have "fs = es'" using fs(1) es'(1) by simp
      then have "(nm', k') \<in> set es \<or> (nm', k') = (take 27 name, k)" using es'(2) fs(2) by blast
      then show ?thesis using True n i by (auto simp: ref_def)
    next
      case False
      then have "node D i = Some (Dir fs)" using o i(1) \<open>i \<noteq> k\<close> fs(1) by simp
      then show ?thesis using fs(2) i by (auto simp: ref_def)
    qed
  next
    show "node D' k \<noteq> None" by (rule created_refs(1) [OF c])
    show "node D' j \<noteq> None" if "j < 64" "node D j \<noteq> None" for j
      using that o es'(1) k(2) by (cases "j = dir"; cases "j = k") auto
    have "0 \<noteq> k" using tree_okD(1) [OF t] k(2) by (metis option.distinct(1))
    then show "\<exists>es. node D' 0 = Some (Dir es)" using tree_okD(1) [OF t] o es'(1) by (cases "dir = 0") auto
  qed
qed

lemma tree_ok_unlink:
  assumes t: "tree_ok (node D)" and p: "unlink_post D dir es name r D'" and n: "node D dir = Some (Dir es)" and d: "dir < 64"
    and nm: "plain name" and u: "distinct (map fst es)"
  shows "tree_ok (node D')"
proof (cases "D' = D")
  case True
  then show ?thesis using t by simp
next
  case False
  then obtain k xs ys where k: "map_of es name = Some k" and nk: "node D' k = None"
    and o: "\<forall>j < 64. j \<noteq> k \<and> j \<noteq> dir \<longrightarrow> node D' j = node D j"
    and e: "es = xs @ (name, k) # ys" "node D' dir = Some (Dir (xs @ ys))"
    using p unfolding unlink_post_def by (auto split: option.splits if_splits)
  have rk: "ref (node D) dir name k" using d nm n map_of_SomeD [OF k] by (auto simp: ref_def)
  note k' = tree_okD(2) [OF t rk]
  show ?thesis
  proof (rule tree_ok_delete [OF t _ rk])
    fix i nm' k'
    assume "ref (node D') i nm' k'"
    then obtain fs where i: "i < 64" "plain nm'" and fs: "node D' i = Some (Dir fs)" "(nm', k') \<in> set fs" unfolding ref_def by blast
    have "i \<noteq> k" using fs(1) nk by auto
    show "ref (node D) i nm' k' \<and> (i = dir \<longrightarrow> nm' \<noteq> name)"
    proof (cases "i = dir")
      case True
      then have "fs = xs @ ys" using fs(1) e(2) by simp
      moreover have "name \<notin> fst ` set (xs @ ys)" using u e(1) by auto
      ultimately have "nm' \<noteq> name" using fs(2) by (metis fst_conv image_eqI)
      moreover have "(nm', k') \<in> set es" using fs(2) e(1) \<open>fs = xs @ ys\<close> by auto
      ultimately have "nm' \<noteq> name" "(nm', k') \<in> set es" .
      then show ?thesis using True n i by (auto simp: ref_def)
    next
      case False
      then have "node D i = Some (Dir fs)" using o i(1) \<open>i \<noteq> k\<close> fs(1) by simp
      then show ?thesis using fs(2) i False by (auto simp: ref_def)
    qed
  next
    show "node D' j \<noteq> None" if "j < 64" "j \<noteq> k" "node D j \<noteq> None" for j using that o e(2) by (cases "j = dir") auto
    show "\<exists>es. node D' 0 = Some (Dir es)" using tree_okD(1) [OF t] o e(2) k' by (cases "dir = 0") auto
  qed
qed

lemma tree_ok_write:
  assumes t: "tree_ok (node D)" and o: "others i D D'" and n: "node D i = Some (File a)" "node D' i = Some (File b)"
  shows "tree_ok (node D')"
proof -
  have e: "node D' j = node D j" if "j < 64" "j \<noteq> i" for j using o that by (simp add: others_def)
  have r: "ref (node D') j nm k \<longleftrightarrow> ref (node D) j nm k" for j nm k
    unfolding ref_def using e [of j] n by (cases "j = i"; cases "j < 64") simp_all
  have s: "node D' j \<noteq> None \<longleftrightarrow> node D j \<noteq> None" if "j < 64" for j using e [OF that] n by (cases "j = i") auto
  have "\<exists>es. node D' 0 = Some (Dir es)" using tree_okD(1) [OF t] e [of 0] n by (cases "i = 0") auto
  then show ?thesis unfolding tree_ok_def r using t s unfolding tree_ok_def by blast
qed

section \<open>Histories of calls\<close>

datatype sfs_call = Create nat "u8 list" int | Write nat "u8 list" u32 | Read nat u32 | Unlink nat "u8 list"
  | Lookup nat "u8 list" | Readdir nat nat | Sync

fun sfs_exec :: "'d io \<Rightarrow> sfs_call \<Rightarrow> 'd bcache \<Rightarrow> 'd bcache option" where
  "sfs_exec io (Create dir name t) s = map_option snd (sfs_create (cache_layer io) (int dir) name t s)"
| "sfs_exec io (Write i data len) s = map_option snd (sfs_write (cache_layer io) (int i) data len s)"
| "sfs_exec io (Read i mx) s = map_option snd (sfs_read (cache_layer io) (int i) mx s)"
| "sfs_exec io (Unlink dir name) s = map_option snd (sfs_unlink (cache_layer io) (int dir) name s)"
| "sfs_exec io (Lookup dir name) s = map_option snd (sfs_lookup (cache_layer io) (int dir) name s)"
| "sfs_exec io (Readdir dir j) s = map_option snd (sfs_readdir (cache_layer io) (int dir) (int j) s)"
| "sfs_exec io Sync s = bcache_sync io s"

text \<open>What callers see to: inode numbers come from earlier calls and are of the right kind, names are at most
  27 bytes, the buffer holds the bytes to write.\<close>

definition is_dir :: "disk \<Rightarrow> nat \<Rightarrow> bool" where
  "is_dir D i \<longleftrightarrow> i < 64 \<and> (\<exists>es. node D i = Some (Dir es))"

definition is_file :: "disk \<Rightarrow> nat \<Rightarrow> bool" where
  "is_file D i \<longleftrightarrow> i < 64 \<and> (\<exists>bs. node D i = Some (File bs))"

fun call_ok :: "disk \<Rightarrow> sfs_call \<Rightarrow> bool" where
  "call_ok D (Create dir name t) \<longleftrightarrow> is_dir D dir \<and> 0 \<notin> set name \<and> length name \<le> 27 \<and> (t = 1 \<or> t = 2)"
| "call_ok D (Write i data len) \<longleftrightarrow> is_file D i \<and> unat len \<le> length data"
| "call_ok D (Read i mx) \<longleftrightarrow> is_file D i"
| "call_ok D (Unlink dir name) \<longleftrightarrow> is_dir D dir \<and> 0 \<notin> set name"
| "call_ok D (Lookup dir name) \<longleftrightarrow> is_dir D dir \<and> 0 \<notin> set name"
| "call_ok D (Readdir dir j) \<longleftrightarrow> is_dir D dir"
| "call_ok D Sync \<longleftrightarrow> True"

text \<open>The states of a kernel that formatted a blank disk and ran any number of calls.\<close>

inductive sfs_reach :: "'d io \<Rightarrow> ('d \<Rightarrow> bool) \<Rightarrow> ('d \<Rightarrow> disk) \<Rightarrow> 'd bcache \<Rightarrow> bool"
  for io :: "'d io" and good :: "'d \<Rightarrow> bool" and sec :: "'d \<Rightarrow> disk" where
  mount: "good d \<Longrightarrow> get32 (sec d 0) 0 \<noteq> SFS_MAGIC \<Longrightarrow>
    sfs_init (cache_layer io) (bcache_init (cold_cache d)) = Some s \<Longrightarrow> sfs_reach io good sec s"
| call: "sfs_reach io good sec s \<Longrightarrow> call_ok (blocks sec s) c \<Longrightarrow> sfs_exec io c s = Some s' \<Longrightarrow> sfs_reach io good sec s'"

definition sfs_inv :: "disk \<Rightarrow> bool" where
  "sfs_inv D \<longleftrightarrow> fs_ok D \<and> tree_ok (node D) \<and> D 0 = superblock"

lemma wp_map_option: "wp m P \<Longrightarrow> (\<And>x. P x \<Longrightarrow> Q (g x)) \<Longrightarrow> wp (map_option g m) Q"
  by (auto simp: wp_def)

context sfs_disk
begin

lemma unlink_dots:
  assumes "\<not> plain name"
  shows "sfs_unlink (cache_layer io) (int dir) name s = Some (- 1, s)"
proof -
  have "name = DOT \<or> name = DOTDOT" using assms by (simp add: plain_def)
  then have "strcmp_l (name @ [0]) (DOT @ [0]) = Some 0 \<or> strcmp_l (name @ [0]) (DOTDOT @ [0]) = Some 0"
    using fs.dot_names by (auto simp: fs.strcmp_l_eq)
  then show ?thesis by (simp add: sfs_unlink_def)
qed

text \<open>Every call returns and keeps the invariant.\<close>

lemma exec_keeps:
  assumes s: "fs.at D s" and i: "sfs_inv D" and c: "call_ok D c"
  shows "wp (sfs_exec io c s) (\<lambda>s'. \<exists>D'. fs.at D' s' \<and> sfs_inv D')"
proof -
  have ok: "fs_ok D" and t: "tree_ok (node D)" and z: "D 0 = superblock" using i by (auto simp: sfs_inv_def)
  show ?thesis
  proof (cases c)
    case (Create dir name ty)
    then obtain es where h: "dir < 64" "node D dir = Some (Dir es)" "0 \<notin> set name" "take 27 name \<notin> fst ` set es \<or> name \<in> fst ` set es"
      "ty = 1 \<or> ty = 2" using c by (auto simp: is_dir_def)
    show ?thesis unfolding Create sfs_exec.simps
    proof (rule wp_map_option [OF fs.sfs_create_wp [OF s ok h]])
      fix x assume "case x of (r, s') \<Rightarrow> \<exists>D'. fs.at D' s' \<and> create_post D dir es name ty r D'"
      then obtain D' where D': "fs.at D' (snd x)" "create_post D dir es name ty (fst x) D'" by (auto simp: split_beta)
      then show "\<exists>D'. fs.at D' (snd x) \<and> sfs_inv D'"
        using tree_ok_create [OF t D'(2) h(2,1)] z by (auto simp: sfs_inv_def create_post_def)
    qed
  next
    case (Write i data len)
    then obtain bs where h: "i < 64" "node D i = Some (File bs)" "unat len \<le> length data" using c by (auto simp: is_file_def)
    show ?thesis unfolding Write sfs_exec.simps
    proof (rule wp_map_option [OF fs.sfs_write_wp [OF s ok h]], clarify)
      fix r s' D' w
      assume "fs.at D' s'" "fs_ok D'" "others i D D'" "D' 0 = D 0" "node D' i = Some (File (take w data))"
      then show "\<exists>D'. fs.at D' (snd (int w, s')) \<and> sfs_inv D'"
        using tree_ok_write [OF t _ h(2)] z by (auto simp: sfs_inv_def)
    qed
  next
    case (Read i mx)
    then obtain bs where h: "i < 64" "node D i = Some (File bs)" using c by (auto simp: is_file_def)
    show ?thesis unfolding Read sfs_exec.simps
      by (rule wp_map_option [OF fs.sfs_read_wp [OF s ok h]]) (use i in auto)
  next
    case (Unlink dir name)
    then obtain es where h: "dir < 64" "node D dir = Some (Dir es)" "0 \<notin> set name" using c by (auto simp: is_dir_def)
    show ?thesis
    proof (cases "plain name")
      case True
      then have p: "name \<noteq> DOT" "name \<noteq> DOTDOT" by (auto simp: plain_def)
      have ns: "map_of es name \<noteq> Some dir"
        using tree_okD(2) [OF t, of dir name dir] h(1,2) True by (auto simp: ref_def dest: map_of_SomeD)
      show ?thesis unfolding Unlink sfs_exec.simps
      proof (rule wp_map_option [OF fs.sfs_unlink_wp [OF s ok h p ns]])
        fix x assume "case x of (r, s') \<Rightarrow> \<exists>D'. fs.at D' s' \<and> unlink_post D dir es name r D'"
        then obtain D' where D': "fs.at D' (snd x)" "unlink_post D dir es name (fst x) D'" by (auto simp: split_beta)
        then show "\<exists>D'. fs.at D' (snd x) \<and> sfs_inv D'"
          using tree_ok_unlink [OF t D'(2) h(2,1) True fs.dir_inode(7) [OF ok h(1,2)]] z by (auto simp: sfs_inv_def unlink_post_def)
      qed
    next
      case False
      then show ?thesis using s i by (auto simp: Unlink unlink_dots)
    qed
  next
    case (Lookup dir name)
    then obtain es where h: "dir < 64" "node D dir = Some (Dir es)" "0 \<notin> set name" using c by (auto simp: is_dir_def)
    show ?thesis unfolding Lookup sfs_exec.simps
      by (rule wp_map_option [OF fs.sfs_lookup_wp [OF s ok h]]) (use i in auto)
  next
    case (Readdir dir j)
    then obtain es where h: "dir < 64" "node D dir = Some (Dir es)" using c by (auto simp: is_dir_def)
    show ?thesis unfolding Readdir sfs_exec.simps
      by (rule wp_map_option [OF fs.sfs_readdir_wp [OF s ok h]]) (use i in auto)
  next
    case Sync
    have "bc_ok good sec cap s" "blocks sec s = D" using s by (auto simp: fs.at_def)
    then show ?thesis using bcache_sync_returns [of s] i by (auto simp: Sync wp_def fs.at_def)
  qed
qed

lemma cold_at: "good d \<Longrightarrow> fs.at (sec d) (bcache_init (cold_cache d))"
  using bcache_init_boot [of "cold_cache d"] by (simp add: fs.at_def cold_cache_def)

lemma tree_ok_formatted:
  assumes "node D 0 = Some (Dir es)" and "dot_entries 0 0 es" and "\<forall>j < 64. j \<noteq> 0 \<longrightarrow> node D j = None"
  shows "tree_ok (node D)"
proof -
  have p: "\<not> plain nm" if "(nm, k) \<in> set es" for nm k using assms(2) that by (rule dot_entries_plain)
  have "\<not> ref (node D) i nm k" for i nm k using assms(1,3) p by (cases "i = 0") (auto simp: ref_def)
  then show ?thesis using assms(1) by (auto simp: tree_ok_def)
qed

lemma mount_blank:
  assumes "good d" and "get32 (sec d 0) 0 \<noteq> SFS_MAGIC"
  shows "wp (sfs_init (cache_layer io) (bcache_init (cold_cache d))) (\<lambda>s. \<exists>D es. fs.at D s \<and> sfs_inv D \<and> node D 0 = Some (Dir es)
    \<and> dot_entries 0 0 es \<and> (\<forall>j < 64. j \<noteq> 0 \<longrightarrow> node D j = None))"
  by (rule wp_mono [OF fs.sfs_init_wp [OF cold_at [OF assms(1)]]]) (use assms(2) tree_ok_formatted in \<open>auto simp: sfs_inv_def\<close>)

lemma reach_inv:
  assumes "sfs_reach io good sec s"
  shows "fs.at (blocks sec s) s \<and> sfs_inv (blocks sec s)"
  using assms
proof (induction rule: sfs_reach.induct)
  case (mount d s)
  from wpD [OF mount_blank [OF mount(1,2)] mount(3)] show ?case by (auto simp: fs.at_def)
next
  case (call s c s')
  then have "wp (sfs_exec io c s) (\<lambda>s'. \<exists>D'. fs.at D' s' \<and> sfs_inv D')" by (intro exec_keeps) auto
  from wpD [OF this call(3)] show ?case by (auto simp: fs.at_def)
qed

lemma superblock_magic: "get32 superblock 0 = SFS_MAGIC"
  by (simp add: superblock_def put_at_def get32_le32_Cons)

text \<open>A remount after a sync finds the same disk.\<close>

lemma remount:
  assumes "fs.at D s" and "D 0 = superblock"
  shows "wp (do { s \<leftarrow> bcache_sync io s; sfs_init (cache_layer io) (bcache_init (cold_cache (dev s))) }) (fs.at D)"
proof -
  have k: "bc_ok good sec cap s" "blocks sec s = D" using assms(1) by (auto simp: fs.at_def)
  from bcache_sync_returns [OF k(1)] obtain s1 where s1: "bcache_sync io s = Some s1" "good (dev s1)" "sec (dev s1) = D"
    using k(2) by (auto simp: bc_ok_def)
  have "fs.at D (bcache_init (cold_cache (dev s1)))" using cold_at [OF s1(2)] s1(3) by simp
  from fs.sfs_init_wp [OF this] assms(2) superblock_magic show ?thesis by (simp add: s1(1))
qed

text \<open>The facts behind the properties, in terms of the state alone.\<close>

lemma at_iff: "fs.at D s \<longleftrightarrow> bc_ok good sec cap s \<and> D = blocks sec s"
  by (auto simp: fs.at_def)

lemma wp_at: "wp m (\<lambda>(r, s'). \<exists>D'. fs.at D' s' \<and> P r D') \<Longrightarrow>
    \<exists>r s'. m = Some (r, s') \<and> bc_ok good sec cap s' \<and> P r (blocks sec s')"
  by (auto simp: wp_def at_iff)

lemma history:
  assumes "sfs_reach io good sec s"
  shows "mounted good sec cap s \<and> sfs_inv (blocks sec s) \<and> (call_ok (blocks sec s) c \<longrightarrow> (\<exists>s'. sfs_exec io c s = Some s'))"
  using reach_inv [OF assms] exec_keeps [of "blocks sec s" s c] by (auto simp: at_iff sfs_inv_def wp_def)

lemma write_read:
  assumes "mounted good sec cap s" and "i < 64" and "node (blocks sec s) i = Some (File old)" and "unat len \<le> length data"
  shows "\<exists>s1. sfs_write (cache_layer io) (int i) data len s = Some (int (min (unat len) 7168), s1) \<and> mounted good sec cap s1
    \<and> others i (blocks sec s) (blocks sec s1) \<and> node (blocks sec s1) i = Some (File (take (min (unat len) 7168) data))
    \<and> (\<exists>s2. sfs_read (cache_layer io) (int i) mx s1 =
           Some ((int (min (min (unat len) 7168) (unat mx)), take (min (min (unat len) 7168) (unat mx)) data), s2) \<and> blocks sec s2 = blocks sec s1)"
proof -
  have a: "fs.at (blocks sec s) s" and ok: "fs_ok (blocks sec s)" using assms(1) by (auto simp: at_iff)
  from fs.sfs_write_wp [OF a ok assms(2-4)] obtain w s1 where
    s1: "sfs_write (cache_layer io) (int i) data len s = Some (int w, s1)" "bc_ok good sec cap s1" "fs_ok (blocks sec s1)"
      "others i (blocks sec s) (blocks sec s1)" "w \<le> min (unat len) 7168" "w < min (unat len) 7168 \<longrightarrow> disk_full (blocks sec s1)"
      "node (blocks sec s1) i = Some (File (take w data))" by (auto simp: wp_def at_iff)
  have a1: "fs.at (blocks sec s1) s1" using s1(2) by (simp add: at_iff)
  have w: "w = min (unat len) 7168" using s1(5,6) never_full [OF s1(3)] by linarith
  have "min (length data) (min w (unat mx)) = min w (unat mx)" using s1(5) assms(4) by linarith
  with fs.sfs_read_wp [OF a1 s1(3) assms(2) s1(7), of mx] s1 show ?thesis
    unfolding w [symmetric] by (auto simp: wp_def at_iff min.commute)
qed

lemma create_lookup:
  assumes "mounted good sec cap s" and "dir < 64" and "node (blocks sec s) dir = Some (Dir es)" and "0 \<notin> set name"
    and "take 27 name \<notin> fst ` set es \<or> name \<in> fst ` set es" and "t = 1 \<or> t = 2"
  shows "\<exists>r s1. sfs_create (cache_layer io) (int dir) name t s = Some (r, s1) \<and> bc_ok good sec cap s1
    \<and> create_post (blocks sec s) dir es name t r (blocks sec s1)
    \<and> (0 \<le> r \<longrightarrow> (\<exists>s2. sfs_lookup (cache_layer io) (int dir) name s1 = Some (if length name \<le> 27 then r else - 1, s2)))"
proof -
  have a: "fs.at (blocks sec s) s" and ok: "fs_ok (blocks sec s)" using assms(1) by (auto simp: at_iff)
  from wp_at [OF fs.sfs_create_wp [OF a ok assms(2-)]] obtain r s1 where
    s1: "sfs_create (cache_layer io) (int dir) name t s = Some (r, s1)" "bc_ok good sec cap s1"
      "create_post (blocks sec s) dir es name t r (blocks sec s1)" by blast
  have "\<exists>s2. sfs_lookup (cache_layer io) (int dir) name s1 = Some (if length name \<le> 27 then r else - 1, s2)" if "0 \<le> r"
  proof -
    have a1: "fs.at (blocks sec s1) s1" using s1(2) by (simp add: at_iff)
    have ok1: "fs_ok (blocks sec s1)" using s1(3) by (simp add: create_post_def)
    from s1(3) that obtain k xs ys where k: "r = int k" "es = xs @ ys" and n: "name \<notin> fst ` set es"
      and nd: "node (blocks sec s1) dir = Some (Dir (xs @ (take 27 name, k) # ys))" unfolding create_post_def by (auto split: if_splits)
    have "map_of (xs @ (take 27 name, k) # ys) name = (if length name \<le> 27 then Some k else None)"
    proof -
      have "map_of xs name = None" "map_of ys name = None" using n k(2) by (auto simp: map_of_eq_None_iff)
      moreover have "name = take 27 name \<longleftrightarrow> length name \<le> 27" by (metis length_take min.cobounded2 take_all)
      ultimately show ?thesis by (auto simp: map_add_def)
    qed
    then show ?thesis using fs.sfs_lookup_wp [OF a1 ok1 assms(2) nd assms(4)] k(1) by (auto simp: wp_def)
  qed
  then show ?thesis using s1 by blast
qed

lemma unlink_lookup:
  assumes "mounted good sec cap s" and "tree_ok (node (blocks sec s))" and "dir < 64"
    and "node (blocks sec s) dir = Some (Dir es)" and "0 \<notin> set name" and "plain name"
  shows "\<exists>r s1. sfs_unlink (cache_layer io) (int dir) name s = Some (r, s1) \<and> bc_ok good sec cap s1
    \<and> unlink_post (blocks sec s) dir es name r (blocks sec s1)
    \<and> (r = 0 \<longrightarrow> (\<exists>s2. sfs_lookup (cache_layer io) (int dir) name s1 = Some (- 1, s2)))"
proof -
  have a: "fs.at (blocks sec s) s" and ok: "fs_ok (blocks sec s)" using assms(1) by (auto simp: at_iff)
  have p: "name \<noteq> DOT" "name \<noteq> DOTDOT" using assms(6) by (auto simp: plain_def)
  have ns: "map_of es name \<noteq> Some dir"
    using tree_okD(2) [OF assms(2), of dir name dir] assms(3,4,6) by (auto simp: ref_def dest: map_of_SomeD)
  from wp_at [OF fs.sfs_unlink_wp [OF a ok assms(3-5) p ns]] obtain r s1 where
    s1: "sfs_unlink (cache_layer io) (int dir) name s = Some (r, s1)" "bc_ok good sec cap s1"
      "unlink_post (blocks sec s) dir es name r (blocks sec s1)" by blast
  have "\<exists>s2. sfs_lookup (cache_layer io) (int dir) name s1 = Some (- 1, s2)" if "r = 0"
  proof -
    have a1: "fs.at (blocks sec s1) s1" using s1(2) by (simp add: at_iff)
    have ok1: "fs_ok (blocks sec s1)" using s1(3) by (simp add: unlink_post_def)
    from s1(3) that obtain k xs ys where e: "es = xs @ (name, k) # ys" and nd: "node (blocks sec s1) dir = Some (Dir (xs @ ys))"
      unfolding unlink_post_def by (auto split: option.splits if_splits)
    have "name \<notin> fst ` set (xs @ ys)" using fs.dir_inode(7) [OF ok assms(3,4)] e by auto
    then have "map_of (xs @ ys) name = None" unfolding map_of_eq_None_iff .
    then show ?thesis using fs.sfs_lookup_wp [OF a1 ok1 assms(3) nd assms(5)] by (auto simp: wp_def map_add_def)
  qed
  then show ?thesis using s1 by blast
qed

lemma readdir_lists:
  assumes "mounted good sec cap s" and "dir < 64" and "node (blocks sec s) dir = Some (Dir es)"
  shows "\<exists>s1. sfs_readdir (cache_layer io) (int dir) (int j) s =
      Some (if j < length es then (int (snd (es ! j)), Some (fst (es ! j))) else (- 1, None), s1) \<and> blocks sec s1 = blocks sec s"
  using fs.sfs_readdir_wp [of "blocks sec s" s dir es j] assms by (auto simp: wp_def at_iff)

lemma reboot:
  assumes "mounted good sec cap s" and "blocks sec s 0 = superblock"
  shows "\<exists>s1 s2. bcache_sync io s = Some s1 \<and> sfs_init (cache_layer io) (bcache_init (cold_cache (dev s1))) = Some s2
    \<and> bc_ok good sec cap s2 \<and> blocks sec s2 = blocks sec s"
  using remount [of "blocks sec s" s] assms by (auto simp: wp_def at_iff bind_eq_Some_conv)

lemma mount:
  assumes "good d"
  shows "\<exists>s. sfs_init (cache_layer io) (bcache_init (cold_cache d)) = Some s \<and> bc_ok good sec cap s \<and>
    (if get32 (sec d 0) 0 = SFS_MAGIC then blocks sec s = sec d
     else fs_ok (blocks sec s) \<and> blocks sec s 0 = superblock \<and> (\<forall>j < 64. j \<noteq> 0 \<longrightarrow> node (blocks sec s) j = None)
       \<and> (\<exists>es. node (blocks sec s) 0 = Some (Dir es) \<and> dot_entries 0 0 es))"
  using fs.sfs_init_wp [OF cold_at [OF assms]] by (auto simp: wp_def at_iff split: if_splits)

end

section \<open>Properties\<close>

text \<open>The state after mounting the simulated blank disk, for the witnesses.\<close>

lemma sim_mounted:
  "\<exists>s es. sfs_init (cache_layer sim_io) (bcache_init (cold_cache sim_blank)) = Some s
     \<and> mounted (\<lambda>d. s_phase d = Ready) sim_sec 32768 s \<and> sfs_inv (blocks sim_sec s) \<and> node (blocks sim_sec s) 0 = Some (Dir es)
     \<and> dot_entries 0 0 es \<and> node (blocks sim_sec s) 1 = None"
proof -
  have m: "get32 (sim_sec sim_blank 0) 0 \<noteq> SFS_MAGIC" by (simp add: sim_sec_def sim_blank_def get32_def)
  have "s_phase sim_blank = Ready" by (simp add: sim_blank_def)
  from simfs.mount_blank [OF this m] show ?thesis by (auto simp: wp_def simfs.fs.at_def sfs_inv_def)
qed

lemma create_post_new:
  assumes "create_post D dir es name t r D'" and "name \<notin> fst ` set es" and "node D k0 = None" and "k0 < 64"
  shows "\<exists>k < 64. created D dir k t (node D' k)"
proof -
  have "\<not> (name \<in> fst ` set es \<or> (\<forall>k < 64. node D k \<noteq> None))" using assms(2-4) by blast
  from assms(1) [unfolded create_post_def if_not_P [OF this]] show ?thesis by blast
qed

lemma sim_file:
  "\<exists>s i. mounted (\<lambda>d. s_phase d = Ready) sim_sec 32768 s \<and> i < 64 \<and> node (blocks sim_sec s) i = Some (File [])"
proof -
  from sim_mounted obtain s es where s: "mounted (\<lambda>d. s_phase d = Ready) sim_sec 32768 s" "node (blocks sim_sec s) 0 = Some (Dir es)"
    "dot_entries 0 0 es" "node (blocks sim_sec s) 1 = None" by blast
  have "plain [65]" by (simp add: plain_def DOT_def DOTDOT_def)
  then have n: "[65] \<notin> fst ` set es" using dot_entries_plain [OF s(3)] by fastforce
  from simfs.create_lookup [OF s(1) _ s(2), of "[65]" 1] n obtain r s1 where
    "bc_ok (\<lambda>d. s_phase d = Ready) sim_sec 32768 s1" "create_post (blocks sim_sec s) 0 es [65] 1 r (blocks sim_sec s1)" by auto
  with create_post_new [OF this(2) n s(4)] show ?thesis by (auto simp: create_post_def created_def)
qed

text \<open>C3. In every history of calls after formatting a blank disk, with arguments of the right kind, every call
  returns, the disk stays consistent (each data block has at most one owner, the bitmap is exactly the
  set of owned blocks, names are terminated, distinct and in range), no entry dangles and no inode has
  two names, and the root directory exists.\<close>

theorem sfs_history_safe:
  assumes "sfs_disk io good sec cap" and "sfs_reach io good sec s"
  shows "bc_ok good sec cap s \<and> fs_ok (blocks sec s) \<and> tree_ok (node (blocks sec s))
    \<and> (\<forall>c. call_ok (blocks sec s) c \<longrightarrow> (\<exists>s'. sfs_exec io c s = Some s'))"
  using sfs_disk.history [OF assms] by (auto simp: sfs_inv_def)

theorem sfs_history_safe_witness:
  "\<exists>s. sfs_reach sim_io (\<lambda>d. s_phase d = Ready) sim_sec s \<and> fs_ok (blocks sim_sec s) \<and> tree_ok (node (blocks sim_sec s))"
proof -
  from sim_mounted obtain s where s: "sfs_init (cache_layer sim_io) (bcache_init (cold_cache sim_blank)) = Some s" by blast
  have r: "sfs_reach sim_io (\<lambda>d. s_phase d = Ready) sim_sec s"
    by (rule sfs_reach.mount [OF _ _ s]) (simp_all add: sim_blank_def sim_sec_def get32_def)
  from sfs_history_safe [OF simfs.sfs_disk_axioms r] r show ?thesis by blast
qed

text \<open>C8. \<^verbatim>\<open>sfs_write\<close> replaces the contents of a file: on a consistent disk it always succeeds, writes all
  bytes up to the maximum of 7168, changes no other file or directory, and \<^verbatim>\<open>sfs_read\<close> then returns
  exactly the bytes written, cut to the caller's limit.\<close>

theorem sfs_write_read:
  assumes "sfs_disk io good sec cap" and "mounted good sec cap s" and "i < 64"
    and "node (blocks sec s) i = Some (File old)" and "unat len \<le> length data"
  shows "\<exists>s1. sfs_write (cache_layer io) (int i) data len s = Some (int (min (unat len) 7168), s1) \<and> mounted good sec cap s1
    \<and> others i (blocks sec s) (blocks sec s1)
    \<and> (\<exists>s2. sfs_read (cache_layer io) (int i) mx s1 =
           Some ((int (min (min (unat len) 7168) (unat mx)), take (min (min (unat len) 7168) (unat mx)) data), s2)
         \<and> blocks sec s2 = blocks sec s1)"
  using sfs_disk.write_read [OF assms, of mx] by blast

theorem sfs_write_read_witness:
  "\<exists>s i s1 s2. sfs_write (cache_layer sim_io) (int i) [1, 2, 3] 3 s = Some (3, s1)
    \<and> sfs_read (cache_layer sim_io) (int i) 9 s1 = Some ((3, [1, 2, 3]), s2)"
proof -
  from sim_file obtain s i where h: "mounted (\<lambda>d. s_phase d = Ready) sim_sec 32768 s" "i < 64" "node (blocks sim_sec s) i = Some (File [])" by blast
  from sfs_write_read [OF simfs.sfs_disk_axioms h, of 3 "[1, 2, 3]" 9, simplified] show ?thesis by simp blast
qed

text \<open>C18. \<^verbatim>\<open>sfs_create\<close> of a name of at most 27 bytes: it fails, without effect, exactly when the name exists or no
  inode is free; otherwise it sets up an empty file, or a directory with its two dot entries, adds the
  entry, changes nothing else, and a following \<^verbatim>\<open>sfs_lookup\<close> of the name returns the new inode.\<close>

theorem sfs_create_lookup:
  assumes "sfs_disk io good sec cap" and "mounted good sec cap s" and "tree_ok (node (blocks sec s))" and "dir < 64"
    and "node (blocks sec s) dir = Some (Dir es)" and "0 \<notin> set name" and "length name \<le> 27" and "t = 1 \<or> t = 2"
  shows "\<exists>r s1. sfs_create (cache_layer io) (int dir) name t s = Some (r, s1) \<and> mounted good sec cap s1
    \<and> (if name \<in> fst ` set es \<or> (\<forall>k < 64. node (blocks sec s) k \<noteq> None) then r = - 1 \<and> blocks sec s1 = blocks sec s
       else \<exists>k < 64. r = int k \<and> node (blocks sec s) k = None
         \<and> (if t = 1 then node (blocks sec s1) k = Some (File [])
            else \<exists>ks. node (blocks sec s1) k = Some (Dir ks) \<and> dot_entries k dir ks)
         \<and> (\<forall>j < 64. j \<noteq> k \<and> j \<noteq> dir \<longrightarrow> node (blocks sec s1) j = node (blocks sec s) j)
         \<and> (\<exists>xs ys. es = xs @ ys \<and> node (blocks sec s1) dir = Some (Dir (xs @ (name, k) # ys)))
         \<and> (\<exists>s2. sfs_lookup (cache_layer io) (int dir) name s1 = Some (int k, s2)))"
proof -
  let ?D = "blocks sec s"
  have "take 27 name \<notin> fst ` set es \<or> name \<in> fst ` set es" using assms(7) by auto
  from sfs_disk.create_lookup [OF assms(1,2,4,5,6) this assms(8)] assms(7) obtain r s1 where
    r: "sfs_create (cache_layer io) (int dir) name t s = Some (r, s1)" "bc_ok good sec cap s1" "create_post ?D dir es name t r (blocks sec s1)"
    "0 \<le> r \<longrightarrow> (\<exists>s2. sfs_lookup (cache_layer io) (int dir) name s1 = Some (r, s2))" by auto
  have ok: "mounted good sec cap s1" using r(2,3) by (simp add: create_post_def)
  show ?thesis
  proof (cases "name \<in> fst ` set es \<or> (\<forall>k < 64. node ?D k \<noteq> None)")
    case True
    then have "r = - 1 \<and> blocks sec s1 = ?D" using r(3) by (auto simp: create_post_def)
    then show ?thesis using r(1) ok True by auto
  next
    case False
    then obtain k0 where k0: "name \<notin> fst ` set es" "k0 < 64" "node ?D k0 = None" by blast
    have "fs_ok ?D" using assms(2) by simp
    from create_succeeds [OF r(3) this assms(3-5) k0] obtain k where k: "k < 64" "r = int k" "node ?D k = None"
      "if t = 1 then node (blocks sec s1) k = Some (File []) else \<exists>ks. node (blocks sec s1) k = Some (Dir ks) \<and> dot_entries k dir ks"
      "\<forall>j < 64. j \<noteq> k \<and> j \<noteq> dir \<longrightarrow> node (blocks sec s1) j = node ?D j"
      "\<exists>xs ys. es = xs @ ys \<and> node (blocks sec s1) dir = Some (Dir (xs @ (take 27 name, k) # ys))" by blast
    have "take 27 name = name" using assms(7) by simp
    with k r(1,4) ok show ?thesis unfolding if_not_P [OF False] by (metis of_nat_0_le_iff)
  qed
qed

theorem sfs_create_lookup_witness:
  "\<exists>s k s1 s2. sfs_create (cache_layer sim_io) (int 0) [65] 2 s = Some (int k, s1) \<and> sfs_lookup (cache_layer sim_io) (int 0) [65] s1 = Some (int k, s2)"
proof -
  from sim_mounted obtain s es where s: "mounted (\<lambda>d. s_phase d = Ready) sim_sec 32768 s" "tree_ok (node (blocks sim_sec s))"
    "node (blocks sim_sec s) 0 = Some (Dir es)" "dot_entries 0 0 es" "node (blocks sim_sec s) 1 = None" by (auto simp: sfs_inv_def)
  have "plain [65]" by (simp add: plain_def DOT_def DOTDOT_def)
  then have n: "[65] \<notin> fst ` set es" using dot_entries_plain [OF s(4)] by fastforce
  have "\<not> ([65] \<in> fst ` set es \<or> (\<forall>k < 64. node (blocks sim_sec s) k \<noteq> None))" using n s(5) by (auto intro!: exI [of _ 1])
  from sfs_create_lookup [OF simfs.sfs_disk_axioms s(1,2) _ s(3), of "[65]" 2, unfolded if_not_P [OF this]] show ?thesis by auto
qed

text \<open>C19. \<^verbatim>\<open>sfs_unlink\<close> of an ordinary name: it fails without effect when the name does not exist or is a directory with more
  than two entries; otherwise it frees the inode, removes exactly that entry and changes no other
  node. A following \<^verbatim>\<open>sfs_lookup\<close> of the name fails.\<close>

theorem sfs_unlink_lookup:
  assumes "sfs_disk io good sec cap" and "mounted good sec cap s" and "tree_ok (node (blocks sec s))" and "dir < 64"
    and "node (blocks sec s) dir = Some (Dir es)" and "0 \<notin> set name" and "plain name"
  shows "\<exists>r s1. sfs_unlink (cache_layer io) (int dir) name s = Some (r, s1) \<and> bc_ok good sec cap s1
    \<and> unlink_post (blocks sec s) dir es name r (blocks sec s1)
    \<and> (r = 0 \<longrightarrow> (\<exists>s2. sfs_lookup (cache_layer io) (int dir) name s1 = Some (- 1, s2)))"
  by (rule sfs_disk.unlink_lookup [OF assms])

theorem sfs_unlink_lookup_witness:
  "\<exists>s es r s1. sfs_unlink (cache_layer sim_io) (int 0) [65] s = Some (r, s1)
    \<and> unlink_post (blocks sim_sec s) 0 es [65] r (blocks sim_sec s1)"
proof -
  from sim_mounted obtain s es where s: "mounted (\<lambda>d. s_phase d = Ready) sim_sec 32768 s" "tree_ok (node (blocks sim_sec s))"
    "node (blocks sim_sec s) 0 = Some (Dir es)" by (auto simp: sfs_inv_def)
  have "plain [65]" by (simp add: plain_def DOT_def DOTDOT_def)
  from sfs_unlink_lookup [OF simfs.sfs_disk_axioms s(1,2) _ s(3) _ this] show ?thesis by auto
qed

text \<open>\<^verbatim>\<open>sfs_init\<close> leaves a disk with the magic number alone and formats any other: the result is a
  consistent file system whose only node is the root directory with its two dot entries.\<close>

theorem sfs_init_mounts:
  assumes "sfs_disk io good sec cap" and "good d"
  shows "\<exists>s. sfs_init (cache_layer io) (bcache_init (cold_cache d)) = Some s \<and> bc_ok good sec cap s \<and>
    (if get32 (sec d 0) 0 = SFS_MAGIC then blocks sec s = sec d
     else fs_ok (blocks sec s) \<and> blocks sec s 0 = superblock \<and> (\<forall>j < 64. j \<noteq> 0 \<longrightarrow> node (blocks sec s) j = None)
       \<and> (\<exists>es. node (blocks sec s) 0 = Some (Dir es) \<and> dot_entries 0 0 es))"
  by (rule sfs_disk.mount [OF assms])

theorem sfs_init_mounts_witness:
  "\<exists>s es. sfs_init (cache_layer sim_io) (bcache_init (cold_cache sim_blank)) = Some s \<and> fs_ok (blocks sim_sec s)
    \<and> node (blocks sim_sec s) 0 = Some (Dir es) \<and> dot_entries 0 0 es"
proof -
  have "get32 (sim_sec sim_blank 0) 0 \<noteq> SFS_MAGIC" by (simp add: sim_sec_def sim_blank_def get32_def)
  with sfs_init_mounts [OF simfs.sfs_disk_axioms, of sim_blank] show ?thesis by (auto simp: sim_blank_def split: if_splits)
qed

text \<open>Persistence: after \<^verbatim>\<open>bcache_sync\<close> a reboot (cold cache, \<^verbatim>\<open>sfs_init\<close>) finds every block, and so every
  file and directory, as it was before.\<close>

theorem sfs_reboot:
  assumes "sfs_disk io good sec cap" and "mounted good sec cap s" and "blocks sec s 0 = superblock"
  shows "\<exists>s1 s2. bcache_sync io s = Some s1 \<and> sfs_init (cache_layer io) (bcache_init (cold_cache (dev s1))) = Some s2
    \<and> bc_ok good sec cap s2 \<and> blocks sec s2 = blocks sec s"
  by (rule sfs_disk.reboot [OF assms])

theorem sfs_reboot_witness:
  "\<exists>s s1 s2. bcache_sync sim_io s = Some s1 \<and> sfs_init (cache_layer sim_io) (bcache_init (cold_cache (dev s1))) = Some s2
    \<and> blocks sim_sec s2 = blocks sim_sec s"
proof -
  from sim_mounted obtain s where s: "mounted (\<lambda>d. s_phase d = Ready) sim_sec 32768 s" "blocks sim_sec s 0 = superblock"
    by (auto simp: sfs_inv_def)
  from sfs_reboot [OF simfs.sfs_disk_axioms s] show ?thesis by blast
qed

text \<open>\<^verbatim>\<open>sfs_readdir\<close> enumerates a directory: index \<open>j\<close> gives its \<open>j\<close>-th entry, name and inode, and
  the first index past the end gives -1.\<close>

theorem sfs_readdir_lists:
  assumes "sfs_disk io good sec cap" and "mounted good sec cap s" and "dir < 64" and "node (blocks sec s) dir = Some (Dir es)"
  shows "\<exists>s1. sfs_readdir (cache_layer io) (int dir) (int j) s =
      Some (if j < length es then (int (snd (es ! j)), Some (fst (es ! j))) else (- 1, None), s1) \<and> blocks sec s1 = blocks sec s"
  by (rule sfs_disk.readdir_lists [OF assms])

theorem sfs_readdir_lists_witness:
  "\<exists>s s1. sfs_readdir (cache_layer sim_io) (int 0) (int 2) s = Some ((- 1, None), s1)"
proof -
  from sim_mounted obtain s es where s: "mounted (\<lambda>d. s_phase d = Ready) sim_sec 32768 s" "node (blocks sim_sec s) 0 = Some (Dir es)"
    "length es = 2" by (auto simp: dot_entries_def)
  from sfs_readdir_lists [OF simfs.sfs_disk_axioms s(1) _ s(2), of 2] s(3) show ?thesis by auto
qed



end
