(* ===== verification/Shell_Files.thy ===== *)
theory Shell_Files
  imports Shell Sfs_Props
begin

text \<open>
  The file system as the shell and \<^verbatim>\<open>main\<close> use it: entries and files by directory and name, the calls on
  the kernel's state, and the pattern they share, to look a name up, create it when it is missing, and write.
\<close>

section \<open>Entries and files by name\<close>

definition entry_of :: "disk \<Rightarrow> nat \<Rightarrow> u8 list \<Rightarrow> nat option" where
  "entry_of D dir name = (case node D dir of Some (Dir es) \<Rightarrow> map_of es name | _ \<Rightarrow> None)"

definition file_of :: "disk \<Rightarrow> nat \<Rightarrow> u8 list \<Rightarrow> u8 list option" where
  "file_of D dir name = (case entry_of D dir name of Some i \<Rightarrow> (case node D i of Some (File c) \<Rightarrow> Some c | _ \<Rightarrow> None) | None \<Rightarrow> None)"

definition good_name :: "u8 list \<Rightarrow> bool" where
  "good_name name \<longleftrightarrow> 0 \<notin> set name \<and> length name \<le> 27 \<and> plain name"

definition free_inode :: "disk \<Rightarrow> bool" where
  "free_inode D \<longleftrightarrow> (\<exists>k < 64. node D k = None)"

text \<open>Only the file \<open>name\<close> of \<open>dir\<close> may differ.\<close>

definition same_but :: "nat \<Rightarrow> u8 list \<Rightarrow> disk \<Rightarrow> disk \<Rightarrow> bool" where
  "same_but dir name D D' \<longleftrightarrow> (\<forall>d. is_dir D' d = is_dir D d)
     \<and> (\<forall>d nm. is_dir D d \<and> plain nm \<and> (d, nm) \<noteq> (dir, name) \<longrightarrow> entry_of D' d nm = entry_of D d nm \<and> file_of D' d nm = file_of D d nm)"

lemma same_but_refl: "same_but dir name D D"
  by (simp add: same_but_def)

lemma same_but_trans: "same_but dir name D D1 \<Longrightarrow> same_but dir name D1 D2 \<Longrightarrow> same_but dir name D D2"
  by (simp add: same_but_def)

lemma entry_ref:
  assumes "tree_ok (node D)" and "is_dir D d" and "plain nm" and "entry_of D d nm = Some i"
  shows "ref (node D) d nm i" and "i < 64" and "node D i \<noteq> None"
proof -
  show r: "ref (node D) d nm i" using assms(2-4) by (auto simp: ref_def entry_of_def is_dir_def dest: map_of_SomeD)
  from tree_okD(2) [OF assms(1) r] show "i < 64" "node D i \<noteq> None" by blast+
qed

text \<open>Writing the inode of one file changes that file alone.\<close>

lemma same_but_write:
  assumes t: "tree_ok (node D)" and d: "is_dir D dir" and p: "plain name" and e: "entry_of D dir name = Some i"
    and n: "node D i = Some (File old)" "node D' i = Some (File c)" and o: "others i D D'"
  shows "same_but dir name D D' \<and> entry_of D' dir name = Some i \<and> file_of D' dir name = Some c"
proof -
  have dirs: "node D' d = Some (Dir es) \<longleftrightarrow> node D d = Some (Dir es)" if "d < 64" for d es
    using n o that by (cases "d = i") (auto simp: others_def)
  have nd: "node D' d = node D d" if "is_dir D d" for d using that dirs by (auto simp: is_dir_def)
  have "is_dir D' d = is_dir D d" for d using dirs by (auto simp: is_dir_def)
  moreover have E: "entry_of D' d nm = entry_of D d nm" if "is_dir D d" for d nm using nd [OF that] by (simp add: entry_of_def)
  moreover have "file_of D' d nm = file_of D d nm" if a: "is_dir D d" "plain nm" "(d, nm) \<noteq> (dir, name)" for d nm
  proof (cases "entry_of D d nm")
    case (Some k)
    note r = entry_ref [OF t a(1,2) Some]
    have "k \<noteq> i" using tree_okD(3) [OF t r(1)] entry_ref(1) [OF t d p e] a(3) by blast
    then have "node D' k = node D k" using o r(2) by (simp add: others_def)
    then show ?thesis using E [OF a(1)] Some by (simp add: file_of_def)
  qed (simp add: file_of_def E [OF a(1)])
  ultimately show ?thesis using E [OF d] e n(2) by (simp add: same_but_def file_of_def)
qed

lemma map_of_insert_mid: "fst x \<notin> fst ` set (xs @ ys) \<Longrightarrow> map_of (xs @ x # ys) nm = (if nm = fst x then Some (snd x) else map_of (xs @ ys) nm)"
proof (cases "nm = fst x")
  case True
  assume "fst x \<notin> fst ` set (xs @ ys)"
  then have "map_of xs nm = None" using True by (simp add: map_of_eq_None_iff image_Un)
  then show ?thesis using True by (cases x) (simp add: map_add_def)
qed (cases x, auto simp: map_add_def split: option.split)

lemma same_but_create:
  assumes t: "tree_ok (node D)" and d: "dir < 64" "node D dir = Some (Dir es)" and k: "k < 64" "node D k = None"
    and f: "node D' k = Some (File c)" and o: "\<forall>j < 64. j \<noteq> k \<and> j \<noteq> dir \<longrightarrow> node D' j = node D j"
    and e: "es = xs @ ys" "node D' dir = Some (Dir (xs @ (name, k) # ys))" and nm: "name \<notin> fst ` set es"
  shows "same_but dir name D D' \<and> entry_of D' dir name = Some k \<and> file_of D' dir name = Some c"
proof -
  have dirs: "is_dir D' j = is_dir D j" for j
    using o e(2) d k f by (cases "j = dir"; cases "j = k") (auto simp: is_dir_def)
  have nd: "node D' j = node D j" if "is_dir D j" "j \<noteq> dir" for j
    using that o k(2) by (cases "j = k") (auto simp: is_dir_def)
  have E: "entry_of D' j n = (if j = dir \<and> n = name then Some k else entry_of D j n)" if "is_dir D j" for j n
    using nd [OF that] e d(2) nm map_of_insert_mid [of "(name, k)" xs ys n] by (cases "j = dir") (auto simp: entry_of_def)
  have "file_of D' j n = file_of D j n" if a: "is_dir D j" "plain n" "(j, n) \<noteq> (dir, name)" for j n
  proof (cases "entry_of D j n")
    case (Some i)
    note r = entry_ref [OF t a(1,2) Some]
    have "i \<noteq> k" using r(3) k(2) by auto
    then have "node D' i = node D i \<or> i = dir" using o r(2) by blast
    then show ?thesis using E [OF a(1), of n] a(3) Some d(2) e(2) by (auto simp: file_of_def)
  qed (use E [OF a(1), of n] a(3) in \<open>auto simp: file_of_def\<close>)
  then show ?thesis using dirs E [of _ name] E d f by (auto simp: same_but_def file_of_def is_dir_def)
qed

section \<open>Calls on the kernel's state\<close>

definition put_fs :: "'d bcache \<Rightarrow> 'd kernel \<Rightarrow> 'd kernel" where
  "put_fs f s = s\<lparr>ks := (ks s)\<lparr>fsd := f\<rparr>\<rparr>"

lemma put_fs_sel [simp]: "fsd (ks (put_fs f s)) = f" "kt (ks (put_fs f s)) = kt (ks s)" "pg (ks (put_fs f s)) = pg (ks s)" "cwd (put_fs f s) = cwd s"
  "out (put_fs f s) = out s" "ir (put_fs f s) = ir s" "kmem_of (ks (put_fs f s)) = kmem_of (ks s)" "put_fs g (put_fs f s) = put_fs g s"
  "the_heap (put_fs f s) = the_heap s" "frames (put_fs f s) = frames s" "fibers (put_fs f s) = fibers s" "worker_ticks (put_fs f s) = worker_ticks s"
  "put_fs (fsd (ks s)) s = s"
  by (simp_all add: put_fs_def kmem_of_def the_heap_def)

lemma on_fs_eq: "on_fs g s = map_option (\<lambda>(r, f). (r, put_fs f s)) (g (fsd (ks s)))"
  by (cases "g (fsd (ks s))") (auto simp: on_fs_def put_fs_def)

lemma on_fs_Some: "g (fsd (ks s)) = Some (r, f) \<Longrightarrow> on_fs g s = Some (r, put_fs f s)"
  by (simp add: on_fs_eq)

context sfs_disk
begin

abbreviation disk_at :: "disk \<Rightarrow> 'd kernel \<Rightarrow> bool" where
  "disk_at D s \<equiv> fs.at D (fsd (ks s))"

lemma lookup_k:
  assumes "disk_at D s" and "fs_ok D" and "is_dir D dir" and "0 \<notin> set name"
  shows "\<exists>f. on_fs (sfs_lookup (cache_layer io) (int dir) name) s = Some (case entry_of D dir name of Some i \<Rightarrow> int i | None \<Rightarrow> - 1, put_fs f s) \<and> fs.at D f"
proof -
  from assms(3) obtain es where es: "dir < 64" "node D dir = Some (Dir es)" by (auto simp: is_dir_def)
  from fs.sfs_lookup_wp [OF assms(1,2) es assms(4)] es(2) show ?thesis
    by (auto simp: wp_def entry_of_def on_fs_Some)
qed

lemma type_k:
  assumes "disk_at D s" and "i < 64"
  shows "\<exists>f. on_fs (sfs_type (cache_layer io) (int i)) s = Some (sint (itype (d_inode D i)), put_fs f s) \<and> fs.at D f"
proof -
  have "wp (sfs_type (cache_layer io) (int i) (fsd (ks s))) (\<lambda>(t, f). t = sint (itype (d_inode D i)) \<and> fs.at D f)"
    unfolding sfs_type_def by (rule wp_bind [OF fs.read_inode_wp [OF assms]]) auto
  then show ?thesis by (auto simp: wp_def on_fs_Some)
qed

lemma size_k:
  assumes "disk_at D s" and "i < 64"
  shows "\<exists>f. on_fs (sfs_size (cache_layer io) (int i)) s = Some (isize (d_inode D i), put_fs f s) \<and> fs.at D f"
proof -
  have "wp (sfs_size (cache_layer io) (int i) (fsd (ks s))) (\<lambda>(t, f). t = isize (d_inode D i) \<and> fs.at D f)"
    unfolding sfs_size_def by (rule wp_bind [OF fs.read_inode_wp [OF assms]]) auto
  then show ?thesis by (auto simp: wp_def on_fs_Some)
qed

lemma read_k:
  assumes "disk_at D s" and "fs_ok D" and "i < 64" and "node D i = Some (File c)"
  shows "\<exists>f. on_fs (sfs_read (cache_layer io) (int i) mx) s = Some ((int (length (take (unat mx) c)), take (unat mx) c), put_fs f s) \<and> fs.at D f"
  using fs.sfs_read_wp [OF assms, of mx] by (auto simp: wp_def on_fs_Some simp del: length_take)

lemma write_k:
  assumes s: "disk_at D s" and i: "sfs_inv D" and d: "is_dir D dir" and p: "plain name" and e: "entry_of D dir name = Some k"
    and n: "node D k = Some (File old)" and l: "unat len \<le> length data"
  shows "\<exists>f D'. on_fs (sfs_write (cache_layer io) (int k) data len) s = Some (int (min (unat len) 7168), put_fs f s) \<and> fs.at D' f \<and> sfs_inv D'
    \<and> same_but dir name D D' \<and> others k D D' \<and> entry_of D' dir name = Some k \<and> file_of D' dir name = Some (take (min (unat len) 7168) data)"
proof -
  have ok: "fs_ok D" and t: "tree_ok (node D)" and z: "D 0 = superblock" using i by (auto simp: sfs_inv_def)
  have k: "k < 64" by (rule entry_ref(2) [OF t d p e])
  from fs.sfs_write_wp [OF s ok k n l] obtain w f D' where
    w: "sfs_write (cache_layer io) (int k) data len (fsd (ks s)) = Some (int w, f)" "fs.at D' f" "fs_ok D'" "others k D D'" "D' 0 = D 0"
      "w \<le> min (unat len) 7168" "node D' k = Some (File (take w data))" "w < min (unat len) 7168 \<longrightarrow> disk_full D'" by (auto simp: wp_def)
  have "w = min (unat len) 7168" using w(6,8) never_full [OF w(3)] by linarith
  with w(1) have "on_fs (sfs_write (cache_layer io) (int k) data len) s = Some (int (min (unat len) 7168), put_fs f s)" by (simp add: on_fs_Some)
  moreover have "sfs_inv D'" using w(3,5) z tree_ok_write [OF t w(4) n w(7)] by (simp add: sfs_inv_def)
  ultimately show ?thesis using w(2,4,7) \<open>w = _\<close> same_but_write [OF t d p e n w(7,4)] by blast
qed

lemma create_k:
  assumes s: "disk_at D s" and i: "sfs_inv D" and d: "is_dir D dir" and g: "good_name name" and e: "entry_of D dir name = None" and fr: "free_inode D"
  shows "\<exists>f D' k. on_fs (sfs_create (cache_layer io) (int dir) name 1) s = Some (int k, put_fs f s) \<and> fs.at D' f \<and> sfs_inv D'
    \<and> same_but dir name D D' \<and> entry_of D' dir name = Some k \<and> k < 64 \<and> node D k = None \<and> node D' k = Some (File [])
    \<and> (\<forall>j < 64. j \<noteq> k \<and> j \<noteq> dir \<longrightarrow> node D' j = node D j)"
proof -
  from d obtain es where es: "dir < 64" "node D dir = Some (Dir es)" by (auto simp: is_dir_def)
  have ok: "fs_ok D" and t: "tree_ok (node D)" and z: "D 0 = superblock" using i by (auto simp: sfs_inv_def)
  have g': "0 \<notin> set name" "take 27 name = name" using g by (auto simp: good_name_def)
  have nm: "name \<notin> fst ` set es" using e es(2) by (simp add: entry_of_def map_of_eq_None_iff)
  have "take 27 name \<notin> fst ` set es \<or> name \<in> fst ` set es" using nm g'(2) by simp
  from fs.sfs_create_wp [OF s ok es g'(1) this, of 1] obtain r f D' where
    r: "sfs_create (cache_layer io) (int dir) name 1 (fsd (ks s)) = Some (r, f)" "fs.at D' f" "create_post D dir es name 1 r D'" by (auto simp: wp_def)
  from fr obtain k0 where k0: "k0 < 64" "node D k0 = None" by (auto simp: free_inode_def)
  from create_succeeds [OF r(3) ok t es nm k0] g'(2) obtain k xs ys where k: "k < 64" "r = int k" "node D k = None" "node D' k = Some (File [])"
    "\<forall>j < 64. j \<noteq> k \<and> j \<noteq> dir \<longrightarrow> node D' j = node D j" "es = xs @ ys" "node D' dir = Some (Dir (xs @ (name, k) # ys))" by auto
  have "sfs_inv D'" using r(3) z tree_ok_create [OF t r(3) es(2,1)] by (auto simp: sfs_inv_def create_post_def)
  then show ?thesis using r(1,2) k same_but_create [OF t es k(1,3,4,5,6,7) nm] by (intro exI [of _ f] exI [of _ D'] exI [of _ k]) (simp add: on_fs_Some)
qed

end

end
