(* ===== verification/Exec_Props.thy ===== *)
theory Exec_Props
  imports Exec Sfs_Props Task_Props
begin

text \<open>
  What the loading of a program, its entry, its system calls and its exit guarantee: the composition of
  the file system, the heap, the ELF loader, paging and the scheduler's task.
\<close>

section \<open>Loading\<close>

abbreviation (input) "WIN \<equiv> {0x800000..<0xC00000 :: nat}"

lemma place_all_cong:
  "m a = m' a \<Longrightarrow> fst (place_all im phs m) = fst (place_all im phs m') \<and> snd (place_all im phs m) a = snd (place_all im phs m') a"
proof (induction phs arbitrary: m m')
  case (Cons ph phs)
  have "place im ph m a = place im ph m' a" using Cons.prems by (simp add: place_def Let_def)
  with Cons.IH [of "place im ph m" "place im ph m'"] Cons.IH [of m m'] Cons.prems show ?case by simp
qed simp

lemma elf_ref_cong: "m a = m' a \<Longrightarrow> fst (elf_ref im m) = fst (elf_ref im m') \<and> snd (elf_ref im m) a = snd (elf_ref im m') a"
  using place_all_cong [of m a m' im "phdrs im"] by (auto simp: elf_ref_def split: prod.splits)

lemma elf_ref_rc: "fst (elf_ref im m) = (- 1, None) \<or> (\<exists>e. fst (elf_ref im m) = (0, Some e))"
  by (auto simp: elf_ref_def split: prod.splits)

lemma same_on_word: "same_on X m m' \<longleftrightarrow> (\<forall>a. unat a \<in> X \<longrightarrow> m' a = m a)"
proof
  assume s: "same_on X m m'"
  show "\<forall>a. unat a \<in> X \<longrightarrow> m' a = m a"
  proof (intro allI impI)
    fix a :: u32 assume "unat a \<in> X"
    then have "byte_at m' (unat a) = byte_at m (unat a)" using s by (simp add: same_on_def)
    then show "m' a = m a" by (simp add: byte_at_def)
  qed
next
  assume a: "\<forall>a. unat a \<in> X \<longrightarrow> m' a = m a"
  show "same_on X m m'" unfolding same_on_def
  proof (intro ballI impI)
    fix x assume "x \<in> X" "x < 2 ^ 32"
    then have "unat (word_of_nat x :: u32) \<in> X" by simp
    then show "byte_at m' x = byte_at m x" using a by (simp add: byte_at_def)
  qed
qed

lemma store_bytes_same:
  assumes "unat a + length xs \<le> 2 ^ 32"
  shows "same_on (- {unat a..<unat a + length xs}) m (store_bytes a xs m)"
proof -
  have "unat (x - a) < length xs \<longleftrightarrow> unat a \<le> unat x \<and> unat x < unat a + length xs" for x
    using assms by (cases "unat a \<le> unat x") (auto simp: unat_sub_if_size word_le_nat_alt word_size)
  then show ?thesis by (auto simp: same_on_word store_bytes_def)
qed

lemma bytes_store: "length xs < 2 ^ 32 \<Longrightarrow> bytes (store_bytes a xs m) a (length xs) = xs"
  by (rule nth_equalityI) (simp_all add: store_bytes_def)

text \<open>Loading the image \<open>c\<close> through a heap buffer: allocate, store, load, free.\<close>

lemma load_through_heap:
  assumes "heap_holds h L" and "kmalloc (word_of_nat (length c)) h = Some (p, h1)" and "p \<noteq> 0" and "c \<noteq> []" and "length c \<le> 7168" and "elf_sane c"
  shows "\<exists>m h3. elf_load p (word_of_nat (length c)) (store_bytes p c (kmem h1)) = Some (fst (elf_ref c (kmem h)), m)
      \<and> kfree p (h1\<lparr>kmem := m\<rparr>) = Some h3 \<and> heap_holds h3 L
      \<and> same_on (held L - WIN \<union> - {HEAP_LO..<HEAP_END} - WIN) (kmem h) (kmem h3)
      \<and> (\<forall>a. unat a \<in> WIN \<longrightarrow> kmem h3 a = snd (elf_ref c (kmem h)) a)"
proof -
  let ?n = "word_of_nat (length c) :: u32" and ?L = "L(unat p \<mapsto> length c)"
  have n: "unat ?n = length c" "?n \<noteq> 0" using assms(4,5) of_nat_u32_inj [of "length c" 0] by simp_all
  have m1: "unat p \<notin> dom L" "heap_holds h1 ?L" "same_on (held L \<union> - {HEAP_LO..<HEAP_END}) (kmem h) (kmem h1)"
    using kh.malloc_returns [OF assms(1), of ?n] n assms(2,3,5) by (auto simp: wp_def)
  have lp: "?L (unat p) = Some (length c)" by simp
  have b: "HEAP_LO < unat p" "unat p + length c \<le> HEAP_END" using kh.held_bounds [OF m1(2) lp] by auto
  let ?m2 = "store_bytes p c (kmem h1)"
  have s2: "same_on (- {unat p..<unat p + length c}) (kmem h1) ?m2" using b by (intro store_bytes_same) simp
  have im: "bytes ?m2 p (unat ?n) = c" using bytes_store [of c p "kmem h1"] n assms(5) by simp
  have ap: "apart p (unat ?n)" using b n by (simp add: apart_def)
  from elf_load_ref [OF im ap assms(6)] have e: "elf_load p ?n ?m2 = Some (elf_ref c ?m2)" .
  let ?m3 = "snd (elf_ref c ?m2)"
  have s3: "same_on (- WIN) ?m2 ?m3"
  proof -
    have "?m3 a = ?m2 a" if "unat a \<notin> WIN" for a
    proof -
      have "a < USER_BASE \<or> USER_TOP \<le> a" using that by (auto simp: word_less_nat_alt word_le_nat_alt)
      from place_all_outside [OF _ this, of "phdrs c" c ?m2] assms(6) show ?thesis
        by (auto simp: elf_ref_def elf_sane_def split: prod.splits)
    qed
    then show ?thesis by (auto simp: same_on_word)
  qed
  have "same_on ({HEAP_LO..<HEAP_END} - held ?L) (kmem h1) ?m3"
  proof (rule same_on_trans)
    show "same_on ({HEAP_LO..<HEAP_END} - held ?L) (kmem h1) ?m2"
      by (rule same_on_mono [OF s2]) (use kh.block_held [of ?L "unat p" "length c"] lp in auto)
    show "same_on ({HEAP_LO..<HEAP_END} - held ?L) ?m2 ?m3" by (rule same_on_mono [OF s3]) auto
  qed
  from kh.write_inv [OF m1(2) this] have "heap_holds (h1\<lparr>kmem := ?m3\<rparr>) ?L" .
  note fr = kh.free_returns [OF this lp]
  have "?L(unat p := None) = L" using m1(1) by auto
  from fr [unfolded this] obtain h3 where h3: "kfree p (h1\<lparr>kmem := ?m3\<rparr>) = Some h3" "heap_holds h3 L"
    "same_on (held L \<union> - {HEAP_LO..<HEAP_END}) ?m3 (kmem h3)"
    unfolding wp_def by auto
  have "{unat p..<unat p + length c} \<inter> held L = {}"
  proof -
    have "{unat p..<unat p + length c} \<inter> {q..<q + k} = {}" if "L q = Some k" for q k
      using kh.block_disjoint [OF m1(2) lp, of q k] that m1(1) by auto
    then show ?thesis unfolding held_def by fastforce
  qed
  then have sub: "held L - WIN \<union> - {HEAP_LO..<HEAP_END} - WIN \<subseteq> - {unat p..<unat p + length c}" using b by auto
  have "same_on (held L - WIN \<union> - {HEAP_LO..<HEAP_END} - WIN) (kmem h) (kmem h3)"
    by (rule same_on_trans [OF same_on_mono [OF m1(3)] same_on_trans [OF same_on_mono [OF s2 sub]
          same_on_trans [OF same_on_mono [OF s3] same_on_mono [OF h3(3)]]]]) auto
  moreover have "kmem h3 a = snd (elf_ref c (kmem h)) a" if "unat a \<in> WIN" for a
  proof -
    have "?m2 a = kmem h a" using s2 m1(3) that b by (auto simp: same_on_word)
    with elf_ref_cong [of ?m2 a "kmem h" c] h3(3) that show ?thesis by (auto simp: same_on_word)
  qed
  moreover have "fst (elf_ref c ?m2) = fst (elf_ref c (kmem h))"
  proof -
    have "?m2 0xC00000 = kmem h 0xC00000" using s2 m1(3) b by (auto simp: same_on_word)
    with elf_ref_cong [of ?m2 "0xC00000" "kmem h" c] show ?thesis by blast
  qed
  ultimately show ?thesis using e h3(1,2) by (intro exI [of _ ?m3] exI [of _ h3]) (simp add: prod_eq_iff)
qed

text \<open>The outcome of \<^verbatim>\<open>exec_load\<close> for a file with contents \<open>c\<close>: what is unchanged in any case, and what holds
  when the program is ready to run.\<close>

definition load_keeps :: "('d \<Rightarrow> disk) \<Rightarrow> (nat \<rightharpoonup> nat) \<Rightarrow> 'd ksys \<Rightarrow> 'd ksys \<Rightarrow> bool" where
  "load_keeps sec L s s' \<longleftrightarrow> blocks sec (fsd s') = blocks sec (fsd s) \<and> heap_holds (heap (kt s')) L
     \<and> same_on (held L - WIN \<union> - {HEAP_LO..<HEAP_END} - WIN) (kmem_of s) (kmem_of s')
     \<and> kt s' = (kt s)\<lparr>heap := heap (kt s'), tss_esp0 := tss_esp0 (kt s')\<rparr>"

definition load_ready :: "u8 list \<Rightarrow> nat set \<Rightarrow> u32 \<Rightarrow> 'd ksys \<Rightarrow> 'd ksys \<Rightarrow> bool" where
  "load_ready c U ent s s' \<longleftrightarrow> fst (elf_ref c (kmem_of s)) = (0, Some ent)
     \<and> (\<forall>a. unat a \<in> WIN \<longrightarrow> kmem_of s' a = snd (elf_ref c (kmem_of s)) a)
     \<and> mapped_by (insert 2 U) (pg s') \<and> tss_esp0 (kt s') = t_kstack_top (tcb (kt s) (current (kt s)))
     \<and> g_user_running s' \<and> g_exit_code s' = - 1"

lemma file_size: "fs_ok D \<Longrightarrow> i < 64 \<Longrightarrow> node D i = Some (File c) \<Longrightarrow> itype (d_inode D i) = 1 \<and> unat (isize (d_inode D i)) = length c \<and> length c \<le> 7168"
proof -
  assume a: "fs_ok D" "i < 64" "node D i = Some (File c)"
  then have n: "itype (d_inode D i) = 1" "c = take (unat (isize (d_inode D i))) (file_bytes D (owned D i))"
    by (auto simp: node_of_def split: if_splits)
  have k: "unat (isize (d_inode D i)) \<le> 512 * length (owned D i)" "length (owned D i) \<le> 14"
    using fs_okD(2) [OF a(1,2)] n(1) by (auto simp: inode_ok_def)
  have "length (D b) = 512" if "b \<in> set (owned D i)" for b
    using fs_okD(1) [OF a(1)] owned_data [OF a(1,2) that] by (auto simp: disk_ok_def data_blk_def)
  then have "length (file_bytes D (owned D i)) = 512 * length (owned D i)"
    by (simp add: file_bytes_def length_concat o_def sum_list_triv cong: map_cong)
  then show ?thesis using n k by auto
qed

context sfs_disk
begin

lemma type_size:
  assumes "mounted good sec cap f" and "i < 64"
  shows "wp (sfs_type (cache_layer io) (int i) f) (\<lambda>(t, f'). t = sint (itype (d_inode (blocks sec f) i)) \<and> fs.at (blocks sec f) f')"
    and "wp (sfs_size (cache_layer io) (int i) f) (\<lambda>(n, f'). n = isize (d_inode (blocks sec f) i) \<and> fs.at (blocks sec f) f')"
proof -
  have a: "fs.at (blocks sec f) f" using assms(1) by (simp add: at_iff)
  show "wp (sfs_type (cache_layer io) (int i) f) (\<lambda>(t, f'). t = sint (itype (d_inode (blocks sec f) i)) \<and> fs.at (blocks sec f) f')"
    unfolding sfs_type_def by (rule wp_bind [OF fs.read_inode_wp [OF a assms(2)]]) auto
  show "wp (sfs_size (cache_layer io) (int i) f) (\<lambda>(n, f'). n = isize (d_inode (blocks sec f) i) \<and> fs.at (blocks sec f) f')"
    unfolding sfs_size_def by (rule wp_bind [OF fs.read_inode_wp [OF a assms(2)]]) auto
qed

lemma exec_load_file:
  assumes "mounted good sec cap (fsd s)" and "i < 64" and "node (blocks sec (fsd s)) i = Some (File c)" and "\<not> g_user_running s"
    and "t_kstack_top (tcb (kt s) (current (kt s))) \<noteq> 0" and "heap_holds (heap (kt s)) L" and "mapped_by U (pg s)" and "elf_sane c"
  shows "\<exists>e s'. exec_load io (int i) s = Some (e, s') \<and> mounted good sec cap (fsd s') \<and> load_keeps sec L s s'
    \<and> (case e of
         None \<Rightarrow> \<not> g_user_running s' \<and> pg s' = pg s \<and> tss_esp0 (kt s') = tss_esp0 (kt s)
           \<and> (c = [] \<or> kmalloc (word_of_nat (length c)) (heap (kt s)) = Some (0, heap (kt s)) \<or> fst (elf_ref c (kmem_of s)) = (- 1, None))
       | Some ent \<Rightarrow> load_ready c U ent s s' \<and> kmalloc (word_of_nat (length c)) (heap (kt s)) \<noteq> Some (0, heap (kt s)))"
proof -
  let ?D = "blocks sec (fsd s)"
  have ok: "fs_ok ?D" using assms(1) by simp
  note z = file_size [OF ok assms(2,3)]
  have iz: "isize (d_inode ?D i) = word_of_nat (length c)" using z by (simp add: word_unat_eq_iff)
  obtain f1 where f1: "sfs_type (cache_layer io) (int i) (fsd s) = Some (1, f1)" "mounted good sec cap f1" "blocks sec f1 = ?D"
    using type_size(1) [OF assms(1,2)] z ok by (auto simp: wp_def at_iff)
  obtain f2 where f2: "sfs_size (cache_layer io) (int i) f1 = Some (word_of_nat (length c), f2)" "mounted good sec cap f2" "blocks sec f2 = ?D"
    using type_size(2) [OF f1(2) assms(2)] ok unfolding f1(3) iz by (auto simp: wp_def at_iff)
  have sz: "(word_of_nat (length c) :: u32) = 0 \<longleftrightarrow> c = []" "\<not> (word_of_nat (length c) :: u32) > 7168"
    using z of_nat_u32_inj [of "length c" 0] by (auto simp: word_less_nat_alt)
  have sum: "kmem_of s = kmem (heap (kt s))" by (simp add: kmem_of_def)
  show ?thesis
  proof (cases "c = []")
    case True
    let ?s = "s\<lparr>fsd := f2\<rparr>"
    have "exec_load io (int i) s = Some (None, ?s)"
      using True assms(4,5) f1(1) f2(1) by (simp add: exec_load_def task_current_def Let_def)
    then show ?thesis using True f2 assms(4,6)
      by (intro exI [of _ None] exI [of _ ?s]) (auto simp: load_keeps_def kmem_of_def)
  next
    case False
    obtain p h1 where k: "kmalloc (word_of_nat (length c)) (heap (kt s)) = Some (p, h1)" "p = 0 \<Longrightarrow> h1 = heap (kt s)"
      using kh.malloc_returns [OF assms(6), of "word_of_nat (length c)"] sz(1) False z by (auto simp: wp_def)
    show ?thesis
    proof (cases "p = 0")
      case True
      let ?s = "s\<lparr>fsd := f2, kt := (kt s)\<lparr>heap := heap (kt s)\<rparr>\<rparr>"
      have "exec_load io (int i) s = Some (None, ?s)"
        using True False sz assms(4,5) f1(1) f2(1) k by (simp add: exec_load_def task_current_def Let_def)
      then show ?thesis using True f2 assms(4,6) k
        by (intro exI [of _ None] exI [of _ ?s]) (auto simp: load_keeps_def kmem_of_def)
    next
      case p: False
      obtain f3 where f3: "sfs_read (cache_layer io) (int i) (word_of_nat (length c)) f2 = Some ((int (length c), c), f3)"
        "mounted good sec cap f3" "blocks sec f3 = ?D"
        using fs.sfs_read_wp [of ?D f2 i c "word_of_nat (length c)"] f2(2,3) ok assms(2,3) z by (auto simp: wp_def at_iff)
      obtain m h3 where l: "elf_load p (word_of_nat (length c)) (store_bytes p c (kmem h1)) = Some (fst (elf_ref c (kmem_of s)), m)"
        "kfree p (h1\<lparr>kmem := m\<rparr>) = Some h3" "heap_holds h3 L"
        "same_on (held L - WIN \<union> - {HEAP_LO..<HEAP_END} - WIN) (kmem_of s) (kmem h3)"
        "\<forall>a. unat a \<in> WIN \<longrightarrow> kmem h3 a = snd (elf_ref c (kmem_of s)) a"
        using load_through_heap [OF assms(6) k(1) p False _ assms(8)] z sum by auto
      show ?thesis
      proof (cases "fst (elf_ref c (kmem_of s)) = (- 1, None)")
        case True
        let ?s = "s\<lparr>fsd := f3, kt := (kt s)\<lparr>heap := h3\<rparr>\<rparr>"
        have "exec_load io (int i) s = Some (None, ?s)"
          using True False p sz assms(4,5) f1(1) f2(1) f3(1) k(1) l(1,2)
          by (simp add: exec_load_def task_current_def Let_def kmem_of_def set_kmem_def)
        then show ?thesis using True f3 assms(4) l(3,4)
          by (intro exI [of _ None] exI [of _ ?s]) (auto simp: load_keeps_def kmem_of_def)
      next
        case e: False
        then obtain ent where en: "fst (elf_ref c (kmem_of s)) = (0, Some ent)" using elf_ref_rc [of c "kmem_of s"] by blast
        obtain p' where p': "paging_set_user USER_BASE (pg s) = Some p'" "mapped_by (insert 2 U) p'"
          using paging_set_user_mapped [OF assms(7), of USER_BASE] by auto
        let ?s = "s\<lparr>fsd := f3, kt := (kt s)\<lparr>heap := h3, tss_esp0 := t_kstack_top (tcb (kt s) (current (kt s)))\<rparr>, pg := p', g_exit_code := - 1, g_user_running := True\<rparr>"
        have "exec_load io (int i) s = Some (Some ent, ?s)"
          using en False p sz assms(4,5) f1(1) f2(1) f3(1) k(1) l(1,2) p'(1)
          by (simp add: exec_load_def task_current_def Let_def kmem_of_def set_kmem_def tss_set_kernel_stack_def)
        then show ?thesis using en f3 l(3-5) p'(2) k(1) p
          by (intro exI [of _ "Some ent"] exI [of _ ?s]) (auto simp: load_keeps_def load_ready_def kmem_of_def)
      qed
    qed
  qed
qed

end

section \<open>Into ring 3 and back\<close>

definition enter_mem :: "u32 \<Rightarrow> u32 \<Rightarrow> u32 \<Rightarrow> u32 \<Rightarrow> u32 \<Rightarrow> cpu \<Rightarrow> nat \<Rightarrow> mem \<Rightarrow> mem" where
  "enter_mem ret efl a_save ent user_esp c e m =
     stn (e - 52) ent (stn (e - 48) 0x1B (stn (e - 44) (efl OR 0x200) (stn (e - 40) user_esp (stn (e - 36) 0x23
    (stn (e - 32) (ebp c) (stn (e - 28) (edi c) (stn (e - 24) (esi c) (stn (e - 20) (ebx c)
    (stn (e - 16) ret (stn (e - 12) ent (stn (e - 8) user_esp (stn (e - 4) a_save m))))))))))))"

lemma enter_user_eq:
  assumes "esp (proc (kt s)) = word_of_nat e" and "52 \<le> e"
  shows "enter_user ret efl a_save ent user_esp s = set_proc ((proc (kt s))\<lparr>ebx := efl OR 0x200, eip := ent, esp := user_esp, int_flag := True\<rparr>)
    (set_kmem (enter_mem ret efl a_save ent user_esp (proc (kt s)) e (kmem_of s)) (s\<lparr>g_kreturn_esp := word_of_nat (e - 32)\<rparr>))"
proof -
  obtain c0 where c0: "proc (kt s) = c0\<lparr>esp := word_of_nat e\<rparr>" using assms(1) that [of "proc (kt s)"] by simp
  have ge: "4 \<le> e" "4 \<le> e - 4" "4 \<le> e - 8" "4 \<le> e - 12" "4 \<le> e - 16" "4 \<le> e - 20" "4 \<le> e - 24" "4 \<le> e - 28" "4 \<le> e - 32" "4 \<le> e - 36"
    "4 \<le> e - 40" "4 \<le> e - 44" "4 \<le> e - 48" using assms(2) by auto
  show ?thesis by (simp add: enter_user_def c0 push_nat ge enter_mem_def Let_def del: of_nat_diff)
qed

lemma enter_mem_same:
  assumes "52 \<le> e" and "e < 2 ^ 32"
  shows "same_on (- {e - 52..<e}) m (enter_mem ret efl a_save ent user_esp c e m)"
proof -
  have st: "same_on (- {e - 52..<e}) m (stn (e - k) v m')" if "same_on (- {e - 52..<e}) m m'" "k \<le> 52" "4 \<le> k" for k m' v
    by (rule same_on_trans [OF that(1) same_on_stn]) (use assms that(2,3) in auto)
  show ?thesis unfolding enter_mem_def by (intro st same_on_refl) simp_all
qed

lemma enter_mem_saved:
  assumes "52 \<le> e" and "e < 2 ^ 32"
  shows "saved_at (enter_mem ret efl a_save ent user_esp c e m) (e - 32) (c\<lparr>eip := ret, esp := word_of_nat (e - 12)\<rparr>)"
proof -
  obtain b where e: "e = b + 52" using assms(1) by (metis le_add_diff_inverse2)
  show ?thesis using assms(2) by (simp add: saved_at_def enter_mem_def ldn_stn_other e)
qed

lemma leave_user_eq:
  assumes "saved_at (kmem_of s) a c"
  shows "leave_user (word_of_nat a) s = set_proc ((proc (kt s))\<lparr>ebp := ebp c, edi := edi c, esi := esi c, ebx := ebx c, eip := eip c, esp := esp c\<rparr>) s"
  using assms by (simp add: leave_user_def saved_at_def ld32_off Let_def)

text \<open>The kernel's stack frame survives the program: whatever the program and the kernel did meanwhile, if
  the twenty saved bytes and the saved pointer are intact, exit resumes behind the call.\<close>

lemma user_returns:
  fixes s s2 :: "'d ksys"
  assumes "esp (proc (kt s)) = word_of_nat e" and "52 \<le> e" and "e < 2 ^ 32"
    and s1: "s1 = enter_user ret efl a_save ent user_esp s"
    and "g_kreturn_esp s2 = g_kreturn_esp s1" and "same_on {e - 32..<e - 12} (kmem_of s1) (kmem_of s2)"
  shows "exec_on_exit code s2 = set_proc ((proc (kt s2))\<lparr>ebp := ebp (proc (kt s)), edi := edi (proc (kt s)), esi := esi (proc (kt s)),
      ebx := ebx (proc (kt s)), eip := ret, esp := word_of_nat (e - 12)\<rparr>) (s2\<lparr>g_exit_code := code, g_user_running := False\<rparr>)"
proof -
  let ?c = "(proc (kt s))\<lparr>eip := ret, esp := word_of_nat (e - 12)\<rparr>"
  have k: "kmem_of s1 = enter_mem ret efl a_save ent user_esp (proc (kt s)) e (kmem_of s)" "g_kreturn_esp s1 = word_of_nat (e - 32)"
    unfolding s1 enter_user_eq [OF assms(1,2)] by (simp_all add: kmem_of_def set_proc_def set_kmem_def)
  have "saved_at (kmem_of s2) (e - 32) ?c"
    by (rule saved_at_same [OF assms(6)]) (use k(1) enter_mem_saved [OF assms(2,3)] assms(2,3) in auto)
  then have "saved_at (kmem_of (s2\<lparr>g_exit_code := code, g_user_running := False\<rparr>)) (e - 32) ?c" by (simp add: kmem_of_def)
  from leave_user_eq [OF this] show ?thesis using assms(5) k(2) by (simp add: exec_on_exit_def Let_def)
qed

section \<open>Programs\<close>

text \<open>What a ring-3 program can do to the kernel: store bytes, which go through the page tables and fault
  (\<open>None\<close>, the exception handler stops the machine) when the page is not the user's, and call the kernel.
  A program that never exits has no result.\<close>

datatype uact = Ustore u32 u8 | Ucall u32 u32 u32

fun user_run :: "code_addrs \<Rightarrow> uact list \<Rightarrow> 'd ksys \<Rightarrow> (console \<times> 'd ksys) option" where
  "user_run cd [] s = None"
| "user_run cd (Ustore a v # us) s = do {
     pa \<leftarrow> translate (pg s) True True a;
     user_run cd us (set_kmem ((kmem_of s)(pa := v)) s)
   }"
| "user_run cd (Ucall n b c # us) s = do {
     ((r, out), s) \<leftarrow> int80 cd n b c s;
     case r of
       Sys_left \<Rightarrow> Some (out, s)
     | Sys_return r \<Rightarrow> do { (out', s) \<leftarrow> user_run cd us s; Some (out @ out', s) }
     | Sys_fault \<Rightarrow> None
   }"

text \<open>Stores into the window, and calls that neither exit nor yield nor pass a range that wraps around.\<close>

fun mild :: "uact \<Rightarrow> bool" where
  "mild (Ustore a v) \<longleftrightarrow> unat a \<in> WIN"
| "mild (Ucall n b c) \<longleftrightarrow> n \<noteq> SYS_EXIT \<and> n \<noteq> SYS_YIELD \<and> unat b + unat c < 2 ^ 32"

definition same_kernel :: "'d ksys \<Rightarrow> 'd ksys \<Rightarrow> bool" where
  "same_kernel s s' \<longleftrightarrow> (\<exists>m. s' = set_kmem m s \<and> same_on (- WIN) (kmem_of s) m)"

lemma kmem_set_kmem [simp]: "kmem_of (set_kmem m s) = m"
  by (simp add: kmem_of_def set_kmem_def)

lemma set_kmem_twice [simp]: "set_kmem m (set_kmem m' s) = set_kmem m s"
  by (simp add: set_kmem_def)

lemma set_kmem_same [simp]: "set_kmem (kmem_of s) s = s"
  by (simp add: set_kmem_def kmem_of_def)

lemma set_kmem_sel [simp]: "pg (set_kmem m s) = pg s" "g_kreturn_esp (set_kmem m s) = g_kreturn_esp s" "fsd (set_kmem m s) = fsd s"
  "proc (kt (set_kmem m s)) = proc (kt s)" "heap (kt (set_kmem m s)) = (heap (kt s))\<lparr>kmem := m\<rparr>"
  by (simp_all add: set_kmem_def)

lemma same_kernel_refl: "same_kernel s s"
  unfolding same_kernel_def by (rule exI [of _ "kmem_of s"]) simp

lemma same_kernel_trans:
  assumes "same_kernel s s'" and "same_kernel s' s''" shows "same_kernel s s''"
proof -
  from assms(1) obtain m where m: "s' = set_kmem m s" "same_on (- WIN) (kmem_of s) m" by (auto simp: same_kernel_def)
  from assms(2) obtain m' where m': "s'' = set_kmem m' s'" "same_on (- WIN) m m'" unfolding same_kernel_def m(1) by auto
  show ?thesis unfolding same_kernel_def using same_on_trans [OF m(2) m'(2)] m(1) m'(1) by (intro exI [of _ m']) simp
qed

lemma bytes_Suc: "bytes m a (Suc n) = m a # bytes m (a + 1) n"
  unfolding bytes_def upt_conv_Cons [OF zero_less_Suc] map_Suc_upt [symmetric] by (simp add: ac_simps)

lemma bytes_cstr: "cstr m a xs \<Longrightarrow> bytes m a (length xs) = xs"
proof (induction xs arbitrary: a)
  case (Cons x xs)
  then show ?case using bytes_Suc [of m a "length xs"] by simp
qed (simp add: bytes_def)

text \<open>Under the kernel's page table the loop of \<^verbatim>\<open>sys_write\<close> prints the buffer up to the end of RAM.\<close>

lemma write_chars_mapped:
  assumes "mapped_by U t" and "unat a \<le> 0x2000000"
  shows "write_chars t m n a = (map Kputc (bytes m a (min n (0x2000000 - unat a))), unat a + n \<le> 0x2000000 \<or> n = 0)"
  using assms(2)
proof (induction n arbitrary: a)
  case (Suc n)
  have t: "translate t False False a = (if a < PHYS_MEM_SIZE then Some a else None)" using translate_mapped [OF assms(1)] by simp
  show ?case
  proof (cases "unat a < 0x2000000")
    case True
    then have u: "unat (a + 1) = Suc (unat a)" by (simp add: unat_word_ariths)
    then have "write_chars t m n (a + 1) = (map Kputc (bytes m (a + 1) (min n (0x2000000 - Suc (unat a)))), Suc (unat a) + n \<le> 0x2000000 \<or> n = 0)"
      using Suc.IH [of "a + 1"] True by simp
    moreover have "min (Suc n) (0x2000000 - unat a) = Suc (min n (0x2000000 - Suc (unat a)))" using True by simp
    ultimately show ?thesis using True t by (auto simp: word_less_nat_alt bytes_Suc simp del: min_Suc_Suc)
  next
    case False
    then show ?thesis using t Suc.prems by (simp add: word_less_nat_alt bytes_def)
  qed
qed (simp add: bytes_def)

lemma sys_write_confined:
  assumes "mapped_by U t" and "unat p + unat n < 2 ^ 32"
  shows "sys_write t m p n = (if 0x800000 \<le> unat p \<and> unat p + unat n \<le> 0xC00000 then (Some (sint n), map Kputc (bytes m p (unat n)))
    else (Some (- 1), []))"
proof -
  have "unat (p + n) = unat p + unat n" using assms(2) by (simp add: unat_word_ariths)
  then have c: "p < USER_BASE \<or> p + n > USER_TOP \<longleftrightarrow> \<not> (0x800000 \<le> unat p \<and> unat p + unat n \<le> 0xC00000)"
    by (auto simp: word_less_nat_alt)
  have "write_chars t m (unat n) p = (map Kputc (bytes m p (unat n)), True)" if "unat p + unat n \<le> 0xC00000"
  proof -
    have "min (unat n) (0x2000000 - unat p) = unat n" using that by simp
    then show ?thesis using write_chars_mapped [OF assms(1), of p m "unat n"] that by simp
  qed
  then show ?thesis unfolding sys_write_def c by simp
qed

lemma mild_runs:
  assumes "mapped_by U (pg s)" and "2 \<in> U" and "list_all mild us"
  shows "\<exists>out s'. user_run cd (us @ [Ucall SYS_EXIT code c]) s = Some (out, exec_on_exit (sint code) s') \<and> same_kernel s s'"
  using assms(1,3)
proof (induction us arbitrary: s)
  case Nil
  then show ?case using same_kernel_refl by (auto simp: int80_def syscall_handler_def zero_regs_def)
next
  case (Cons u us)
  show ?case
  proof (cases u)
    case (Ustore a v)
    have w: "unat a \<in> WIN" using Cons.prems(2) Ustore by simp
    then have "a < PHYS_MEM_SIZE" "unat a div 0x400000 = 2" by (auto simp: word_less_nat_alt intro: div_nat_eqI)
    then have t: "translate (pg s) True True a = Some a" using translate_mapped [OF Cons.prems(1), of True True a] assms(2) by simp
    let ?s = "set_kmem ((kmem_of s)(a := v)) s"
    have k: "same_kernel s ?s" unfolding same_kernel_def using w by (intro exI [of _ "(kmem_of s)(a := v)"]) (auto simp: same_on_word)
    obtain out s' where "user_run cd (us @ [Ucall SYS_EXIT code c]) ?s = Some (out, exec_on_exit (sint code) s')" "same_kernel ?s s'"
      using Cons.IH [of ?s] Cons.prems by auto
    with t Ustore same_kernel_trans [OF k] show ?thesis by auto
  next
    case (Ucall n b d)
    then have n: "n \<noteq> SYS_EXIT" "n \<noteq> SYS_YIELD" "unat b + unat d < 2 ^ 32" using Cons.prems(2) by auto
    then obtain r o1 where "int80 cd n b d s = Some ((Sys_return r, o1), s)"
      using sys_write_confined [OF Cons.prems(1) n(3), of "kmem_of s"] by (fastforce simp: int80_def syscall_handler_def split: if_splits)
    with Cons.IH [OF Cons.prems(1)] Cons.prems(2) Ucall show ?thesis by auto
  qed
qed

section \<open>Properties\<close>


lemma exec_user_load: "exec_load io i s = Some (Some ent, s1) \<Longrightarrow>
    run (enter_user (a_exec_ret ua) (a_eflags ua) (a_g_kreturn ua) ent USER_STACK_TOP s1) = Some (out, s2) \<Longrightarrow>
    exec_user ua io run i s = Some ((g_exit_code s2, out), s2\<lparr>g_user_running := False\<rparr>)"
  by (simp add: exec_user_def Let_def)

lemma set_proc_sel [simp]: "kmem_of (set_proc c s) = kmem_of s" "pg (set_proc c s) = pg s" "fsd (set_proc c s) = fsd s"
  "proc (kt (set_proc c s)) = c" "g_kreturn_esp (set_proc c s) = g_kreturn_esp s"
  by (simp_all add: set_proc_def kmem_of_def)

text \<open>A machine with the small executable on its disk, for the witnesses.\<close>

definition exec_state :: "'d bcache \<Rightarrow> 'd ksys" where
  "exec_state f = \<lparr>kt = boot_state\<lparr>tcb := (\<lambda>_. \<lparr>t_esp = 0, t_stack_base = 0, t_kstack_base = 0, t_kstack_top = 0x70000, t_id = 0, t_name = [],
       t_state = TASK_RUNNING, t_entry = 0, t_next = 0\<rparr>)\<rparr>,
     fsd = f, pg = paging_init 0x9000 \<lparr>page_directory = replicate 1024 0, cr0 = 0x11, cr3 = 0, cr4 = 0\<rparr>,
     g_kreturn_esp = 0, g_exit_code = 0, g_user_running = False\<rparr>"

lemma exec_state_ok: "\<not> g_user_running (exec_state f)" "t_kstack_top (tcb (kt (exec_state f)) (current (kt (exec_state f)))) \<noteq> 0"
  "heap_holds (heap (kt (exec_state f))) Map.empty" "mapped_by {} (pg (exec_state f))" "fsd (exec_state f) = f"
  "esp (proc (kt (exec_state f))) = word_of_nat 0x90000" "kmem_of (exec_state f) = kmem (kheap_init (\<lambda>_. 0))"
  "heap (kt (exec_state f)) = kheap_init (\<lambda>_. 0)"
  using kheap_reach_inv [OF kheap_reach.init] paging_init_mapped [of "\<lparr>page_directory = replicate 1024 0, cr0 = 0x11, cr3 = 0, cr4 = 0\<rparr>" "0x9000"]
  by (simp_all add: exec_state_def boot_state_def kmem_of_def)

lemma tiny_sane: "elf_sane tiny_elf" "length tiny_elf = 88"
  by (simp_all add: elf_sane_def tiny_hdr tiny_phdrs sane_phdr_def) (simp_all add: tiny_elf_def)

lemma tiny_ref: "fst (elf_ref tiny_elf m) = (0, Some 0x800000)" "unat a \<in> {0x800000..<0x800008} \<Longrightarrow> snd (elf_ref tiny_elf m) a =
    (if unat a < 0x800004 then tiny_elf ! (84 + (unat a - 0x800000)) else 0)"
  by (simp_all add: elf_ref_def tiny_sane tiny_hdr tiny_phdrs bad_phdr_def place_def Let_def)

lemma tiny_on_disk:
  "\<exists>f i. mounted (\<lambda>d. s_phase d = Ready) sim_sec 32768 f \<and> i < 64 \<and> node (blocks sim_sec f) i = Some (File tiny_elf)"
proof -
  from sim_file obtain s i where h: "mounted (\<lambda>d. s_phase d = Ready) sim_sec 32768 s" "i < 64" "node (blocks sim_sec s) i = Some (File [])" by blast
  from simfs.write_read [OF h, of 88 tiny_elf 0] h(2) tiny_sane(2) show ?thesis by auto
qed

lemma kmalloc_88: "\<exists>p h. kmalloc 88 (kheap_init (\<lambda>_. 0)) = Some (p, h) \<and> p \<noteq> 0"
proof -
  have "unat (ALIGN8 88) = 88" by (simp add: unat_ALIGN8)
  then show ?thesis using kmalloc_refines [OF heap_ok_init, of 88 "\<lambda>_. 0"] by auto
qed


lemma tiny_loaded:
  "\<exists>(f :: ata_sim bcache) i s1. exec_load sim_io (int i) (exec_state f) = Some (Some 0x800000, s1) \<and> mapped_by {2} (pg s1)
     \<and> esp (proc (kt s1)) = word_of_nat 0x90000 \<and> cstr (kmem_of s1) 0x800000 [0x90, 0x90, 0xEB, 0xFE]"
proof -
  obtain f i where f: "mounted (\<lambda>d. s_phase d = Ready) sim_sec 32768 f" "i < 64" "node (blocks sim_sec f) i = Some (File tiny_elf)"
    using tiny_on_disk by blast
  have m: "mounted (\<lambda>d. s_phase d = Ready) sim_sec 32768 (fsd (exec_state f))" "node (blocks sim_sec (fsd (exec_state f))) i = Some (File tiny_elf)"
    using f by (simp_all add: exec_state_ok)
  from simfs.exec_load_file [OF m(1) f(2) m(2) exec_state_ok(1-4) tiny_sane(1)] obtain e s1 where
    r: "exec_load sim_io (int i) (exec_state f) = Some (e, s1)" "load_keeps sim_sec Map.empty (exec_state f) s1" and
    e: "case e of None \<Rightarrow> tiny_elf = [] \<or> kmalloc (word_of_nat (length tiny_elf)) (heap (kt (exec_state f))) = Some (0, heap (kt (exec_state f)))
           \<or> fst (elf_ref tiny_elf (kmem_of (exec_state f))) = (- 1, None)
        | Some ent \<Rightarrow> load_ready tiny_elf {} ent (exec_state f) s1"
    by (fastforce split: option.splits)
  have ne: "tiny_elf \<noteq> []" using tiny_sane(2) by auto
  obtain ent where ent: "e = Some ent" "load_ready tiny_elf {} ent (exec_state f) s1"
    using e kmalloc_88 tiny_sane(2) tiny_ref(1) ne exec_state_ok(8) [of f] by (cases e) auto
  have "kmem_of s1 a = snd (elf_ref tiny_elf (kmem_of (exec_state f))) a" if "unat a \<in> WIN" for a using ent(2) that by (simp add: load_ready_def)
  then have "kmem_of s1 a = (if unat a < 0x800004 then tiny_elf ! (84 + (unat a - 0x800000)) else 0)" if "unat a \<in> {0x800000..<0x800008}" for a
    using tiny_ref(2) [OF that] that by auto
  from this [of "0x800000"] this [of "0x800001"] this [of "0x800002"] this [of "0x800003"] this [of "0x800004"]
  have "cstr (kmem_of s1) 0x800000 [0x90, 0x90, 0xEB, 0xFE]" by (simp add: tiny_elf_def)
  moreover have "proc (kt s1) = proc (kt (exec_state f))" using r(2) unfolding load_keeps_def by (metis tsys.select_convs(8) tsys.update_convs(6) tsys.update_convs(7) tsys.surjective)
  then have "esp (proc (kt s1)) = word_of_nat 0x90000" using exec_state_ok(6) [of f] by simp
  moreover have "ent = 0x800000" "mapped_by {2} (pg s1)" using ent(2) tiny_ref(1) by (auto simp: load_ready_def)
  ultimately show ?thesis using r(1) ent(1) by blast
qed



lemma slen_cstr: "cstr m (a + n) xs \<Longrightarrow> slen m a n = Some (n + word_of_nat (length xs))"
proof (induction xs arbitrary: n)
  case (Cons x xs)
  then have "slen m a (n + 1) = Some (n + 1 + word_of_nat (length xs))" by (intro Cons.IH) (simp add: add.assoc)
  then show ?case using Cons.prems by (subst slen.simps) (simp add: add.assoc)
qed (subst slen.simps, simp)

text \<open>C34. The program \<^verbatim>\<open>hello\<close>, end to end. When \<^verbatim>\<open>exec_user\<close> enters it with its message in the window, it
  measures the message with its own loop, prints exactly the message through the kernel and exits; \<^verbatim>\<open>exec_user\<close>
  returns 0 and no program is running afterwards.\<close>

theorem hello_prints:
  assumes "exec_load io i s = Some (Some ent, s1)" and "esp (proc (kt s1)) = word_of_nat e" and "52 \<le> e" and "e \<le> 0x800000"
    and "cstr (kmem_of s1) a_msg msg" and "0x800000 \<le> unat a_msg" and "unat a_msg + length msg < 0xC00000" and "mapped_by U (pg s1)"
  shows "\<exists>s3. exec_user ua io (hello_start cd a_msg) i s = Some ((0, map Kputc msg), s3) \<and> \<not> g_user_running s3 \<and> eip (proc (kt s3)) = a_exec_ret ua"
proof -
  let ?u = "enter_user (a_exec_ret ua) (a_eflags ua) (a_g_kreturn ua) ent USER_STACK_TOP s1"
  have lt: "e < 2 ^ 32" using assms(4) by simp
  note eq = enter_user_eq [OF assms(2,3), of "a_exec_ret ua" "a_eflags ua" "a_g_kreturn ua" ent USER_STACK_TOP]
  have "kmem_of ?u (a_msg + word_of_nat k) = kmem_of s1 (a_msg + word_of_nat k)" if "k \<le> length msg" for k
  proof -
    have "unat (a_msg + word_of_nat k) = unat a_msg + k" using that assms(7) by (simp add: unat_word_ariths)
    then have "unat (a_msg + word_of_nat k) \<in> - {e - 52..<e}" using assms(4,6) by auto
    then show ?thesis using enter_mem_same [OF assms(3) lt] unfolding eq set_proc_sel kmem_set_kmem same_on_word by blast
  qed
  then have c: "cstr (kmem_of ?u) a_msg msg" by (rule cstr_cong [OF assms(5)])
  then have n: "slen (kmem_of ?u) a_msg 0 = Some (word_of_nat (length msg))" using slen_cstr [of "kmem_of ?u" a_msg 0 msg] by simp
  have l: "length msg < 0xC00000" "unat (word_of_nat (length msg) :: u32) = length msg" using assms(7) by simp_all
  have p: "mapped_by U (pg ?u)" using assms(8) unfolding eq by simp
  have w: "\<exists>r. int80 cd SYS_WRITE a_msg (word_of_nat (length msg)) ?u = Some ((Sys_return r, map Kputc msg), ?u)"
    using sys_write_confined [OF p, of a_msg "word_of_nat (length msg)" "kmem_of ?u"] l assms(6,7) bytes_cstr [OF c]
    by (simp add: int80_def syscall_handler_def)
  have x: "int80 cd SYS_EXIT 0 0 ?u = Some ((Sys_left, []), exec_on_exit 0 ?u)" by (simp add: int80_def syscall_handler_def)
  have "hello_start cd a_msg ?u = Some (map Kputc msg, exec_on_exit 0 ?u)" using n w x by (auto simp: hello_start_def)
  note run = exec_user_load [where run = "hello_start cd a_msg", OF assms(1) this]
  have "exec_on_exit 0 ?u = set_proc ((proc (kt ?u))\<lparr>ebp := ebp (proc (kt s1)), edi := edi (proc (kt s1)), esi := esi (proc (kt s1)),
      ebx := ebx (proc (kt s1)), eip := a_exec_ret ua, esp := word_of_nat (e - 12)\<rparr>) (?u\<lparr>g_exit_code := 0, g_user_running := False\<rparr>)"
    by (rule user_returns [OF assms(2,3) lt refl refl]) simp
  then show ?thesis using run by (simp add: set_proc_def)
qed

theorem hello_prints_witness:
  "\<exists>(f :: ata_sim bcache) i ua cd s3. exec_user ua sim_io (hello_start cd 0x800000) (int i) (exec_state f)
     = Some ((0, [Kputc 0x90, Kputc 0x90, Kputc 0xEB, Kputc 0xFE]), s3)"
proof -
  obtain f i s1 where s1: "exec_load sim_io (int i) (exec_state f) = Some (Some 0x800000, s1)" "mapped_by {2} (pg s1)"
    "esp (proc (kt s1)) = word_of_nat 0x90000" "cstr (kmem_of s1) 0x800000 [0x90, 0x90, 0xEB, 0xFE]" using tiny_loaded by blast
  from hello_prints [OF s1(1,3) _ _ s1(4) _ _ s1(2)] show ?thesis by simp blast
qed

text \<open>\<^verbatim>\<open>SYS_WRITE\<close> for a range that does not wrap around the address space prints exactly the bytes of
  the range and returns their number when the range lies in the user window, and otherwise prints nothing and
  returns -1. Unknown calls return -1. No such call faults or changes the kernel.\<close>

theorem syscall_write_confined:
  assumes "mapped_by U (pg s)" and "unat (r_ebx r) + unat (r_ecx r) < 2 ^ 32" and "r_eax r \<noteq> SYS_EXIT" and "r_eax r \<noteq> SYS_YIELD"
  shows "syscall_handler cd r s =
    (if r_eax r = SYS_WRITE \<and> 0x800000 \<le> unat (r_ebx r) \<and> unat (r_ebx r) + unat (r_ecx r) \<le> 0xC00000
     then Some ((Sys_return (r\<lparr>r_eax := r_ecx r\<rparr>), map Kputc (bytes (kmem_of s) (r_ebx r) (unat (r_ecx r)))), s)
     else Some ((Sys_return (r\<lparr>r_eax := - 1\<rparr>), []), s))"
  using sys_write_confined [OF assms(1,2), of "kmem_of s"] assms(3,4) by (simp add: syscall_handler_def)

theorem syscall_write_confined_witness:
  "\<exists>cd (s :: ata_sim ksys). syscall_handler cd (zero_regs\<lparr>r_eax := 1, r_ebx := 0x400000, r_ecx := 16\<rparr>) s
     = Some ((Sys_return (zero_regs\<lparr>r_ebx := 0x400000, r_ecx := 16, r_eax := - 1\<rparr>), []), s)"
proof -
  obtain s1 :: "ata_sim ksys" where "mapped_by {2} (pg s1)" using tiny_loaded by blast
  from syscall_write_confined [OF this, of "zero_regs\<lparr>r_eax := 1, r_ebx := 0x400000, r_ecx := 16\<rparr>"] show ?thesis
    by (intro exI [of _ undefined] exI [of _ s1]) simp
qed

text \<open>C35. \<^verbatim>\<open>SYS_WRITE\<close> does not check for wrap-around. With a length that wraps the end of the range to below the
  window's top, a ring-3 program makes the kernel print all of RAM from its pointer on, the memory above the
  window among it, and then stop in a page fault at the end of RAM.\<close>

theorem syscall_write_crashes:
  assumes "mapped_by U (pg s)" and "r_eax r = SYS_WRITE" and "0x800000 \<le> unat (r_ebx r)" and "unat (r_ebx r) \<le> 0xC00000"
    and "2 ^ 32 \<le> unat (r_ebx r) + unat (r_ecx r)"
  shows "syscall_handler cd r s = Some ((Sys_fault, map Kputc (bytes (kmem_of s) (r_ebx r) (0x2000000 - unat (r_ebx r)))), s)"
proof -
  let ?b = "unat (r_ebx r)" and ?c = "unat (r_ecx r)"
  have n: "4294967296 \<le> ?b + ?c" using assms(5) by simp
  have c: "?b + ?c - 4294967296 < 4294967296" "?c < 4294967296" using unat_u32_lt [of "r_ecx r"] assms(4) by linarith+
  have "(?b + ?c) mod 4294967296 = ?b + ?c - 4294967296" using le_mod_geq [OF n] mod_less [OF c(1)] by simp
  moreover have "?b + ?c - 4294967296 \<le> 0xC00000" using assms(4) c(2) by linarith
  ultimately have "unat (r_ebx r + r_ecx r) \<le> 0xC00000" by (simp add: unat_word_ariths)
  then have "\<not> (r_ebx r < USER_BASE \<or> r_ebx r + r_ecx r > USER_TOP)" using assms(3) by (simp add: word_less_nat_alt)
  moreover have "min ?c (0x2000000 - ?b) = 0x2000000 - ?b" "\<not> ?b + ?c \<le> 0x2000000" "?c \<noteq> 0" using n assms(3,4) by linarith+
  then have "write_chars (pg s) (kmem_of s) ?c (r_ebx r) = (map Kputc (bytes (kmem_of s) (r_ebx r) (0x2000000 - ?b)), False)"
    using write_chars_mapped [OF assms(1), of "r_ebx r" "kmem_of s" ?c] assms(4) by simp
  ultimately show ?thesis using assms(2) by (simp add: syscall_handler_def sys_write_def)
qed

theorem syscall_write_crashes_witness:
  "\<exists>cd (s :: ata_sim ksys) out. syscall_handler cd (zero_regs\<lparr>r_eax := 1, r_ebx := 0x800000, r_ecx := 0xFF800001\<rparr>) s = Some ((Sys_fault, out), s)
     \<and> length out = 0x1800000"
proof -
  obtain s1 :: "ata_sim ksys" where "mapped_by {2} (pg s1)" using tiny_loaded by blast
  then have "syscall_handler cd (zero_regs\<lparr>r_eax := 1, r_ebx := 0x800000, r_ecx := 0xFF800001\<rparr>) s1
      = Some ((Sys_fault, map Kputc (bytes (kmem_of s1) 0x800000 0x1800000)), s1)" for cd
    using syscall_write_crashes [of "{2}" s1 "zero_regs\<lparr>r_eax := 1, r_ebx := 0x800000, r_ecx := 0xFF800001\<rparr>" cd] by simp
  moreover have "length (map Kputc (bytes (kmem_of s1) 0x800000 0x1800000)) = 0x1800000" by simp
  ultimately show ?thesis by blast
qed

end
