(* ===== verification/Kernel_Props.thy ===== *)
theory Kernel_Props
  imports Kernel Shell_Files Exec_Props
begin

text \<open>
  What a boot does: the boot counter on the disk, the embedded program, and the whole of \<^verbatim>\<open>main\<close>.
\<close>

section \<open>Strings in memory\<close>

lemma len32: "LENGTH(32) = 32"
  by simp

lemma store_append:
  assumes "length xs + length ys \<le> 2 ^ 32"
  shows "store_bytes (a + word_of_nat (length xs)) ys (store_bytes a xs m) = store_bytes a (xs @ ys) m"
proof
  fix x
  let ?d = "unat (x - a)" and ?n = "length xs"
  show "store_bytes (a + word_of_nat ?n) ys (store_bytes a xs m) x = store_bytes a (xs @ ys) m x"
  proof (cases "ys = []")
    case False
    then have n: "?n < 2 ^ 32" using assms by (cases ys) auto
    have e: "x - (a + word_of_nat ?n) = x - a - word_of_nat ?n" by (rule diff_diff_eq [symmetric])
    have "unat (x - (a + word_of_nat ?n)) = (if ?n \<le> ?d then ?d - ?n else 2 ^ 32 + ?d - ?n)"
      using unat_sub_if_size [of "x - a" "word_of_nat ?n"] unfolding e word_le_nat_alt unat_of_nat_u32 [OF n] word_size by (simp only: len32 add.commute)
    then have "unat (x - (a + word_of_nat ?n)) < length ys \<longleftrightarrow> ?n \<le> ?d \<and> ?d < ?n + length ys"
      "?n \<le> ?d \<Longrightarrow> unat (x - (a + word_of_nat ?n)) = ?d - ?n" using assms by auto
    then show ?thesis by (simp add: store_bytes_def nth_append)
  qed (simp add: store_bytes_def)
qed

lemma cstrI: "bytes m a (length xs) = xs \<Longrightarrow> 0 \<notin> set xs \<Longrightarrow> m (a + word_of_nat (length xs)) = 0 \<Longrightarrow> cstr m a xs"
proof (induction xs arbitrary: a)
  case (Cons x xs)
  then show ?case using bytes_Suc [of m a "length xs"] by (simp add: add.assoc)
qed simp

lemma cstr_store:
  assumes "0 \<notin> set xs" and "length xs < 2 ^ 32 - 1"
  shows "cstr (store_bytes (a + word_of_nat (length xs)) [0] (store_bytes a xs m)) a xs"
proof -
  have e: "store_bytes (a + word_of_nat (length xs)) [0] (store_bytes a xs m) = store_bytes a (xs @ [0]) m"
    using assms(2) by (intro store_append) simp
  have "bytes (store_bytes a (xs @ [0]) m) a (length xs) = xs"
    using assms(2) by (intro nth_equalityI) (simp_all add: store_bytes_def nth_append)
  moreover have "store_bytes a (xs @ [0]) m (a + word_of_nat (length xs)) = 0" using assms(2) by (simp add: store_bytes_def)
  ultimately show ?thesis unfolding e by (intro cstrI [OF _ assms(1)])
qed

lemma itoa_no_nul: "0 \<notin> set (itoa_str v)"
  by (rule cstr_no_nul [OF itoa_cstr])

lemma itoa_same:
  assumes "INT_MIN \<le> v" and "v \<le> INT_MAX" and "unat b + 16 < 2 ^ 32"
  shows "same_on (- {unat b..<unat b + 16}) m (itoa v b m)"
  unfolding same_on_word
proof (intro allI impI)
  fix a :: u32 assume a: "unat a \<in> - {unat b..<unat b + 16}"
  show "itoa v b m a = m a"
  proof (rule itoa_outside [OF assms(1,2)])
    fix k :: nat assume "k < 12"
    then have "unat (b + word_of_nat k) = unat b + k" using assms(3) by (simp add: unat_word_ariths)
    then show "a \<noteq> b + word_of_nat k" using a \<open>k < 12\<close> by auto
  qed
qed

section \<open>The kernel's memory\<close>

lemma kheap_init_again:
  assumes "same_on {HEAP_LO..<HEAP_END} (kmem (kheap_init m)) m'"
  shows "kheap_init m' = (kheap_init m)\<lparr>kmem := m'\<rparr>"
proof -
  let ?H = "{0x400000, 0x400001, 0x400002, 0x400003, 0x400004, 0x400005, 0x400006, 0x400007, 0x400008, 0x400009, 0x40000A, 0x40000B} :: u32 set"
  have "kmem (kheap_init m1) x = (if x \<in> ?H then kmem (kheap_init m2) x else m1 x)" for m1 m2 x
    by (auto simp: kheap_init_def Let_def st32_def)
  moreover have "m' x = kmem (kheap_init m) x" if "x \<in> ?H" for x
  proof -
    have "unat x \<in> {HEAP_LO..<HEAP_END}" using that by auto
    then show ?thesis using assms by (simp add: same_on_word)
  qed
  ultimately have "kmem (kheap_init m') x = m' x" for x by metis
  then have "kmem (kheap_init m') = m'" by (rule ext)
  then show ?thesis by (simp add: kheap_init_def Let_def)
qed

lemma set_mem_sel [simp]: "kmem_of (ks (set_mem m s)) = m" "fsd (ks (set_mem m s)) = fsd (ks s)" "set_mem m (set_mem m' s) = set_mem m s"
  "set_mem m (put_fs f s) = put_fs f (set_mem m s)" "cwd (set_mem m s) = cwd s" "out (set_mem m s) = out s" "ir (set_mem m s) = ir s"
  by (simp_all add: set_mem_def put_fs_def set_kmem_def kmem_of_def)

lemma kstore_eq: "kstore a xs s = set_mem (store_bytes a xs (kmem_of (ks s))) s"
  by (simp add: kstore_def set_mem_def)

lemma say_sel [simp]: "ks (say cs s) = ks s" "cwd (say cs s) = cwd s" "out (say cs s) = out s @ cs" "ir (say cs s) = ir s"
  "say cs (say cs' s) = say (cs' @ cs) s" "put_fs f (say cs s) = say cs (put_fs f s)" "set_mem m (say cs s) = say cs (set_mem m s)"
  "frames (say cs s) = frames s"
  by (simp_all add: say_def put_fs_def set_mem_def)

section \<open>The boot counter\<close>

lemma names_good [simp]: "good_name BOOTCOUNT" "good_name HELLO" "BOOTCOUNT \<noteq> HELLO" "HELLO \<noteq> BOOTCOUNT"
  by (simp_all add: good_name_def plain_def DOT_def DOTDOT_def str_def of_char_def)

definition counted :: "disk \<Rightarrow> int \<Rightarrow> bool" where
  "counted D k \<longleftrightarrow> (if k = 0 then entry_of D 0 BOOTCOUNT = None \<and> free_inode D else file_of D 0 BOOTCOUNT = Some (itoa_str k))"

definition boot_line :: "int \<Rightarrow> console" where
  "boot_line k = [Kprint (str ''[ok] filesystem mounted (boot #''), Kprint (itoa_str k), Kprint (str '')\<newline>'')]"

lemma root_dir: "sfs_inv D \<Longrightarrow> is_dir D 0"
  using tree_okD(1) by (auto simp: sfs_inv_def is_dir_def)

lemma file_entry:
  assumes "sfs_inv D" and "is_dir D d" and "plain nm" and "file_of D d nm = Some c"
  shows "\<exists>i < 64. entry_of D d nm = Some i \<and> node D i = Some (File c)"
  using assms entry_ref(2) [of D d nm] by (auto simp: file_of_def sfs_inv_def split: option.splits node.splits)

context sfs_disk
begin

lemma sync_k:
  assumes "disk_at D s" and "ports_of E = io"
  shows "\<exists>f. sync E s = Some (put_fs f s) \<and> fs.at D f \<and> sec (dev f) = D"
proof -
  have k: "bc_ok good sec cap (fsd (ks s))" "blocks sec (fsd (ks s)) = D" using assms(1) by (auto simp: fs.at_def)
  from bcache_sync_returns [OF k(1)] obtain f where "bcache_sync io (fsd (ks s)) = Some f" "fs.at D f" "sec (dev f) = D"
    using k(2) by (auto simp: fs.at_def)
  then show ?thesis using assms(2) by (auto simp: sync_def put_fs_def)
qed

text \<open>The two ways to the counter's old value: no file yet, or the number printed by the last boot.\<close>

lemma boot_read:
  assumes "disk_at D s" and "sfs_inv D" and "ports_of E = io" and "counted D k" and "0 \<le> k" and "k \<le> INT_MAX" and "unat b + 16 < 2 ^ 32"
  shows "\<exists>i f D' m. boot_count E b s = Some ((int i, k), put_fs f (set_mem m s)) \<and> fs.at D' f \<and> sfs_inv D' \<and> same_but 0 BOOTCOUNT D D'
      \<and> entry_of D' 0 BOOTCOUNT = Some i \<and> (\<exists>old. node D' i = Some (File old)) \<and> same_on (- {unat b..<unat b + 16}) (kmem_of (ks s)) m
      \<and> (\<forall>j < 64. j \<noteq> i \<and> j \<noteq> 0 \<longrightarrow> node D' j = node D j)"
proof -
  have ok: "fs_ok D" and d: "is_dir D 0" and nm: "0 \<notin> set BOOTCOUNT" "plain BOOTCOUNT"
    using assms(2) root_dir names_good(1) by (auto simp: sfs_inv_def good_name_def)
  from lookup_k [OF assms(1) ok d nm(1)] obtain f1 where
    f1: "on_fs (sfs_lookup (layer E) SFS_ROOT BOOTCOUNT) s = Some (case entry_of D 0 BOOTCOUNT of Some i \<Rightarrow> int i | None \<Rightarrow> - 1, put_fs f1 s)" "fs.at D f1"
    using assms(3) by auto
  show ?thesis
  proof (cases "k = 0")
    case True
    then have e: "entry_of D 0 BOOTCOUNT = None" "free_inode D" using assms(4) by (auto simp: counted_def)
    from create_k [of D "put_fs f1 s", OF _ assms(2) d names_good(1) e] f1(2) assms(3) obtain f2 D' i where
      f2: "on_fs (sfs_create (layer E) SFS_ROOT BOOTCOUNT (sint SFS_FILE)) (put_fs f1 s) = Some (int i, put_fs f2 s)" "fs.at D' f2" "sfs_inv D'"
        "same_but 0 BOOTCOUNT D D'" "entry_of D' 0 BOOTCOUNT = Some i" "node D' i = Some (File [])"
        "\<forall>j < 64. j \<noteq> i \<and> j \<noteq> 0 \<longrightarrow> node D' j = node D j" by auto
    have "set_mem (kmem_of (ks s)) s = s" by (simp add: set_mem_def)
    then show ?thesis using f1(1) e(1) f2 True
      by (intro exI [of _ i] exI [of _ f2] exI [of _ D'] exI [of _ "kmem_of (ks s)"]) (simp add: boot_count_def)
  next
    case False
    let ?c = "itoa_str k"
    have "file_of D 0 BOOTCOUNT = Some ?c" using False assms(4) by (simp add: counted_def)
    from file_entry [OF assms(2) d nm(2) this] obtain i where i: "i < 64" "entry_of D 0 BOOTCOUNT = Some i" "node D i = Some (File ?c)" by blast
    have l: "length ?c \<le> 11" using assms(5,6) by (intro itoa_str_length) simp_all
    then have t: "take (unat (15 :: u32)) ?c = ?c" by simp
    from read_k [of D "put_fs f1 s", OF _ ok i(1,3), of 15] f1(2) assms(3) obtain f2 where
      f2: "on_fs (sfs_read (layer E) (int i) 15) (put_fs f1 s) = Some ((int (length ?c), ?c), put_fs f2 s)" "fs.at D f2" unfolding t by auto
    define m where "m = store_bytes (b + word_of_nat (length ?c)) [0] (store_bytes b ?c (kmem_of (ks s)))"
    have "cstr m b ?c" unfolding m_def by (rule cstr_store [OF itoa_no_nul]) (use l in simp)
    then have a: "atoi m b = Some k" using assms(5,6) by (intro atoi_itoa_str) simp_all
    have "m = store_bytes b (?c @ [0]) (kmem_of (ks s))" unfolding m_def by (rule store_append) (use l in simp)
    then have "same_on (- {unat b..<unat b + length (?c @ [0])}) (kmem_of (ks s)) m"
      using store_bytes_same [of b "?c @ [0]" "kmem_of (ks s)"] l assms(7) by simp
    then have "same_on (- {unat b..<unat b + 16}) (kmem_of (ks s)) m" by (rule same_on_mono) (use l in auto)
    moreover have "kstore (b + word_of_int (int (length ?c))) [0] (kstore b ?c (put_fs f2 s)) = put_fs f2 (set_mem m s)"
      by (simp add: kstore_eq m_def)
    ultimately show ?thesis using f1(1) i f2 a assms(2) same_but_refl
      by (intro exI [of _ i] exI [of _ f2] exI [of _ D] exI [of _ m]) (simp add: boot_count_def Let_def)
  qed
qed

lemma boot_counter_runs:
  assumes "disk_at D s" and "sfs_inv D" and "ports_of E = io" and "counted D k" and "0 \<le> k" and "k < INT_MAX" and "unat b + 16 < 2 ^ 32"
  shows "\<exists>f m D'. boot_counter E b s = Some (say (boot_line (k + 1)) (put_fs f (set_mem m s))) \<and> fs.at D' f \<and> sfs_inv D' \<and> sec (dev f) = D'
    \<and> counted D' (k + 1) \<and> same_but 0 BOOTCOUNT D D' \<and> same_on (- {unat b..<unat b + 16}) (kmem_of (ks s)) m
    \<and> (\<exists>i. \<forall>j < 64. j \<noteq> i \<and> j \<noteq> 0 \<longrightarrow> node D' j = node D j)"
proof -
  from boot_read [OF assms(1-5) _ assms(7)] assms(6) obtain i f1 D1 m1 where
    r: "boot_count E b s = Some ((int i, k), put_fs f1 (set_mem m1 s))"
    and D1: "fs.at D1 f1" "sfs_inv D1" "same_but 0 BOOTCOUNT D D1" "entry_of D1 0 BOOTCOUNT = Some i" "\<exists>old. node D1 i = Some (File old)"
      "same_on (- {unat b..<unat b + 16}) (kmem_of (ks s)) m1" "\<forall>j < 64. j \<noteq> i \<and> j \<noteq> 0 \<longrightarrow> node D1 j = node D j" by auto
  let ?c = "itoa_str (k + 1)" and ?s1 = "put_fs f1 (set_mem m1 s)"
  have v: "INT_MIN \<le> k + 1" "k + 1 \<le> INT_MAX" using assms(5,6) by simp_all
  have l: "length ?c \<le> 11" by (rule itoa_str_length [OF v])
  define m where "m = itoa (k + 1) b m1"
  have c: "cstr m b ?c" unfolding m_def by (rule itoa_cstr)
  have u: "unat (word_of_nat (length ?c) :: u32) = length ?c" "min (length ?c) 7168 = length ?c" using l by simp_all
  from D1(5) obtain old where old: "node D1 i = Some (File old)" by blast
  have nm: "plain BOOTCOUNT" using names_good(1) by (simp add: good_name_def)
  from write_k [of D1 "set_mem m ?s1", OF _ D1(2) root_dir [OF D1(2)] nm D1(4) old, of "word_of_nat (length ?c)" ?c] D1(1) u
  obtain f2 D2 where w: "on_fs (sfs_write (cache_layer io) (int i) ?c (word_of_nat (length ?c))) (set_mem m ?s1) = Some (int (length ?c), put_fs f2 (set_mem m s))"
    "fs.at D2 f2" "sfs_inv D2" "same_but 0 BOOTCOUNT D1 D2" "others i D1 D2" "file_of D2 0 BOOTCOUNT = Some ?c" by auto
  from sync_k [of D2 "put_fs f2 (set_mem m s)" E, OF _ assms(3)] w(2) obtain f3 where
    y: "sync E (put_fs f2 (set_mem m s)) = Some (put_fs f3 (set_mem m s))" "fs.at D2 f3" "sec (dev f3) = D2" by auto
  have "boot_counter E b s = Some (say (boot_line (k + 1)) (put_fs f3 (set_mem m s)))"
    using r w(1) y(1) assms(3,6) strlen_cstr [OF c] bytes_cstr [OF c] u
    by (simp add: boot_counter_def boot_line_def m_def kload_def Let_def)
  moreover have "same_on (- {unat b..<unat b + 16}) (kmem_of (ks s)) m"
    using same_on_trans [OF D1(6) itoa_same [OF v assms(7)]] by (simp add: m_def)
  moreover have "counted D2 (k + 1)" using w(6) assms(5) by (simp add: counted_def)
  moreover have "\<forall>j < 64. j \<noteq> i \<and> j \<noteq> 0 \<longrightarrow> node D2 j = node D j" using D1(7) w(5) by (simp add: others_def)
  ultimately show ?thesis using y w(3) same_but_trans [OF D1(3) w(4)] by blast
qed

text \<open>The name is looked up and created when it is missing.\<close>

lemma open_k:
  assumes "disk_at D s" and "sfs_inv D" and "ports_of E = io" and "is_dir D dir" and "good_name name"
    and "entry_of D dir name = None \<and> free_inode D \<or> file_of D dir name \<noteq> None"
  shows "\<exists>i f D'. (do { (ino, s) \<leftarrow> on_fs (sfs_lookup (layer E) (int dir) name) s;
       if ino < 0 then on_fs (sfs_create (layer E) (int dir) name (sint SFS_FILE)) s else Some (ino, s) }) = Some (int i, put_fs f s)
    \<and> fs.at D' f \<and> sfs_inv D' \<and> same_but dir name D D' \<and> entry_of D' dir name = Some i \<and> (\<exists>old. node D' i = Some (File old) \<and> (file_of D dir name = None \<or> file_of D dir name = Some old))"
proof -
  have ok: "fs_ok D" and nm: "0 \<notin> set name" "plain name" using assms(2,5) by (auto simp: sfs_inv_def good_name_def)
  from lookup_k [OF assms(1) ok assms(4) nm(1)] obtain f1 where
    f1: "on_fs (sfs_lookup (layer E) (int dir) name) s = Some (case entry_of D dir name of Some i \<Rightarrow> int i | None \<Rightarrow> - 1, put_fs f1 s)" "fs.at D f1"
    using assms(3) by auto
  show ?thesis
  proof (cases "entry_of D dir name")
    case None
    then have n: "free_inode D" "file_of D dir name = None" using assms(6) by (auto simp: file_of_def)
    from create_k [of D "put_fs f1 s", OF _ assms(2,4,5) None n(1)] f1 assms(3) None n(2) show ?thesis by fastforce
  next
    case (Some i)
    then obtain old where "file_of D dir name = Some old" using assms(6) by auto
    with file_entry [OF assms(2,4) nm(2) this] Some have "node D i = Some (File old)" "file_of D dir name = Some old" by auto
    then show ?thesis using f1 Some assms(2) same_but_refl by fastforce
  qed
qed

lemma install_hello_runs:
  assumes "disk_at D s" and "sfs_inv D" and "ports_of E = io" and "entry_of D 0 HELLO = None \<and> free_inode D \<or> file_of D 0 HELLO \<noteq> None"
  shows "\<exists>f D'. install_hello E start fin s = Some (put_fs f s) \<and> fs.at D' f \<and> sfs_inv D' \<and> sec (dev f) = D' \<and> same_but 0 HELLO D D'
    \<and> file_of D' 0 HELLO = Some (take 7168 (bytes (kmem_of (ks s)) start (unat (fin - start))))"
proof -
  from open_k [OF assms(1-3) root_dir [OF assms(2)] names_good(2) assms(4)] obtain i f1 D1 old where
    o: "(do { (ino, s) \<leftarrow> on_fs (sfs_lookup (layer E) (int 0) HELLO) s;
       if ino < 0 then on_fs (sfs_create (layer E) (int 0) HELLO (sint SFS_FILE)) s else Some (ino, s) }) = Some (int i, put_fs f1 s)"
      "fs.at D1 f1" "sfs_inv D1" "same_but 0 HELLO D D1" "entry_of D1 0 HELLO = Some i" "node D1 i = Some (File old)" by blast
  let ?n = "unat (fin - start)"
  have nm: "plain HELLO" using names_good(2) by (simp add: good_name_def)
  have c: "kload start ?n (put_fs f1 s) = bytes (kmem_of (ks s)) start ?n" by (simp add: kload_def)
  from write_k [of D1 "put_fs f1 s", OF _ o(3) root_dir [OF o(3)] nm o(5,6), of "fin - start" "bytes (kmem_of (ks s)) start ?n"] o(2)
  obtain f2 D2 where w: "on_fs (sfs_write (cache_layer io) (int i) (bytes (kmem_of (ks s)) start ?n) (fin - start)) (put_fs f1 s) = Some (int (min ?n 7168), put_fs f2 s)"
    "fs.at D2 f2" "sfs_inv D2" "same_but 0 HELLO D1 D2" "file_of D2 0 HELLO = Some (take (min ?n 7168) (bytes (kmem_of (ks s)) start ?n))" by auto
  have t: "take (min ?n 7168) xs = take 7168 xs" if "length xs = ?n" for xs :: "u8 list"
    using take_take [of 7168 ?n xs] that by (simp add: min.commute)
  from sync_k [of D2 "put_fs f2 s" E, OF _ assms(3)] w(2) obtain f3 where y: "sync E (put_fs f2 s) = Some (put_fs f3 s)" "fs.at D2 f3" "sec (dev f3) = D2" by auto
  from o(1) have "install_hello E start fin s = do {
      s \<leftarrow> (if int i \<ge> 0 then do { (w, s) \<leftarrow> on_fs (sfs_write (layer E) (int i) (kload start ?n (put_fs f1 s)) (fin - start)) (put_fs f1 s); Some s }
            else Some (put_fs f1 s)); sync E s }"
    by (auto simp: install_hello_def Let_def bind_eq_Some_conv split: if_splits)
  also have "\<dots> = Some (put_fs f3 s)" using w(1) y(1) assms(3) unfolding c by simp
  finally show ?thesis using y(2,3) w(3,5) same_but_trans [OF o(4) w(4)] t [of "bytes (kmem_of (ks s)) start ?n"] by auto
qed

end

end
