(* ===== verification/Boot_Props.thy ===== *)
theory Boot_Props
  imports Kernel_Props
begin

text \<open>
  The whole boot. \<^verbatim>\<open>main\<close> is followed from the machine as the boot loader leaves it to the prompt, and boots are
  repeated on the same disk.
\<close>

section \<open>The disk\<close>

text \<open>The two files of the root directory after \<open>k\<close> boots; before the first there are neither of them, and room
  for both.\<close>

definition boot_ok :: "disk \<Rightarrow> int \<Rightarrow> u8 list \<Rightarrow> bool" where
  "boot_ok D k c \<longleftrightarrow> sfs_inv D \<and>
     (if k = 0 then entry_of D 0 BOOTCOUNT = None \<and> entry_of D 0 HELLO = None
        \<and> (\<exists>i < 64. \<exists>j < 64. i \<noteq> j \<and> node D i = None \<and> node D j = None)
      else file_of D 0 BOOTCOUNT = Some (itoa_str k) \<and> file_of D 0 HELLO = Some c)"

text \<open>The disk that a boot finds: not formatted and never booted from, or left by \<open>k\<close> boots.\<close>

definition boot_disk_ok :: "disk \<Rightarrow> int \<Rightarrow> bool" where
  "boot_disk_ok D k \<longleftrightarrow> k = 0 \<and> get32 (D 0) 0 \<noteq> SFS_MAGIC \<or> (\<exists>c. boot_ok D k c)"

text \<open>Writes to the ports of the interrupt controllers and the timer, and selecting the drive, leave the disk as
  it is.\<close>

definition quiet_ports :: "'d io \<Rightarrow> ('d \<Rightarrow> bool) \<Rightarrow> ('d \<Rightarrow> disk) \<Rightarrow> bool" where
  "quiet_ports io good sec \<longleftrightarrow>
     (\<forall>p v d. good d \<and> (p < 0x1F0 \<or> p = 0x1F6) \<longrightarrow> good (outb io p v d) \<and> sec (outb io p v d) = sec d)"

lemma boot_ok_counted: "boot_ok D k c \<Longrightarrow> counted D k"
  by (auto simp: boot_ok_def counted_def free_inode_def)

lemma formatted_boot_ok:
  assumes "sfs_inv D" and "node D 0 = Some (Dir es)" and "dot_entries 0 0 es" and "\<forall>j < 64. j \<noteq> 0 \<longrightarrow> node D j = None"
  shows "boot_ok D 0 c"
proof -
  have "entry_of D 0 nm = None" if "plain nm" for nm
    using dot_entries_plain [OF assms(3)] that assms(2) map_of_SomeD [of es nm] by (cases "map_of es nm") (auto simp: entry_of_def)
  moreover have "plain BOOTCOUNT" "plain HELLO" using names_good by (auto simp: good_name_def)
  moreover have "\<exists>i < 64. \<exists>j < 64. i \<noteq> j \<and> node D i = None \<and> node D j = None"
    using assms(4) by (intro exI [of _ 1] conjI exI [of _ 2]) auto
  ultimately show ?thesis using assms(1) by (simp add: boot_ok_def)
qed

context sfs_disk
begin

lemma boot_mounts:
  assumes "good d" and "boot_disk_ok (sec d) k"
  shows "\<exists>f D c. sfs_init (cache_layer io) (bcache_init (cold_cache d)) = Some f \<and> fs.at D f \<and> boot_ok D k c"
proof (cases "get32 (sec d 0) 0 = SFS_MAGIC")
  case True
  then obtain c where c: "boot_ok (sec d) k c" using assms(2) by (auto simp: boot_disk_ok_def)
  from fs.sfs_init_wp [OF cold_at [OF assms(1)]] True c show ?thesis by (auto simp: wp_def)
next
  case False
  have "k = 0" using assms(2) False superblock_magic by (auto simp: boot_disk_ok_def boot_ok_def sfs_inv_def)
  moreover have "\<exists>f D. sfs_init (cache_layer io) (bcache_init (cold_cache d)) = Some f \<and> fs.at D f \<and> boot_ok D 0 c" for c
    using mount_blank [OF assms(1) False] formatted_boot_ok unfolding wp_def by blast
  ultimately show ?thesis by blast
qed

lemma after_counter:
  assumes "boot_ok D k c" and "sfs_inv D'" and "counted D' (k + 1)" and "0 \<le> k" and "same_but 0 BOOTCOUNT D D'"
    and "\<forall>j < 64. j \<noteq> i \<and> j \<noteq> 0 \<longrightarrow> node D' j = node D j"
  shows "entry_of D' 0 HELLO = None \<and> free_inode D' \<or> file_of D' 0 HELLO \<noteq> None"
proof -
  have inv: "sfs_inv D" using assms(1) by (simp add: boot_ok_def)
  have "plain HELLO" using names_good(2) by (simp add: good_name_def)
  then have h: "entry_of D' 0 HELLO = entry_of D 0 HELLO" "file_of D' 0 HELLO = file_of D 0 HELLO"
    using assms(5) root_dir [OF inv] names_good(4) unfolding same_but_def by blast+
  show ?thesis
  proof (cases "k = 0")
    case True
    then obtain a b where ab: "a < 64" "b < 64" "a \<noteq> b" "node D a = None" "node D b = None" and e: "entry_of D 0 HELLO = None"
      using assms(1) by (auto simp: boot_ok_def)
    have "a \<noteq> 0" "b \<noteq> 0" using ab(4,5) root_dir [OF inv] unfolding is_dir_def by (metis option.distinct(1))+
    then have "free_inode D'" using assms(6) ab unfolding free_inode_def by (metis (full_types))
    then show ?thesis using e h by simp
  next
    case False
    then show ?thesis using assms(1) h by (simp add: boot_ok_def)
  qed
qed

lemma boot_disk_runs:
  assumes "fsd (ks s) = cold_cache d" and "good d" and "quiet_ports io good sec" and "boot_disk_ok (sec d) k" and "ports_of E = io"
    and "0 \<le> k" and "k < INT_MAX" and "unat (a_b A) + 16 < 2 ^ 32"
    and img: "\<forall>j < unat (a_hello_end A - a_hello_start A). unat (a_hello_start A + word_of_nat j) \<notin> {unat (a_b A)..<unat (a_b A) + 16}"
  shows "\<exists>f m. boot_disk E A s = Some (say (boot_line (k + 1)) (put_fs f (set_mem m s))) \<and> bc_ok good sec cap f \<and> sec (dev f) = blocks sec f
    \<and> boot_ok (sec (dev f)) (k + 1) (take 7168 (bytes (kmem_of (ks s)) (a_hello_start A) (unat (a_hello_end A - a_hello_start A))))
    \<and> same_on (- {unat (a_b A)..<unat (a_b A) + 16}) (kmem_of (ks s)) m"
proof -
  let ?d = "ata_init io d" and ?start = "a_hello_start A" and ?fin = "a_hello_end A"
  have d: "good ?d" "sec ?d = sec d" using assms(2,3) by (auto simp: ata_init_def quiet_ports_def)
  have "boot_disk_ok (sec ?d) k" using assms(4) d(2) by simp
  from boot_mounts [OF d(1) this] obtain f0 D0 c0 where
    m0: "sfs_init (cache_layer io) (bcache_init (cold_cache ?d)) = Some f0" "fs.at D0 f0" "boot_ok D0 k c0" by blast
  have inv0: "sfs_inv D0" using m0(3) by (simp add: boot_ok_def)
  from boot_counter_runs [of D0 "put_fs f0 s", OF _ inv0 assms(5) boot_ok_counted [OF m0(3)] assms(6-8)] m0(2) obtain f1 m D1 i where
    b: "boot_counter E (a_b A) (put_fs f0 s) = Some (say (boot_line (k + 1)) (put_fs f1 (set_mem m s)))" "fs.at D1 f1" "sfs_inv D1"
      "counted D1 (k + 1)" "same_but 0 BOOTCOUNT D0 D1" "same_on (- {unat (a_b A)..<unat (a_b A) + 16}) (kmem_of (ks s)) m"
      "\<forall>j < 64. j \<noteq> i \<and> j \<noteq> 0 \<longrightarrow> node D1 j = node D0 j" by auto
  let ?s1 = "say (boot_line (k + 1)) (put_fs f1 (set_mem m s))"
  from install_hello_runs [of D1 ?s1 E ?start ?fin, OF _ b(3) assms(5) after_counter [OF m0(3) b(3,4) assms(6) b(5,7)]] b(2) obtain f2 D2 where
    h: "install_hello E ?start ?fin ?s1 = Some (put_fs f2 ?s1)" "fs.at D2 f2" "sfs_inv D2" "sec (dev f2) = D2" "same_but 0 HELLO D1 D2"
      "file_of D2 0 HELLO = Some (take 7168 (bytes m ?start (unat (?fin - ?start))))" by auto
  have "bytes m ?start (unat (?fin - ?start)) = bytes (kmem_of (ks s)) ?start (unat (?fin - ?start))"
    using b(6) img by (auto simp: bytes_def same_on_word)
  moreover have "file_of D2 0 BOOTCOUNT = Some (itoa_str (k + 1))"
  proof -
    have "plain BOOTCOUNT" using names_good(1) by (simp add: good_name_def)
    then have "file_of D2 0 BOOTCOUNT = file_of D1 0 BOOTCOUNT" using h(5) root_dir [OF b(3)] names_good(3) unfolding same_but_def by blast
    then show ?thesis using b(4) assms(6) by (simp add: counted_def)
  qed
  ultimately have "boot_ok D2 (k + 1) (take 7168 (bytes (kmem_of (ks s)) ?start (unat (?fin - ?start))))"
    using h(3,6) assms(6) by (simp add: boot_ok_def)
  moreover have "boot_disk E A s = Some (say (boot_line (k + 1)) (put_fs f2 (set_mem m s)))"
  proof -
    have "(cold_cache d)\<lparr>dev := ?d\<rparr> = cold_cache ?d" "dev (cold_cache d) = d" by (simp_all add: cold_cache_def)
    then have "boot_disk E A s = do { f \<leftarrow> sfs_init (cache_layer io) (bcache_init (cold_cache ?d)); k \<leftarrow> boot_counter E (a_b A) (put_fs f s);
        install_hello E ?start ?fin k }"
      using assms(1,5) by (simp add: boot_disk_def set_dev_def the_dev_def Let_def put_fs_def)
    then show ?thesis using m0(1) b(1) h(1) by simp
  qed
  ultimately show ?thesis using h(2,4) b(6) by (intro exI [of _ f2] exI [of _ m]) (auto simp: fs.at_def)
qed

end

section \<open>The tasks\<close>

text \<open>Creating a task on a heap with room for it.\<close>

lemma create_fresh:
  assumes "heap_ok (heap s) bs" and "a_malloc 64 HEAP_LO bs = Some (p1, bs1)" and "a_malloc 16384 HEAP_LO bs1 = Some (p2, bs2)"
    and "a_malloc 8192 HEAP_LO bs2 = Some (p3, bs3)" and "0 < p1" "p1 < 2 ^ 31" and "0 < p2" "p2 + 16384 \<le> 2 ^ 31" and "0 < p3" "p3 < 2 ^ 31"
    and "{p2..<p2 + 16384} \<inter> hdrs HEAP_LO bs3 = {}"
  shows "\<exists>s'. task_create cd name ent s = Some (word_of_nat p1, s') \<and> heap_ok (heap s') bs3"
proof -
  have A: "unat (ALIGN8 64) = 64" "unat (ALIGN8 16384) = 16384" "unat (ALIGN8 8192) = 8192" by (simp_all add: unat_ALIGN8)
  from kmalloc_refines [OF assms(1), of 64] assms(2) obtain h1 where h1: "kmalloc 64 (heap s) = Some (word_of_nat p1, h1)" "heap_ok h1 bs1" by (auto simp: A)
  from kmalloc_refines [OF h1(2), of 16384] assms(3) obtain h2 where h2: "kmalloc 16384 h1 = Some (word_of_nat p2, h2)" "heap_ok h2 bs2" by (auto simp: A)
  from kmalloc_refines [OF h2(2), of 8192] assms(4) obtain h3 where h3: "kmalloc 8192 h2 = Some (word_of_nat p3, h3)" "heap_ok h3 bs3" by (auto simp: A)
  have nz: "(word_of_nat p1 :: u32) \<noteq> 0" "(word_of_nat p2 :: u32) \<noteq> 0" "(word_of_nat p3 :: u32) \<noteq> 0"
    using of_nat_u32_inj [of p1 0] of_nat_u32_inj [of p2 0] of_nat_u32_inj [of p3 0] assms(5-10) by auto
  from push_first_frame [OF assms(8), of cd "kmem h3"] obtain m where
    m: "push_words [a_task_exit cd, a_task_bootstrap cd, 0, 0, 0, 0] (word_of_nat p2 + STACK_SIZE) (kmem h3) = (word_of_nat (p2 + 16360), m)"
      "same_on (- {p2..<p2 + 16384}) (kmem h3) m" by blast
  have "seg m HEAP_LO bs3 = seg (kmem h3) HEAP_LO bs3"
  proof (rule seg_cong)
    fix x assume x: "x \<in> hdrs HEAP_LO bs3"
    have "seg (kmem h3) HEAP_LO bs3" using h3(2) by (simp add: heap_ok_def)
    then have "x < 2 ^ 32" using hdrs_ge [OF x] seg_extent [of "kmem h3" HEAP_LO bs3] by simp
    then show "byte_at m x = byte_at (kmem h3) x" using m(2) x assms(11) by (auto simp: same_on_def)
  qed
  then have "heap_ok (h3\<lparr>kmem := m\<rparr>) bs3" using h3(2) by (simp add: heap_ok_def)
  then show ?thesis using h1(1) h2(1) h3(1) nz m(1)
    by (simp add: task_create_def set_tcb_def set_next_def get_next_def Let_def del: push_words.simps of_nat_add)
qed

lemma create_ring:
  assumes r: "task_reach cd s L C" and nh: "\<not> halted (proc s)" and ring: "ring (get_next s) (head s) xs" and al: "list_all (alive s) xs"
    and c: "task_create cd name ent s = Some (t, s')" "t \<noteq> 0"
  shows "\<exists>L' C'. task_reach cd s' L' C' \<and> ring (get_next s') (head s') (head s # t # tl xs) \<and> list_all (alive s') (head s # t # tl xs)
    \<and> proc s' = proc s \<and> head s' = head s \<and> current s' = current s"
proof -
  from task_reach_ok [OF r] obtain ys where "tasks_ok s L C ys" by blast
  then have ok: "ring_ok s L C ys" by (simp add: tasks_ok_def)
  have ys: "ys = xs" using ring_unique [OF ring_okD(3) [OF ok] ring] .
  have P: "task_create_post cd name ent s L C xs t s'" using wpD [OF task_create_ok [OF ok, of cd name ent]] c(1) unfolding ys by auto
  then have P': "ring_ok s' (L(unat t \<mapsto> 64, unat (t_stack_base (tcb s' t)) \<mapsto> 16384, unat (t_kstack_base (tcb s' t)) \<mapsto> 8192))
      (C(t \<mapsto> first_context cd (t_stack_base (tcb s' t)))) (head s # t # tl xs)"
    "t_state (tcb s' t) = TASK_READY" "\<forall>u \<in> set xs. t_state (tcb s' u) = t_state (tcb s u)" "proc s' = proc s" "head s' = head s" "current s' = current s"
    using c(2) by (auto simp: task_create_post_def Let_def)
  have "alive s' u" if "u \<in> set xs" for u using al P'(3) that by (auto simp: list_all_iff)
  moreover have "head s \<in> set xs" by (rule ringD(4) [OF ring])
  moreover have "set (tl xs) \<subseteq> set xs" by (cases xs) auto
  ultimately have "list_all (alive s') (head s # t # tl xs)" using P'(2) by (auto simp: list_all_iff)
  then show ?thesis using task_reach.create [OF r nh c(1)] ring_okD(3) [OF P'(1)] P'(4-6) by fastforce
qed

lemma three_tasks:
  assumes "heap s = kheap_init m" and "\<not> halted (proc s)"
  shows "\<exists>s0 t1 s1 t2 s2 L C. tasking_init s = Some s0 \<and> task_create cd nm1 e1 s0 = Some (t1, s1) \<and> task_create cd nm2 e2 s1 = Some (t2, s2)
    \<and> task_reach cd s2 L C \<and> ring (get_next s2) (head s2) [current s2, t2, t1] \<and> head s2 = current s2 \<and> task_count s2 = Some 3 \<and> proc s2 = proc s"
proof -
  from tasking_init_ok [OF assms, of "proc s"] obtain s0 where s0: "tasking_init s = Some s0"
    "tasks_ok s0 [unat (current s0) \<mapsto> 64, unat (t_kstack_base (tcb s0 (current s0))) \<mapsto> 8192] [current s0 \<mapsto> proc s] [current s0]"
    "heap_ok (heap s0) [(64, False), (8192, False), (4186012, True)]" "proc s0 = proc s" "head s0 = current s0" by blast
  note r0 = task_reach.boot [OF assms s0(1), of cd]
  have g0: "ring (get_next s0) (head s0) [current s0]" "list_all (alive s0) [current s0]"
    using s0(2,4) assms(2) ring_okD(3) by (auto simp: tasks_ok_def states_ok_def)
  from create_fresh [OF s0(3), of 4202596 "[(64, False), (8192, False), (64, False), (4185936, True)]" 4202672
    "[(64, False), (8192, False), (64, False), (16384, False), (4169540, True)]" 4219068
    "[(64, False), (8192, False), (64, False), (16384, False), (8192, False), (4161336, True)]" cd nm1 e1] obtain s1 where
    s1: "task_create cd nm1 e1 s0 = Some (4202596, s1)"
      "heap_ok (heap s1) [(64, False), (8192, False), (64, False), (16384, False), (8192, False), (4161336, True)]" by (auto simp: Int_Un_distrib)
  from create_ring [OF r0 _ g0 s1(1)] s0(4,5) assms(2) obtain L1 C1 where
    r1: "task_reach cd s1 L1 C1" "ring (get_next s1) (head s1) [current s0, 4202596]" "list_all (alive s1) [current s0, 4202596]" "proc s1 = proc s"
      "head s1 = current s0" "current s1 = current s0" by auto
  from create_fresh [OF s1(2), of 4227272 "[(64, False), (8192, False), (64, False), (16384, False), (8192, False), (64, False), (4161260, True)]" 4227348
    "[(64, False), (8192, False), (64, False), (16384, False), (8192, False), (64, False), (16384, False), (4144864, True)]" 4243744
    "[(64, False), (8192, False), (64, False), (16384, False), (8192, False), (64, False), (16384, False), (8192, False), (4136660, True)]" cd nm2 e2]
  obtain s2 where s2: "task_create cd nm2 e2 s1 = Some (4227272, s2)" by (auto simp: Int_Un_distrib)
  from create_ring [OF r1(1) _ r1(2,3) s2] r1(4-6) assms(2) obtain L2 C2 where
    r2: "task_reach cd s2 L2 C2" "ring (get_next s2) (head s2) [current s0, 4227272, 4202596]" "list_all (alive s2) [current s0, 4227272, 4202596]"
      "proc s2 = proc s" "head s2 = current s0" "current s2 = current s0" by auto
  have "task_count s2 = Some 3" using ring_walks(1) [OF r2(2)] r2(3) by simp
  then show ?thesis using s0(1) s1(1) s2 r2
    by (intro exI [of _ s0] exI [of _ 4202596] exI [of _ s1] exI [of _ 4227272] exI [of _ s2] exI [of _ L2] exI [of _ C2]) simp
qed

definition ready_lines :: console where
  "ready_lines = [Kprint (str ''[ok] scheduler + ''), Kprint_dec 3, Kprint (str '' tasks\<newline>''), Kprint (str ''\<newline>type 'help' for commands.\<newline>''),
     Set_color 10, Kprint (str ''/''), Kprint (str '' $ ''), Set_color 7]"

definition handlers_on :: "isys \<Rightarrow> bool" where
  "handlers_on i \<longleftrightarrow> interrupt_handlers i = (replicate 256 None)[33 := Some Keyboard_callback, 32 := Some Timer_callback] \<and> line_handler (kbd i)"

lemma init_timer_runs:
  assumes "quiet_ports io good sec" and "good d" and "length (interrupt_handlers i) = 256"
  shows "\<exists>d'. init_timer io 100 (i, d) = Some (i\<lparr>interrupt_handlers := (interrupt_handlers i)[32 := Some Timer_callback]\<rparr>, d') \<and> good d' \<and> sec d' = sec d"
  using assms by (simp add: init_timer_def register_interrupt_handler_def Let_def quiet_ports_def)

lemma boot_tasks_runs:
  assumes "heap (kt (ks s)) = kheap_init m" and "\<not> halted (proc (kt (ks s)))" and "interrupt_handlers (ir s) = replicate 256 None" and "cwd s = 0"
    and "quiet_ports (ports_of E) good sec" and "good (the_dev s)"
  shows "\<exists>s' L C t1 t2 d. boot_tasks E s = Some s' \<and> task_reach (cds E) (kt (ks s')) L C
    \<and> ring (get_next (kt (ks s'))) (current (kt (ks s'))) [current (kt (ks s')), t2, t1] \<and> task_count (kt (ks s')) = Some 3
    \<and> proc (kt (ks s')) = (proc (kt (ks s)))\<lparr>int_flag := True\<rparr> \<and> handlers_on (ir s') \<and> out s' = out s @ ready_lines \<and> cwd s' = 0
    \<and> pg (ks s') = pg (ks s) \<and> frames s' = frames s \<and> fsd (ks s') = (fsd (ks s))\<lparr>dev := d\<rparr> \<and> good d \<and> sec d = sec (the_dev s)"
proof -
  from three_tasks [OF assms(1,2), of "cds E" "str ''worker''" "a_worker E" "str ''worker''" "a_worker E"] obtain s0 t1 s1 t2 s2 L C where
    t: "tasking_init (kt (ks s)) = Some s0" "task_create (cds E) (str ''worker'') (a_worker E) s0 = Some (t1, s1)"
      "task_create (cds E) (str ''worker'') (a_worker E) s1 = Some (t2, s2)" "task_reach (cds E) s2 L C"
      "ring (get_next s2) (head s2) [current s2, t2, t1]" "head s2 = current s2" "task_count s2 = Some 3" "proc s2 = proc (kt (ks s))" by blast
  have st: "sti s2 = s2\<lparr>heap := (heap s2)\<lparr>kmem := kmem (heap s2)\<rparr>, proc := (proc s2)\<lparr>int_flag := True\<rparr>\<rparr>" by (simp add: sti_def)
  have r: "task_reach (cds E) (sti s2) L C" unfolding st by (rule task_reach.run [OF t(4)]) (use t(8) assms(2) in auto)
  have g: "get_next (sti s2) = get_next s2" "head (sti s2) = head s2" "current (sti s2) = current s2" "proc (sti s2) = (proc (kt (ks s)))\<lparr>int_flag := True\<rparr>"
    using t(8) by (simp_all add: sti_def get_next_def fun_eq_iff)
  have "tcb (sti s2) = tcb s2" by (simp add: sti_def)
  then have c: "task_count (sti s2) = Some 3" using ring_walks(1) [OF t(5)] ring_walks(1) [of "sti s2" "[current s2, t2, t1]"] t(5,7) g by simp
  let ?i = "(ir s)\<lparr>interrupt_handlers := (replicate 256 None)[33 := Some Keyboard_callback]\<rparr>"
  have k: "init_keyboard (ir s) = Some ?i" using assms(3) by (simp add: init_keyboard_def register_interrupt_handler_def)
  from init_timer_runs [OF assms(5,6), of ?i] obtain d where d: "init_timer (ports_of E) 100 (?i, the_dev s) =
      Some (?i\<lparr>interrupt_handlers := (interrupt_handlers ?i)[32 := Some Timer_callback]\<rparr>, d)" "good d" "sec d = sec (the_dev s)" by auto
  define i' where "i' = ?i\<lparr>interrupt_handlers := (interrupt_handlers ?i)[32 := Some Timer_callback]\<rparr>"
  define s' where "s' = s\<lparr>ir := i'\<lparr>kbd := keyboard_set_line_handler (kbd i')\<rparr>, ks := (ks s)\<lparr>kt := sti s2, fsd := (fsd (ks s))\<lparr>dev := d\<rparr>\<rparr>, out := out s @ ready_lines\<rparr>"
  have "boot_tasks E s = Some s'"
    using k t(1-3,7) d(1) assms(4)
    by (simp add: boot_tasks_def i'_def s'_def ready_lines_def shell_init_def prompt_def print_cwd_def set_kt_def set_dev_def the_dev_def say_def puts_def Let_def VGA_COLOR_def)
  moreover have "handlers_on (ir s')" by (simp add: s'_def i'_def handlers_on_def keyboard_set_line_handler_def)
  moreover have "kt (ks s') = sti s2" "out s' = out s @ ready_lines" "cwd s' = 0" "pg (ks s') = pg (ks s)" "frames s' = frames s" "fsd (ks s') = (fsd (ks s))\<lparr>dev := d\<rparr>"
    using assms(4) by (simp_all add: s'_def)
  ultimately show ?thesis using r c t(5,6) g d(2,3) by (intro exI [of _ s'] exI [of _ L] exI [of _ C] exI [of _ t1] exI [of _ t2] exI [of _ d]) simp
qed

section \<open>The whole boot\<close>

text \<open>The machine as the boot loader leaves it, with the kernel's statics as the compiler initialised them; \<open>d\<close> is
  the state of the devices.\<close>

definition powered_on :: "'d machine \<Rightarrow> 'd \<Rightarrow> bool" where
  "powered_on m d \<longleftrightarrow> length (gdt (seg_tables m)) = 6
     \<and> idt m = replicate 256 \<lparr>low_offset = 0, selector = 0, always0 = 0, flags = 0, high_offset = 0\<rparr>
     \<and> fsd (ks (kern m)) = cold_cache d \<and> length (page_directory (pg (ks (kern m)))) = 1024
     \<and> interrupt_handlers (ir (kern m)) = replicate 256 None \<and> \<not> halted (proc (kt (ks (kern m)))) \<and> cwd (kern m) = SFS_ROOT \<and> out (kern m) = []"

text \<open>The embedded program lies below the stack with the buffer of \<^verbatim>\<open>main\<close>, and both below the heap.\<close>

definition linked :: "kaddrs \<Rightarrow> bool" where
  "linked A \<longleftrightarrow> unat (a_hello_start A) \<le> unat (a_hello_end A) \<and> unat (a_hello_end A) \<le> unat (a_b A) \<and> unat (a_b A) + 16 \<le> HEAP_LO"

definition program_of :: "kaddrs \<Rightarrow> 'd machine \<Rightarrow> u8 list" where
  "program_of A m = take 7168 (bytes (kmem_of (ks (kern m))) (a_hello_start A) (unat (a_hello_end A) - unat (a_hello_start A)))"

definition welcome_lines :: console where
  "welcome_lines = [Screen_init, Set_color 11, Kprint (str ''============================\<newline>''), Kprint (str ''   Welcome to JacobOS\<newline>''),
     Kprint (str ''============================\<newline>''), Set_color 7, Kprint (str ''[ok] paging + heap\<newline>'')]"

definition segs_ok :: "kaddrs \<Rightarrow> segs \<Rightarrow> bool" where
  "segs_ok A s \<longleftrightarrow> gdtr (scpu s) = \<lparr>dt_limit = 47, dt_base = a_gdt A\<rparr> \<and> idtr (scpu s) = \<lparr>dt_limit = 2047, dt_base = a_idt A\<rparr>
     \<and> sel_cs (scpu s) = GDT_KERNEL_CODE \<and> sel_data (scpu s) = GDT_KERNEL_DATA \<and> sel_tr (scpu s) = GDT_TSS
     \<and> flat_seg True 0 (sel_entry s GDT_KERNEL_CODE) \<and> flat_seg False 0 (sel_entry s GDT_KERNEL_DATA)
     \<and> flat_seg True 3 (sel_entry s (GDT_USER_CODE OR 3)) \<and> flat_seg False 3 (sel_entry s (GDT_USER_DATA OR 3))
     \<and> seg_base (sel_entry s GDT_TSS) = a_tss A \<and> tss_ss0 (tss s) = 0x10"

lemma pic_remap_quiet:
  assumes "quiet_ports io good sec" and "good d"
  shows "good (pic_remap io d)" and "sec (pic_remap io d) = sec d"
proof -
  have q: "good (outb io p v d) \<and> sec (outb io p v d) = sec d" if "good d" "p < 0x1F0" for p v d using assms(1) that unfolding quiet_ports_def by blast
  have "good (pic_remap io d) \<and> sec (pic_remap io d) = sec d" unfolding pic_remap_def io_wait_def Let_def by (simp add: q assms(2))
  then show "good (pic_remap io d)" and "sec (pic_remap io d) = sec d" by blast+
qed

lemma below_heap: "unat x < HEAP_LO \<Longrightarrow> kmem (kheap_init m) x = m x"
  by (auto simp: kheap_init_def Let_def st32_def)

lemma boot_hardware_runs:
  assumes "powered_on m d" and "quiet_ports (ports_of E) good sec" and "good d"
  shows "\<exists>m' d'. boot_hardware E A m = Some m' \<and> out (kern m') = welcome_lines \<and> segs_ok A (seg_tables m') \<and> gates_ok (isr_stub A) (irq_stub A) (idt m')
    \<and> mapped_by {} (pg (ks (kern m'))) \<and> frames (kern m') = pmm_init \<and> fsd (ks (kern m')) = cold_cache d' \<and> good d' \<and> sec d' = sec d
    \<and> heap (kt (ks (kern m'))) = kheap_init (kmem_of (ks (kern m))) \<and> proc (kt (ks (kern m'))) = proc (kt (ks (kern m)))
    \<and> ir (kern m') = ir (kern m) \<and> cwd (kern m') = cwd (kern m)"
proof -
  note P = assms(1) [unfolded powered_on_def]
  from gdt_install_segs [of "seg_tables m" "a_gdt A" "a_tss A"] P obtain g where
    g: "gdt_install (a_gdt A) (a_tss A) (seg_tables m) = Some g" "segs_ok A (g\<lparr>scpu := load_idt (a_idt A) (scpu g)\<rparr>)"
    by (auto simp: segs_ok_def load_idt_def sel_entry_def)
  from isr_install_gates [of "ports_of E" "isr_stub A" "irq_stub A" "a_idt A" "scpu g" d] P obtain t where
    t: "isr_install (ports_of E) (isr_stub A) (irq_stub A) (a_idt A) (idt m, scpu g, d) = Some (t, load_idt (a_idt A) (scpu g), pic_remap (ports_of E) d)"
      "gates_ok (isr_stub A) (irq_stub A) t" by auto
  have c: "dev (cold_cache d) = d" "(cold_cache d)\<lparr>dev := d'\<rparr> = cold_cache d'" for d' by (simp_all add: cold_cache_def)
  have "\<exists>m'. boot_hardware E A m = Some m' \<and> out (kern m') = welcome_lines \<and> seg_tables m' = g\<lparr>scpu := load_idt (a_idt A) (scpu g)\<rparr> \<and> idt m' = t
    \<and> pg (ks (kern m')) = paging_init (a_pd A) (pg (ks (kern m))) \<and> frames (kern m') = pmm_init \<and> fsd (ks (kern m')) = cold_cache (pic_remap (ports_of E) d)
    \<and> heap (kt (ks (kern m'))) = kheap_init (kmem_of (ks (kern m))) \<and> proc (kt (ks (kern m'))) = proc (kt (ks (kern m)))
    \<and> ir (kern m') = ir (kern m) \<and> cwd (kern m') = cwd (kern m)"
    using g(1) t(1) P c
    by (simp add: boot_hardware_def set_kt_def set_dev_def the_dev_def set_heap_def kmem_of_def Let_def welcome_lines_def puts_def say_def VGA_COLOR_def)
  then show ?thesis using g(2) t(2) pic_remap_quiet [OF assms(2,3)] paging_init_mapped [of "pg (ks (kern m))" "a_pd A"] P by auto
qed

text \<open>What holds of the machine when \<^verbatim>\<open>main\<close> has reached its idle loop.\<close>

definition up :: "'d env \<Rightarrow> kaddrs \<Rightarrow> 'd machine \<Rightarrow> bool" where
  "up E A m \<longleftrightarrow> segs_ok A (seg_tables m) \<and> gates_ok (isr_stub A) (irq_stub A) (idt m) \<and> mapped_by {} (pg (ks (kern m)))
     \<and> frames (kern m) = pmm_init \<and> handlers_on (ir (kern m)) \<and> int_flag (proc (kt (ks (kern m)))) \<and> cwd (kern m) = SFS_ROOT
     \<and> task_count (kt (ks (kern m))) = Some 3
     \<and> (\<exists>L C t1 t2. task_reach (cds E) (kt (ks (kern m))) L C
          \<and> ring (get_next (kt (ks (kern m)))) (current (kt (ks (kern m)))) [current (kt (ks (kern m))), t2, t1])"

lemma blocks_dev: "sec d = sec (dev f) \<Longrightarrow> blocks sec (f\<lparr>dev := d\<rparr>) = blocks sec f"
  by (simp add: blocks_def fun_eq_iff split: option.split)

context sfs_disk
begin

lemma main_runs:
  assumes "ports_of E = io" and "quiet_ports io good sec" and "powered_on m d" and "good d" and "boot_disk_ok (sec d) k"
    and "0 \<le> k" and "k < INT_MAX" and "linked A"
  shows "\<exists>m'. main E A m = Some m' \<and> up E A m' \<and> out (kern m') = welcome_lines @ boot_line (k + 1) @ ready_lines
    \<and> mounted good sec cap (fsd (ks (kern m'))) \<and> good (the_dev (kern m')) \<and> boot_ok (sec (the_dev (kern m'))) (k + 1) (program_of A m)"
proof -
  let ?mem = "kmem_of (ks (kern m))" and ?B = "{unat (a_b A)..<unat (a_b A) + 16}" and ?n = "unat (a_hello_end A) - unat (a_hello_start A)"
  note P = assms(3) [unfolded powered_on_def] and N = assms(8) [unfolded linked_def]
  from boot_hardware_runs [of m d E good sec A] assms(1-4) obtain m1 d1 where
    m1: "boot_hardware E A m = Some m1" "out (kern m1) = welcome_lines" "segs_ok A (seg_tables m1)" "gates_ok (isr_stub A) (irq_stub A) (idt m1)"
      "mapped_by {} (pg (ks (kern m1)))" "frames (kern m1) = pmm_init" "fsd (ks (kern m1)) = cold_cache d1" "good d1" "sec d1 = sec d"
      "heap (kt (ks (kern m1))) = kheap_init ?mem" "proc (kt (ks (kern m1))) = proc (kt (ks (kern m)))" "ir (kern m1) = ir (kern m)"
      "cwd (kern m1) = cwd (kern m)" by auto
  have len: "unat (a_hello_end A - a_hello_start A) = ?n" using N by (simp add: unat_sub_if_size word_le_nat_alt)
  have at: "unat (a_hello_start A + word_of_nat j) = unat (a_hello_start A) + j" if "j < ?n" for j
  proof -
    have "j < 4294967296" "unat (a_hello_start A) + j < 4294967296" using that N by linarith+
    then show ?thesis by (simp add: unat_word_ariths)
  qed
  have prog: "take 7168 (bytes (kmem_of (ks (kern m1))) (a_hello_start A) ?n) = program_of A m"
  proof -
    have "kmem_of (ks (kern m1)) (a_hello_start A + word_of_nat j) = ?mem (a_hello_start A + word_of_nat j)" if "j < ?n" for j
    proof -
      have "unat (a_hello_start A + word_of_nat j) < HEAP_LO" using at [OF that] that N by linarith
      then show ?thesis using m1(10) by (simp add: kmem_of_def below_heap)
    qed
    then have "bytes (kmem_of (ks (kern m1))) (a_hello_start A) ?n = bytes ?mem (a_hello_start A) ?n" by (auto simp: bytes_def)
    then show ?thesis by (simp add: program_of_def)
  qed
  have dok: "boot_disk_ok (sec d1) k" using assms(5) m1(9) by simp
  have b16: "unat (a_b A) + 16 < 2 ^ 32" using N by simp
  have img: "\<forall>j < unat (a_hello_end A - a_hello_start A). unat (a_hello_start A + word_of_nat j) \<notin> ?B"
    unfolding len using at N by auto
  from boot_disk_runs [OF m1(7,8) assms(2) dok assms(1,6,7) b16 img] obtain f mm where
    b: "boot_disk E A (kern m1) = Some (say (boot_line (k + 1)) (put_fs f (set_mem mm (kern m1))))" "bc_ok good sec cap f" "sec (dev f) = blocks sec f"
      "boot_ok (sec (dev f)) (k + 1) (program_of A m)" "same_on (- ?B) (kmem_of (ks (kern m1))) mm" unfolding len prog by blast
  let ?k = "say (boot_line (k + 1)) (put_fs f (set_mem mm (kern m1)))"
  have e: "kmem_of (ks (kern m1)) = kmem (kheap_init ?mem)" using m1(10) by (simp add: kmem_of_def [of "ks (kern m1)"])
  have "kheap_init mm = (kheap_init ?mem)\<lparr>kmem := mm\<rparr>"
    by (rule kheap_init_again [OF same_on_mono [OF b(5) [unfolded e]]]) (use N in auto)
  then have h: "heap (kt (ks ?k)) = kheap_init mm" using m1(10) by (simp add: set_mem_def set_kmem_def)
  have hp: "\<not> halted (proc (kt (ks ?k)))" "interrupt_handlers (ir ?k) = replicate 256 None" "cwd ?k = 0" "the_dev ?k = dev f"
    using P m1(11-13) by (simp_all add: set_mem_def set_kmem_def the_dev_def)
  have q: "quiet_ports (ports_of E) good sec" "good (the_dev ?k)" using assms(1,2) b(2) hp(4) by (simp_all add: bc_ok_def)
  from boot_tasks_runs [OF h hp(1-3) q] obtain k' L C t1 t2 d' where
    t: "boot_tasks E ?k = Some k'" "task_reach (cds E) (kt (ks k')) L C" "ring (get_next (kt (ks k'))) (current (kt (ks k'))) [current (kt (ks k')), t2, t1]"
      "task_count (kt (ks k')) = Some 3" "proc (kt (ks k')) = (proc (kt (ks ?k)))\<lparr>int_flag := True\<rparr>" "handlers_on (ir k')" "out k' = out ?k @ ready_lines"
      "cwd k' = 0" "pg (ks k') = pg (ks ?k)" "frames k' = frames ?k" "fsd (ks k') = f\<lparr>dev := d'\<rparr>" "good d'" "sec d' = sec (dev f)"
    unfolding hp(4) by auto
  let ?m' = "m1\<lparr>kern := k'\<rparr>"
  have "main E A m = Some ?m'" using m1(1) b(1) t(1) by (simp add: main_def)
  moreover have "up E A ?m'"
    using m1(3-6) t(2-6,8-10) by (auto simp: up_def set_mem_def set_kmem_def)
  moreover have "out k' = welcome_lines @ boot_line (k + 1) @ ready_lines" using t(7) m1(2) by simp
  moreover have "bc_ok good sec cap (fsd (ks k'))" "blocks sec (fsd (ks k')) = sec d'"
    using t(11-13) b(2,3) blocks_dev [of sec d' f] by (simp_all add: bc_ok_def)
  moreover have "boot_ok (sec d') (k + 1) (program_of A m)" using b(4) t(13) by simp
  ultimately show ?thesis using t(11,12) by (intro exI [of _ ?m']) (auto simp: the_dev_def boot_ok_def sfs_inv_def)
qed

end

section \<open>Boot after boot\<close>

text \<open>The machine \<open>m\<close> is started \<open>n\<close> times, each time with the devices as the last boot left them; the output of
  every boot.\<close>

definition with_dev :: "'d \<Rightarrow> 'd machine \<Rightarrow> 'd machine" where
  "with_dev d m = m\<lparr>kern := put_fs (cold_cache d) (kern m)\<rparr>"

fun boots :: "'d env \<Rightarrow> kaddrs \<Rightarrow> 'd machine \<Rightarrow> nat \<Rightarrow> 'd \<Rightarrow> (console list \<times> 'd) option" where
  "boots E A m 0 d = Some ([], d)"
| "boots E A m (Suc n) d = do {
     m' \<leftarrow> main E A (with_dev d m);
     (cs, d) \<leftarrow> boots E A m n (the_dev (kern m'));
     Some (out (kern m') # cs, d)
   }"

lemma with_dev_on: "powered_on m d0 \<Longrightarrow> powered_on (with_dev d m) d"
  by (simp add: powered_on_def with_dev_def)

lemma program_with_dev: "program_of A (with_dev d m) = program_of A m"
  by (simp add: program_of_def with_dev_def)

context sfs_disk
begin

lemma boots_run:
  assumes "ports_of E = io" and "quiet_ports io good sec" and "powered_on m d0" and "linked A"
  shows "good d \<Longrightarrow> boot_disk_ok (sec d) k \<Longrightarrow> 0 \<le> k \<Longrightarrow> k + int n \<le> INT_MAX \<Longrightarrow>
    \<exists>d'. boots E A m n d = Some (map (\<lambda>j. welcome_lines @ boot_line (k + int j + 1) @ ready_lines) [0..<n], d')
      \<and> good d' \<and> (0 < n \<longrightarrow> boot_ok (sec d') (k + int n) (program_of A m))"
proof (induction n arbitrary: d k)
  case (Suc n)
  have lt: "k < INT_MAX" using Suc.prems(4) by simp
  from main_runs [OF assms(1,2) with_dev_on [OF assms(3)] Suc.prems(1-3) lt assms(4)] obtain m' where
    m': "main E A (with_dev d m) = Some m'" "out (kern m') = welcome_lines @ boot_line (k + 1) @ ready_lines" "good (the_dev (kern m'))"
      "boot_ok (sec (the_dev (kern m'))) (k + 1) (program_of A m)" unfolding program_with_dev by blast
  have "boot_disk_ok (sec (the_dev (kern m'))) (k + 1)" using m'(4) by (auto simp: boot_disk_ok_def)
  from Suc.IH [OF m'(3) this] Suc.prems obtain d' where
    d': "boots E A m n (the_dev (kern m')) = Some (map (\<lambda>j. welcome_lines @ boot_line (k + 1 + int j + 1) @ ready_lines) [0..<n], d')" "good d'"
      "0 < n \<longrightarrow> boot_ok (sec d') (k + 1 + int n) (program_of A m)" by auto
  have l: "map f [0..<Suc n] = f 0 # map (\<lambda>j. f (Suc j)) [0..<n]" for f :: "nat \<Rightarrow> console"
    unfolding upt_conv_Cons [OF zero_less_Suc] map_Suc_upt [symmetric] by simp
  have "boot_ok (sec d') (k + int (Suc n)) (program_of A m)" using d' m'(4) by (cases n) (auto simp: algebra_simps)
  then show ?case using m'(1,2) d'(1,2) unfolding l by (simp add: algebra_simps)
qed simp

end

section \<open>Properties\<close>

text \<open>C1. \<^verbatim>\<open>main\<close> brings the machine up. From the state the boot loader leaves, on a disk that was never booted from
  (formatted or not) or was left by earlier boots, it returns from every call and reaches its idle loop with
  flat kernel and user segments, every interrupt gate in place, RAM mapped for the kernel only, the frame allocator
  reset, keyboard and timer handlers registered, interrupts on, the shell at the root directory, and three tasks on
  the scheduler's ring, the running one and two workers. The output is exactly the greeting with the number of the boot, and the disk holds
  that number and the embedded program as files, already written back.\<close>

theorem main_boots:
  assumes "sfs_disk io good sec cap" and "ports_of E = io" and "quiet_ports io good sec" and "powered_on m d" and "good d" and "boot_disk_ok (sec d) k"
    and "0 \<le> k" and "k < INT_MAX" and "linked A"
  shows "\<exists>m'. main E A m = Some m' \<and> up E A m' \<and> out (kern m') = welcome_lines @ boot_line (k + 1) @ ready_lines
    \<and> mounted good sec cap (fsd (ks (kern m'))) \<and> boot_ok (sec (the_dev (kern m'))) (k + 1) (program_of A m)"
  using sfs_disk.main_runs [OF assms] by blast

text \<open>A machine with the simulated disk.\<close>

definition sim_machine :: "ata_sim \<Rightarrow> ata_sim machine" where
  "sim_machine d = \<lparr>kern = \<lparr>
       ks = \<lparr>kt = tasks idle_isys, fsd = cold_cache d, pg = \<lparr>page_directory = replicate 1024 0, cr0 = 0, cr3 = 0, cr4 = 0\<rparr>,
             g_kreturn_esp = 0, g_exit_code = 0, g_user_running = False\<rparr>,
       ir = idle_isys, cwd = 0, worker_ticks = 0, frames = pmm_init, fibers = \<lparr>g_ring = 0, g_current = 0, gthread = undefined, g_heap = kheap_init (\<lambda>_. 0)\<rparr>,
       out = []\<rparr>,
     seg_tables = \<lparr>gdt = replicate 6 undefined, gdt_ptr = undefined, tss = undefined, scpu = undefined\<rparr>,
     idt = replicate 256 \<lparr>low_offset = 0, selector = 0, always0 = 0, flags = 0, high_offset = 0\<rparr>\<rparr>"

definition sim_env :: "ata_sim env" where
  "sim_env = \<lparr>ports_of = sim_io, cds = \<lparr>a_task_exit = 0x1000, a_task_bootstrap = 0x1100, a_after_switch = 0x1200\<rparr>,
     uas = \<lparr>a_exec_ret = 0x1300, a_g_kreturn = 0x5000, a_eflags = 2\<rparr>, run_program = (\<lambda>s. None), a_worker = 0x1400, a_trampoline = 0x1500, a_gt_body = 0x1600\<rparr>"

definition sim_addrs :: kaddrs where
  "sim_addrs = \<lparr>a_gdt = 0x6000, a_tss = 0x6100, a_idt = 0x7000, a_pd = 0x8000, isr_stub = (\<lambda>n. 0x2000), irq_stub = (\<lambda>n. 0x3000), a_b = 0x8FF00,
     a_hello_start = 0x9000, a_hello_end = 0x9200\<rparr>"

lemma sim_boot: "ports_of sim_env = sim_io" "quiet_ports sim_io (\<lambda>d. s_phase d = Ready) sim_sec" "powered_on (sim_machine d) d" "linked sim_addrs"
proof -
  show "quiet_ports sim_io (\<lambda>d. s_phase d = Ready) sim_sec"
    by (auto simp: quiet_ports_def sim_io_def sim_outb_def sim_sec_def fun_eq_iff)
qed (simp_all add: sim_env_def powered_on_def sim_machine_def linked_def sim_addrs_def idle_isys_def)

lemma sim_blank_boot: "s_phase sim_blank = Ready" "get32 (sim_sec sim_blank 0) 0 \<noteq> SFS_MAGIC"
  by (simp_all add: sim_blank_def sim_sec_def get32_def)

theorem main_boots_witness:
  "\<exists>m'. main sim_env sim_addrs (sim_machine sim_blank) = Some m' \<and> task_count (kt (ks (kern m'))) = Some 3
     \<and> out (kern m') = welcome_lines @ boot_line 1 @ ready_lines"
proof -
  have "boot_disk_ok (sim_sec sim_blank) 0" using sim_blank_boot(2) by (simp add: boot_disk_ok_def)
  from main_boots [OF simfs.sfs_disk_axioms sim_boot(1-3) sim_blank_boot(1) this _ _ sim_boot(4)] show ?thesis by (auto simp: up_def)
qed

text \<open>C12. The file system persists across reboots, as the boot counter is there to prove: on a blank disk the machine can be
  started any number of times up to the largest \<^verbatim>\<open>int\<close>, and boot number \<open>j\<close> announces the number \<open>j\<close>. Afterwards
  the disk holds the last number and the program.\<close>

theorem boots_counted:
  assumes "sfs_disk io good sec cap" and "ports_of E = io" and "quiet_ports io good sec" and "powered_on m d0" and "linked A"
    and "good d" and "get32 (sec d 0) 0 \<noteq> SFS_MAGIC" and "int n \<le> INT_MAX"
  shows "\<exists>d'. boots E A m n d = Some (map (\<lambda>j. welcome_lines @ boot_line (int j + 1) @ ready_lines) [0..<n], d')
    \<and> (0 < n \<longrightarrow> boot_ok (sec d') (int n) (program_of A m))"
proof -
  have "boot_disk_ok (sec d) 0" using assms(7) by (simp add: boot_disk_ok_def)
  from sfs_disk.boots_run [OF assms(1-6) this] assms(8) show ?thesis by auto
qed

theorem boots_counted_witness:
  "\<exists>d'. boots sim_env sim_addrs (sim_machine sim_blank) 2 sim_blank
     = Some ([welcome_lines @ boot_line 1 @ ready_lines, welcome_lines @ boot_line 2 @ ready_lines], d')"
  using boots_counted [OF simfs.sfs_disk_axioms sim_boot(1-4) sim_blank_boot, of 2] by (auto simp: numeral_2_eq_2)

end
