(* ===== verification/Shell_Props.thy ===== *)
theory Shell_Props
  imports Kernel_Props
begin

text \<open>
  The shell: how a line becomes arguments, and what commands do to files.
\<close>

section \<open>The command line\<close>

text \<open>The words of a line, separated by blanks. The last of the \<open>k\<close> arguments that fit is the rest of the line from its
  first character on.\<close>

fun ref_args :: "nat \<Rightarrow> u8 list \<Rightarrow> u8 list list" where
  "ref_args 0 line = []"
| "ref_args (Suc k) line =
     (let r = dropWhile (\<lambda>c. c = 0x20) line
      in if r = [] then [] else if k = 0 then [r]
         else takeWhile (\<lambda>c. c \<noteq> 0x20) r # ref_args k (dropWhile (\<lambda>c. c \<noteq> 0x20) r))"

lemma tok_spaces_skip:
  "c \<noteq> 0x20 \<Longrightarrow> tok_spaces (length pre) (pre @ replicate n 0x20 @ c # rest) = Some (length pre + n, pre @ replicate n 0 @ c # rest)"
proof (induction n arbitrary: pre)
  case 0
  then show ?case by (subst tok_spaces.simps) (simp add: nth_append)
next
  case (Suc n)
  have "(pre @ 0x20 # replicate n 0x20 @ c # rest)[length pre := 0] = (pre @ [0]) @ replicate n 0x20 @ c # rest"
    by (simp add: list_update_append)
  then show ?case using Suc.IH [of "pre @ [0]"] Suc.prems by (subst tok_spaces.simps) (simp add: nth_append)
qed

lemma tok_word_skip:
  "c = 0 \<or> c = 0x20 \<Longrightarrow> \<forall>x \<in> set w. x \<noteq> 0 \<and> x \<noteq> 0x20 \<Longrightarrow> tok_word (length pre) (pre @ w @ c # rest) = Some (length pre + length w)"
proof (induction w arbitrary: pre)
  case Nil
  then show ?case by (subst tok_word.simps) (auto simp: nth_append)
next
  case (Cons x w)
  then show ?case using Cons.IH [of "pre @ [x]"] by (subst tok_word.simps) (simp add: nth_append)
qed

lemma arg_at_word: "0 \<notin> set w \<Longrightarrow> tl' = [] \<or> hd tl' = 0 \<Longrightarrow> arg_at (pre @ w @ tl' @ [0]) (length pre) = w"
  by (cases tl') (auto simp: arg_at_def takeWhile_tail)

lemma arg_at_pre: "length pre \<le> p \<Longrightarrow> arg_at (pre @ buf) p = arg_at buf (p - length pre)"
  by (simp add: arg_at_def)

lemma tok_loop_splits:
  assumes "0 \<notin> set line"
  shows "\<exists>ps buf. tok_loop k (length pre) argv (pre @ line @ [0]) = Some (argv @ ps, pre @ buf @ [0])
    \<and> map (arg_at (pre @ buf @ [0])) ps = ref_args k line \<and> length buf = length line \<and> (0 < k \<and> line \<noteq> [] \<and> hd line = 0x20 \<longrightarrow> hd buf = 0)"
  using assms
proof (induction k arbitrary: pre line argv)
  case 0
  then show ?case by auto
next
  case (Suc k)
  show ?case
  proof (cases "line = []")
    case True
    then show ?thesis by (intro exI [of _ "[]"]) (simp add: nth_append)
  next
    case False
    let ?r = "dropWhile (\<lambda>c. c = 0x20) line" and ?n = "length (takeWhile (\<lambda>c. c = 0x20) line)"
    have line: "line = replicate ?n 0x20 @ ?r"
    proof -
      have "takeWhile (\<lambda>c. c = 0x20) line = replicate ?n 0x20" by (rule replicate_eqI) (auto dest: set_takeWhileD)
      then show ?thesis using takeWhile_dropWhile_id [of "\<lambda>c. c = 0x20" line] by simp
    qed
    define n where "n = ?n"
    define r where "r = ?r"
    have l: "line = replicate n 0x20 @ r" using line by (simp add: n_def r_def)
    have nz: "hd line \<noteq> 0" using False Suc.prems by (metis list.set_sel(1))
    have h: "(pre @ line @ [0]) ! length pre = hd line" using False by (simp add: nth_append hd_conv_nth)
    show ?thesis
    proof (cases "r = []")
      case True
      have s: "tok_spaces (length pre) (pre @ line @ [0]) = Some (length pre + n, pre @ replicate n 0 @ [0])"
        using tok_spaces_skip [of 0 pre n "[]"] l True by simp
      have "ref_args (Suc k) line = []" using True by (simp add: r_def [symmetric])
      moreover have "(pre @ replicate n 0 @ [0]) ! (length pre + n) = (0 :: u8)" by (simp add: nth_append)
      moreover have "0 < n" using False l True by simp
      ultimately show ?thesis using s h nz False l True
        by (intro exI [of _ "[]"] exI [of _ "replicate n 0"]) (simp add: hd_append)
    next
      case rn: False
      have c: "hd r \<noteq> 0x20" using rn hd_dropWhile [of "\<lambda>c. c = 0x20" line] by (simp add: r_def)
      have r0: "0 \<notin> set r" using Suc.prems l by auto
      define w where "w = takeWhile (\<lambda>c. c \<noteq> 0x20) r"
      define q where "q = dropWhile (\<lambda>c. c \<noteq> 0x20) r"
      have wq: "r = w @ q" "0 \<notin> set w" "0 \<notin> set q" "\<forall>x \<in> set w. x \<noteq> 0 \<and> x \<noteq> 0x20" "q \<noteq> [] \<Longrightarrow> hd q = 0x20"
        using r0 hd_dropWhile [of "\<lambda>c. c \<noteq> 0x20" r]
        by (auto simp: w_def q_def dest: set_takeWhileD set_dropWhileD simp flip: takeWhile_dropWhile_id)
      have "r = hd r # tl r" using rn by simp
      then have s: "tok_spaces (length pre) (pre @ line @ [0]) = Some (length pre + n, pre @ replicate n 0 @ r @ [0])"
        using tok_spaces_skip [OF c, of pre n "tl r @ [0]"] l by (metis append.assoc append_Cons)
      let ?pre = "pre @ replicate n 0 @ w"
      have p: "(pre @ replicate n 0 @ r @ [0]) ! (length pre + n) = hd r" using rn by (simp add: nth_append hd_conv_nth)
      have "hd r \<noteq> 0" using r0 rn by (metis list.set_sel(1))
      moreover have "tok_word (length pre + n) (pre @ replicate n 0 @ r @ [0]) = Some (length ?pre)"
        using tok_word_skip [of "hd (q @ [0])" w "pre @ replicate n 0" "tl (q @ [0])"] wq(4,5) by (cases q) (simp_all add: wq(1) add.assoc)
      moreover from Suc.IH [OF wq(3), of ?pre "argv @ [length pre + n]"] obtain ps buf where
        b: "tok_loop k (length ?pre) (argv @ [length pre + n]) (?pre @ q @ [0]) = Some ((argv @ [length pre + n]) @ ps, ?pre @ buf @ [0])"
          "map (arg_at (?pre @ buf @ [0])) ps = ref_args k q" "length buf = length q" "0 < k \<and> q \<noteq> [] \<and> hd q = 0x20 \<longrightarrow> hd buf = 0" by blast
      ultimately have t: "tok_loop (Suc k) (length pre) argv (pre @ line @ [0]) = Some (argv @ (length pre + n) # ps, pre @ (replicate n 0 @ w @ buf) @ [0])"
        using s p h nz False by (simp add: wq(1))
      have a: "arg_at (pre @ (replicate n 0 @ w @ buf) @ [0]) (length pre + n) = (if k = 0 then r else w)"
      proof (cases "k = 0")
        case True
        then have "buf = q" using b(1) by simp
        then show ?thesis using True arg_at_word [of r "[]" "pre @ replicate n 0"] r0 wq(1) by simp
      next
        case False
        then have "buf = [] \<or> hd buf = 0" using b(3,4) wq(5) by (metis length_0_conv neq0_conv)
        then show ?thesis using False arg_at_word [OF wq(2), of buf "pre @ replicate n 0"] by simp
      qed
      have ps: "k = 0 \<Longrightarrow> ps = []" using b(1) by simp
      have "ref_args (Suc k) line = (if k = 0 then [r] else w # ref_args k q)" using rn by (simp add: r_def [symmetric] w_def q_def Let_def)
      then have "map (arg_at (pre @ (replicate n 0 @ w @ buf) @ [0])) ((length pre + n) # ps) = ref_args (Suc k) line"
        using a b(2) ps by simp
      moreover have "line \<noteq> [] \<and> hd line = 0x20 \<longrightarrow> 0 < n" using l c by (cases n) auto
      then have "line \<noteq> [] \<and> hd line = 0x20 \<longrightarrow> hd (replicate n 0 @ w @ buf) = (0 :: u8)" by (cases n) auto
      ultimately show ?thesis using t b(3) l wq(1) by (intro exI [of _ "(length pre + n) # ps"] exI [of _ "replicate n 0 @ w @ buf"]) simp
    qed
  qed
qed

lemma tokenize_args:
  assumes "0 \<notin> set line"
  shows "\<exists>ps buf. tokenize (line @ [0]) 16 = Some (ps, buf) \<and> map (arg_at buf) ps = ref_args 16 line"
  using tok_loop_splits [OF assms, of 16 "[]" "[]"] by (auto simp: tokenize_def)

lemma run_command_args:
  assumes "0 \<notin> set line"
  shows "run_command E line s = (let argv = ref_args 16 line in if argv = [] then Some s else do { s \<leftarrow> dispatch E argv s; sync E s })"
proof -
  from tokenize_args [OF assms] obtain ps buf where "tokenize (line @ [0]) 16 = Some (ps, buf)" "map (arg_at buf) ps = ref_args 16 line" by blast
  moreover from this have "ps = [] \<longleftrightarrow> ref_args 16 line = []" by (metis map_is_Nil_conv)
  ultimately show ?thesis by (simp add: run_command_def Let_def)
qed

section \<open>Paths\<close>

text \<open>The components of a path: what stands between slashes, without the empty ones, each cut to 31 characters.\<close>

fun split_at :: "'a \<Rightarrow> 'a list \<Rightarrow> 'a list list" where
  "split_at c [] = [[]]"
| "split_at c (x # xs) = (if x = c then [] # split_at c xs else (x # hd (split_at c xs)) # tl (split_at c xs))"

definition components :: "u8 list \<Rightarrow> u8 list list" where
  "components p = map (take 31) (filter (\<lambda>w. w \<noteq> []) (split_at 0x2F p))"

fun walk :: "disk \<Rightarrow> nat \<Rightarrow> u8 list list \<Rightarrow> nat option" where
  "walk D i [] = Some i"
| "walk D i (nm # nms) = (case entry_of D i nm of None \<Rightarrow> None | Some k \<Rightarrow> walk D k nms)"

lemma split_at_ne [simp]: "split_at c xs \<noteq> []"
  by (cases xs) auto

lemma split_at_append: "c \<notin> set p \<Longrightarrow> split_at c (p @ xs) = (p @ hd (split_at c xs)) # tl (split_at c xs)"
  by (induction p) auto

lemma components_Nil: "0x2F \<notin> set p \<Longrightarrow> components p = (if p = [] then [] else [take 31 p])"
  using split_at_append [of "0x2F" p "[]"] by (simp add: components_def)

lemma components_slash: "0x2F \<notin> set p \<Longrightarrow> components (p @ 0x2F # cs) = (if p = [] then components cs else take 31 p # components cs)"
  using split_at_append [of "0x2F" p "0x2F # cs"] by (simp add: components_def)

context sfs_disk
begin

lemma inum_lt:
  assumes "fs_ok D" and "i < 64" and "entry_of D i nm = Some k"
  shows "k < 64"
proof -
  from assms(3) obtain es where es: "node D i = Some (Dir es)" "(nm, k) \<in> set es"
    by (auto simp: entry_of_def split: option.splits node.splits dest: map_of_SomeD)
  show ?thesis using fs.entry_inum [OF fs.dir_inode(3) [OF assms(1,2) es(1)]] fs.dir_inode(2) [OF assms(1,2) es(1)] es(2) by blast
qed

lemma lookup_any:
  assumes "disk_at D s" and "fs_ok D" and "i < 64" and "0 \<notin> set name"
  shows "\<exists>f. on_fs (sfs_lookup (cache_layer io) (int i) name) s = Some (case entry_of D i name of Some i \<Rightarrow> int i | None \<Rightarrow> - 1, put_fs f s) \<and> fs.at D f"
  using fs.dir_lookup_wp [OF assms(1,3) fs_okD(2) [OF assms(2,3)] assms(4)]
  by (auto simp: wp_def entry_of_def sfs_lookup_def on_fs_Some split: option.splits node.splits)

lemma resolve_loop_walks:
  assumes "fs_ok D" and "ports_of E = io"
  shows "disk_at D s \<Longrightarrow> i < 64 \<Longrightarrow> 0 \<notin> set (p @ cs) \<Longrightarrow> 0x2F \<notin> set p \<Longrightarrow>
    \<exists>f. resolve_loop E cs (int i) (take 31 p) s = Some (case walk D i (components (p @ cs)) of Some k \<Rightarrow> int k | None \<Rightarrow> - 1, put_fs f s) \<and> fs.at D f"
proof (induction cs arbitrary: i p s)
  case Nil
  show ?case
  proof (cases "p = []")
    case True
    then show ?thesis using Nil by (intro exI [of _ "fsd (ks s)"]) (simp add: components_Nil)
  next
    case False
    have "0 \<notin> set (take 31 p)" using Nil.prems(3) by (auto dest: in_set_takeD)
    from lookup_any [OF Nil.prems(1) assms(1) Nil.prems(2) this] False Nil.prems(4) assms(2) show ?thesis
      by (auto simp: components_Nil split: option.split)
  qed
next
  case (Cons c cs)
  show ?case
  proof (cases "c = 0x2F")
    case slash: True
    show ?thesis
    proof (cases "p = []")
      case True
      then show ?thesis using Cons.IH [OF Cons.prems(1,2), of "[]"] Cons.prems(3) slash components_slash [of "[]" cs] by simp
    next
      case False
      have "0 \<notin> set (take 31 p)" using Cons.prems(3) by (auto dest: in_set_takeD)
      from lookup_any [OF Cons.prems(1) assms(1) Cons.prems(2) this] assms(2) obtain f where
        f: "on_fs (sfs_lookup (layer E) (int i) (take 31 p)) s = Some (case entry_of D i (take 31 p) of Some i \<Rightarrow> int i | None \<Rightarrow> - 1, put_fs f s)" "fs.at D f" by auto
      show ?thesis
      proof (cases "entry_of D i (take 31 p)")
        case None
        then show ?thesis using f False slash components_slash [OF Cons.prems(4), of cs] by auto
      next
        case (Some k)
        have "k < 64" by (rule inum_lt [OF assms(1) Cons.prems(2) Some])
        from Cons.IH [of "put_fs f s" k "[]"] f(2) this Cons.prems(3) obtain f' where
          "resolve_loop E cs (int k) [] (put_fs f s) = Some (case walk D k (components cs) of Some k \<Rightarrow> int k | None \<Rightarrow> - 1, put_fs f' s)" "fs.at D f'" by auto
        then show ?thesis using f(1) Some False slash components_slash [OF Cons.prems(4), of cs] by (intro exI [of _ f']) simp
      qed
    qed
  next
    case False
    have "take 31 (p @ [c]) = (if length (take 31 p) < 31 then take 31 p @ [c] else take 31 p)" by auto
    then show ?thesis using False Cons.IH [OF Cons.prems(1,2), of "p @ [c]"] Cons.prems(3,4) by simp
  qed
qed

lemma resolve_walks:
  assumes "disk_at D s" and "fs_ok D" and "ports_of E = io" and "cwd s = int c" and "c < 64" and "0 \<notin> set fpath"
  shows "\<exists>f. resolve E fpath s = Some (case walk D (if fpath \<noteq> [] \<and> hd fpath = 0x2F then 0 else c) (components fpath) of Some k \<Rightarrow> int k | None \<Rightarrow> - 1, put_fs f s)
    \<and> fs.at D f"
proof -
  let ?i = "if fpath \<noteq> [] \<and> hd fpath = 0x2F then 0 else c"
  have "?i < 64" using assms(5) by simp
  moreover have "resolve E fpath s = resolve_loop E fpath (int ?i) [] s" using assms(4) by (auto simp: resolve_def)
  ultimately show ?thesis using resolve_loop_walks [OF assms(2,3,1), of ?i "[]" fpath] assms(6) by simp
qed

end

section \<open>Properties\<close>

text \<open>C37. The command line is split as it should be: on any line the in-place scan ends inside the buffer, and the arguments it leaves there
  are the words between blanks. Only the last of the arguments that fit is different: it is the rest of the line.\<close>

theorem tokenize_splits:
  assumes "0 \<notin> set line"
  shows "\<exists>ps buf. tokenize (line @ [0]) mx = Some (ps, buf) \<and> map (arg_at buf) ps = ref_args mx line \<and> length buf = length line + 1 \<and> length ps \<le> mx"
proof -
  have l: "length (ref_args n xs) \<le> n" for n xs by (induction n xs rule: ref_args.induct) (auto simp: Let_def)
  from tok_loop_splits [OF assms, of mx "[]" "[]"] obtain ps buf where
    b: "tokenize (line @ [0]) mx = Some (ps, buf @ [0])" "map (arg_at (buf @ [0])) ps = ref_args mx line" "length buf = length line"
    by (auto simp: tokenize_def)
  moreover have "length ps \<le> mx" using l [of mx line] unfolding b(2) [symmetric] by simp
  ultimately show ?thesis by auto
qed

theorem tokenize_splits_witness:
  "\<exists>ps buf. tokenize (str '' cp  a b c'' @ [0]) 3 = Some (ps, buf) \<and> map (arg_at buf) ps = [str ''cp'', str ''a'', str ''b c'']"
proof -
  have "0 \<notin> set (str '' cp  a b c'')" "ref_args 3 (str '' cp  a b c'') = [str ''cp'', str ''a'', str ''b c'']" by code_simp+
  then show ?thesis using tokenize_splits [of "str '' cp  a b c''" 3] by auto
qed

end
