(* ===== verification/Shell_Cmds.thy ===== *)
theory Shell_Cmds
  imports Shell_Props Boot_Props
begin

text \<open>
  The shell's commands on files, \<^verbatim>\<open>cp\<close>, \<^verbatim>\<open>mv\<close>, \<^verbatim>\<open>echo\<close> and \<^verbatim>\<open>cat\<close>, over the file system, the block cache, the disk and the
  kernel heap.
\<close>

section \<open>Heap buffers\<close>

lemma set_heap_sel [simp]: "the_heap (set_heap h s) = h" "set_heap h (set_heap h' s) = set_heap h s" "fsd (ks (set_heap h s)) = fsd (ks s)"
  "cwd (set_heap h s) = cwd s" "out (set_heap h s) = out s" "set_heap h (put_fs f s) = put_fs f (set_heap h s)" "set_heap h (say cs s) = say cs (set_heap h s)"
  "the_heap (say cs s) = the_heap s" "kmem_of (ks (set_heap h s)) = kmem h" "set_heap (the_heap s) s = s"
  by (simp_all add: set_heap_def the_heap_def put_fs_def say_def kmem_of_def)

lemma kstore_heap: "kstore a xs s = set_heap ((the_heap s)\<lparr>kmem := store_bytes a xs (kmem (the_heap s))\<rparr>) s"
  by (simp add: kstore_def set_kmem_def set_heap_def the_heap_def kmem_of_def)

lemma malloc_heap: "malloc n s = map_option (\<lambda>(p, h). (p, set_heap h s)) (kmalloc n (the_heap s))"
  by (cases "kmalloc n (the_heap s)") (auto simp: malloc_def)

lemma mfree_heap: "mfree p s = map_option (\<lambda>h. set_heap h s) (kfree p (the_heap s))"
  by (cases "kfree p (the_heap s)") (auto simp: mfree_def)

lemma kmalloc_gives:
  assumes "heap_holds h L" and "kmalloc sz h = Some (p, h1)" and "sz \<noteq> 0" and "unat sz \<le> 0xFFFFFFF8"
  shows "if p = 0 then h1 = h else unat p \<notin> dom L \<and> heap_holds h1 (L(unat p \<mapsto> unat sz))"
  using kh.malloc_returns [OF assms(1,3,4)] assms(2) by (auto simp: wp_def)

lemma kmalloc_total: "heap_holds h L \<Longrightarrow> sz \<noteq> 0 \<Longrightarrow> unat sz \<le> 0xFFFFFFF8 \<Longrightarrow> \<exists>p h1. kmalloc sz h = Some (p, h1)"
  using kh.malloc_returns [of h L sz] by (auto simp: wp_def)

text \<open>A buffer is filled and given back.\<close>

lemma fill_buffer:
  assumes "heap_holds h (L(unat p \<mapsto> n))" and "length xs \<le> n"
  shows "heap_holds (h\<lparr>kmem := store_bytes p xs (kmem h)\<rparr>) (L(unat p \<mapsto> n))"
proof -
  let ?L = "L(unat p \<mapsto> n)"
  have b: "unat p + n \<le> HEAP_END" using kh.held_bounds [OF assms(1), of "unat p" n] by simp
  have "same_on (- {unat p..<unat p + length xs}) (kmem h) (store_bytes p xs (kmem h))" using assms(2) b by (intro store_bytes_same) simp
  moreover have "{unat p..<unat p + length xs} \<subseteq> held ?L" by (rule order_trans [OF _ kh.block_held [of ?L "unat p" n]]) (use assms(2) in auto)
  ultimately have "same_on ({HEAP_LO..<HEAP_END} - held ?L) (kmem h) (store_bytes p xs (kmem h))" by (elim same_on_mono) blast
  then show ?thesis by (rule kh.write_inv [OF assms(1)])
qed

lemma free_buffer: "heap_holds h (L(unat p \<mapsto> n)) \<Longrightarrow> unat p \<notin> dom L \<Longrightarrow> \<exists>h'. kfree p h = Some h' \<and> heap_holds h' L"
  using kfree_undoes by metis

section \<open>Removing a file\<close>

lemma map_of_remove_mid: "distinct (map fst (xs @ (nm, k) # ys)) \<Longrightarrow> map_of (xs @ ys) n = (if n = nm then None else map_of (xs @ (nm, k) # ys) n)"
  using map_of_insert_mid [of "(nm, k)" xs ys n] by (auto simp: map_of_eq_None_iff image_Un)

lemma same_but_remove:
  assumes t: "tree_ok (node D)" and d: "dir < 64" "node D dir = Some (Dir (xs @ (name, k) # ys))" and u: "distinct (map fst (xs @ (name, k) # ys))"
    and p: "plain name" and k: "node D k = Some (File c)" "node D' k = None" and o: "\<forall>j < 64. j \<noteq> k \<and> j \<noteq> dir \<longrightarrow> node D' j = node D j"
    and e: "node D' dir = Some (Dir (xs @ ys))"
  shows "same_but dir name D D' \<and> entry_of D' dir name = None"
proof -
  have kd: "k \<noteq> dir" using d k by auto
  have r: "ref (node D) dir name k" using d p by (auto simp: ref_def)
  have dirs: "is_dir D' j = is_dir D j" for j using o e d k by (cases "j = dir"; cases "j = k") (auto simp: is_dir_def)
  have E: "entry_of D' j n = (if j = dir \<and> n = name then None else entry_of D j n)" if "is_dir D j" for j n
  proof (cases "j = dir")
    case True
    then show ?thesis using e d map_of_remove_mid [OF u, of n] by (simp add: entry_of_def)
  next
    case False
    then have "node D' j = node D j" using that o k(1) by (cases "j = k") (auto simp: is_dir_def)
    then show ?thesis using False by (simp add: entry_of_def)
  qed
  have "file_of D' j n = file_of D j n" if a: "is_dir D j" "plain n" "(j, n) \<noteq> (dir, name)" for j n
  proof (cases "entry_of D j n")
    case (Some i)
    note ri = entry_ref [OF t a(1,2) Some]
    have "i \<noteq> k" using tree_okD(3) [OF t ri(1)] r a(3) by blast
    then have "node D' i = node D i \<or> i = dir" using o ri(2) by blast
    then show ?thesis using E [OF a(1), of n] a(3) Some d(2) e by (auto simp: file_of_def)
  qed (use E [OF a(1), of n] a(3) in \<open>auto simp: file_of_def\<close>)
  then show ?thesis using dirs E E [of dir name] d by (auto simp: same_but_def is_dir_def)
qed

text \<open>The second half of \<^verbatim>\<open>cmd_cp\<close>, from the lookup of the destination on.\<close>

definition cp_rest :: "'d env \<Rightarrow> u8 list option \<Rightarrow> u32 \<Rightarrow> int \<Rightarrow> 'd kernel \<Rightarrow> 'd kernel option" where
  "cp_rest E dst buf n s = do {
     (d, s) \<leftarrow> on_fs (sfs_lookup (layer E) (cwd s) (the dst)) s;
     (d, s) \<leftarrow> (if d < 0 then on_fs (sfs_create (layer E) (cwd s) (the dst) (sint SFS_FILE)) s else Some (d, s));
     if d < 0 then mfree buf (puts ''cp: cannot create dest\<newline>'' s) else do {
       (ty, s) \<leftarrow> on_fs (sfs_type (layer E) d) s;
       if ty \<noteq> sint SFS_FILE then mfree buf (puts ''cp: dest is not a file\<newline>'' s) else do {
         (w, s) \<leftarrow> on_fs (sfs_write (layer E) d (kload buf (nat n) s) (word_of_int n)) s;
         mfree buf s
       }
     }
   }"

definition cp_size :: "u8 list \<Rightarrow> u32" where
  "cp_size xs = (if xs = [] then 1 else word_of_nat (length xs))"

lemma cp_size_ok: "length xs \<le> 7168 \<Longrightarrow> cp_size xs \<noteq> 0 \<and> unat (cp_size xs) \<le> 0xFFFFFFF8 \<and> length xs \<le> unat (cp_size xs)"
  using of_nat_u32_inj [of "length xs" 0] by (auto simp: cp_size_def)

section \<open>The text of echo\<close>

definition spaced :: "u8 list list \<Rightarrow> u8 list" where
  "spaced ws = (case ws of [] \<Rightarrow> [] | a # as \<Rightarrow> a @ concat (map (Cons 0x20) as))"

lemma take_take_append: "take n (take n xs @ ys) = take n (xs @ ys)"
  by (cases "length xs \<le> n") simp_all

lemma echo_text_more: "0 < i \<Longrightarrow> length u \<le> 255 \<Longrightarrow> echo_text as (Suc i) u = take 255 (u @ concat (map (Cons 0x20) as))"
proof (induction as arbitrary: i u)
  case (Cons a as)
  define t where "t = take 255 ((if length u < 255 then u @ [0x20] else u) @ a)"
  have "echo_text (a # as) (Suc i) u = echo_text as (Suc (Suc i)) t" using Cons.prems(1) by (simp add: Let_def t_def)
  also have "\<dots> = take 255 (t @ concat (map (Cons 0x20) as))" by (rule Cons.IH) (simp_all add: t_def)
  also have "\<dots> = take 255 (u @ concat (map (Cons 0x20) (a # as)))" using Cons.prems(2) unfolding t_def take_take_append by (cases "length u < 255") simp_all
  finally show ?case .
qed simp

lemma echo_text_spaced: "echo_text ws 1 [] = take 255 (spaced ws)"
proof (cases ws)
  case (Cons a as)
  then show ?thesis using echo_text_more [of 1 "take 255 a" as] by (auto simp: spaced_def Let_def min_def)
qed (simp add: spaced_def)

lemma streq_eq: "0 \<notin> set a \<Longrightarrow> 0 \<notin> set b \<Longrightarrow> streq a b \<longleftrightarrow> a = b"
proof -
  assume a: "0 \<notin> set a" "0 \<notin> set b"
  have "\<forall>c \<in> set a. c \<noteq> 0" using a(1) by metis
  then have "takeWhile (\<lambda>c. c \<noteq> 0) (a @ [0]) = a" by (simp add: takeWhile_append2)
  then show ?thesis using strcmp_l_returns [of "a @ [0]" b] a(2) by (auto simp: streq_def)
qed

lemma no_nul: "0 \<notin> set (str ''>'')" "0 \<notin> set (str ''>>'')"
  by (simp_all add: str_def of_char_def)

lemma find_redir_first:
  "\<forall>w \<in> set ws. 0 \<notin> set w \<and> w \<noteq> str ''>'' \<and> w \<noteq> str ''>>'' \<Longrightarrow> find_redir (ws @ str ''>'' # r) i = Some (i + length ws, False)"
  by (induction ws arbitrary: i) (auto simp: streq_eq no_nul)

text \<open>The arguments are made of characters of the line.\<close>

lemma ref_args_chars: "a \<in> set (ref_args k line) \<Longrightarrow> set a \<subseteq> set line"
proof (induction k arbitrary: line)
  case (Suc k)
  let ?r = "dropWhile (\<lambda>c. c = 0x20) line"
  have "set ?r \<subseteq> set line" using set_dropWhileD by fastforce
  moreover have "set (dropWhile (\<lambda>c. c \<noteq> 0x20) ?r) \<subseteq> set ?r" "set (takeWhile (\<lambda>c. c \<noteq> 0x20) ?r) \<subseteq> set ?r"
    using set_dropWhileD set_takeWhileD by fastforce+
  ultimately show ?case using Suc.IH [of "dropWhile (\<lambda>c. c \<noteq> 0x20) ?r"] Suc.prems by (auto simp: Let_def split: if_splits)
qed simp

text \<open>The shell between two commands: the disk behind the cache is a file system, the current directory is one of
  its directories, and the heap blocks \<open>L\<close> are in use.\<close>

abbreviation files :: "('d \<Rightarrow> disk) \<Rightarrow> 'd kernel \<Rightarrow> disk" where
  "files sec s \<equiv> blocks sec (fsd (ks s))"

definition shell_at :: "('d \<Rightarrow> bool) \<Rightarrow> ('d \<Rightarrow> disk) \<Rightarrow> nat \<Rightarrow> (nat \<rightharpoonup> nat) \<Rightarrow> nat \<Rightarrow> 'd kernel \<Rightarrow> bool" where
  "shell_at good sec cap L c s \<longleftrightarrow> bc_ok good sec cap (fsd (ks s)) \<and> sfs_inv (files sec s) \<and> heap_holds (the_heap s) L
     \<and> cwd s = int c \<and> is_dir (files sec s) c"

context sfs_disk
begin

lemma unlink_k:
  assumes s: "disk_at D s" and i: "sfs_inv D" and d: "is_dir D dir" and g: "good_name name" and f: "file_of D dir name = Some c"
  shows "\<exists>f D'. on_fs (sfs_unlink (cache_layer io) (int dir) name) s = Some (0, put_fs f s) \<and> fs.at D' f \<and> sfs_inv D'
    \<and> same_but dir name D D' \<and> entry_of D' dir name = None"
proof -
  from d obtain es where es: "dir < 64" "node D dir = Some (Dir es)" by (auto simp: is_dir_def)
  have ok: "fs_ok D" and t: "tree_ok (node D)" and z: "D 0 = superblock" using i by (auto simp: sfs_inv_def)
  have nm: "0 \<notin> set name" "name \<noteq> DOT" "name \<noteq> DOTDOT" "plain name" using g by (auto simp: good_name_def plain_def)
  from file_entry [OF i d nm(4) f] obtain k where k: "k < 64" "entry_of D dir name = Some k" "node D k = Some (File c)" by blast
  have m: "map_of es name = Some k" "k \<noteq> dir" using k es(2) by (auto simp: entry_of_def)
  from fs.sfs_unlink_wp [OF s ok es nm(1-3)] m obtain r f D' where
    r: "sfs_unlink (cache_layer io) (int dir) name (fsd (ks s)) = Some (r, f)" "fs.at D' f" "unlink_post D dir es name r D'" by (auto simp: wp_def)
  have u: "distinct (map fst es)" by (rule fs.dir_inode(7) [OF ok es])
  from r(3) m(1) k(3) obtain xs ys where x: "r = 0" "node D' k = None" "\<forall>j < 64. j \<noteq> k \<and> j \<noteq> dir \<longrightarrow> node D' j = node D j"
    "es = xs @ (name, k) # ys" "node D' dir = Some (Dir (xs @ ys))" by (auto simp: unlink_post_def)
  have "sfs_inv D'" using r(3) z tree_ok_unlink [OF t r(3) es(2,1) nm(4) u] by (auto simp: sfs_inv_def unlink_post_def)
  then show ?thesis using r(1,2) x(1) same_but_remove [OF t es(1) _ _ nm(4) k(3) x(2,3,5)] es(2) u x(4) by (auto simp: on_fs_Some)
qed

section \<open>Copying and moving\<close>

lemma walk_lt: "fs_ok D \<Longrightarrow> i < 64 \<Longrightarrow> walk D i ns = Some k \<Longrightarrow> k < 64"
  by (induction ns arbitrary: i) (auto split: option.splits dest: inum_lt)

text \<open>What \<^verbatim>\<open>cat\<close> and \<^verbatim>\<open>cp\<close> have in common: the path, the type and the size.\<close>

lemma find_file:
  assumes s: "disk_at D s" and i: "sfs_inv D" and E: "ports_of E = io" and c: "cwd s = int c" "is_dir D c" and z: "0 \<notin> set fpath"
    and w: "walk D (if fpath \<noteq> [] \<and> hd fpath = 0x2F then 0 else c) (components fpath) = Some k" and n: "node D k = Some (File xs)"
  shows "\<exists>f1 f2 f3. resolve E fpath s = Some (int k, put_fs f1 s) \<and> on_fs (sfs_type (layer E) (int k)) (put_fs f1 s) = Some (1, put_fs f2 s)
    \<and> on_fs (sfs_size (layer E) (int k)) (put_fs f2 s) = Some (word_of_nat (length xs), put_fs f3 s) \<and> fs.at D f3 \<and> k < 64 \<and> length xs \<le> 7168"
proof -
  have ok: "fs_ok D" using i by (simp add: sfs_inv_def)
  have c64: "c < 64" using c(2) by (auto simp: is_dir_def)
  have k: "k < 64" by (rule walk_lt [OF ok _ w]) (use c64 in simp)
  note fz = file_size [OF ok k n]
  from resolve_walks [OF s ok E c(1) c64 z] w obtain f1 where f1: "resolve E fpath s = Some (int k, put_fs f1 s)" "fs.at D f1" by auto
  from type_k [of D "put_fs f1 s" k] f1(2) k fz E obtain f2 where
    f2: "on_fs (sfs_type (layer E) (int k)) (put_fs f1 s) = Some (1, put_fs f2 s)" "fs.at D f2" by auto
  have "isize (d_inode D k) = word_of_nat (length xs)" using fz by (simp add: word_unat_eq_iff)
  with size_k [of D "put_fs f2 s" k] f2(2) k E obtain f3 where
    "on_fs (sfs_size (layer E) (int k)) (put_fs f2 s) = Some (word_of_nat (length xs), put_fs f3 s)" "fs.at D f3" by auto
  with f1 f2 k fz show ?thesis by blast
qed

lemma cp_starts:
  assumes s: "disk_at D s" and i: "sfs_inv D" and E: "ports_of E = io" and c: "cwd s = int c" "is_dir D c" and z: "0 \<notin> set src" and ne: "src \<noteq> []" "dst \<noteq> []"
    and w: "walk D (if src \<noteq> [] \<and> hd src = 0x2F then 0 else c) (components src) = Some k" and n: "node D k = Some (File xs)"
    and h: "heap_holds (the_heap s) L" and m: "kmalloc (cp_size xs) (the_heap s) = Some (p, h1)"
  shows "\<exists>f. fs.at D f \<and> (if p = 0 then cmd_cp E (Some src) (Some dst) s = Some (puts ''cp: out of memory\<newline>'' (put_fs f s))
    else \<exists>h. unat p \<notin> dom L \<and> heap_holds h (L(unat p \<mapsto> unat (cp_size xs))) \<and> bytes (kmem h) p (length xs) = xs
      \<and> cmd_cp E (Some src) (Some dst) s = cp_rest E (Some dst) p (int (length xs)) (put_fs f (set_heap h s)))"
proof -
  from find_file [OF s i E c z w n] obtain f1 f2 f3 where
    f: "resolve E src s = Some (int k, put_fs f1 s)" "on_fs (sfs_type (layer E) (int k)) (put_fs f1 s) = Some (1, put_fs f2 s)"
      "on_fs (sfs_size (layer E) (int k)) (put_fs f2 s) = Some (word_of_nat (length xs), put_fs f3 s)" "fs.at D f3" "k < 64" "length xs \<le> 7168" by blast
  have ok: "fs_ok D" using i by (simp add: sfs_inv_def)
  note cz = cp_size_ok [OF f(6)]
  have u: "unat (word_of_nat (length xs) :: u32) = length xs" using f(6) by simp
  have a: "(if word_of_nat (length xs) \<noteq> (0 :: u32) then word_of_nat (length xs) else 1) = cp_size xs"
    using of_nat_u32_inj [of "length xs" 0] f(6) by (auto simp: cp_size_def)
  show ?thesis
  proof (cases "p = 0")
    case True
    then have "h1 = the_heap s" using kmalloc_gives [OF h m] cz by simp
    then show ?thesis using True f(1-4) m ne a by (intro exI [of _ f3]) (simp add: cmd_cp_def malloc_heap)
  next
    case False
    then have g: "unat p \<notin> dom L" "heap_holds h1 (L(unat p \<mapsto> unat (cp_size xs)))" using kmalloc_gives [OF h m] cz by simp_all
    define h2 where "h2 = h1\<lparr>kmem := store_bytes p xs (kmem h1)\<rparr>"
    from read_k [of D "put_fs f3 (set_heap h1 s)" k xs "word_of_nat (length xs)"] f(4,5) n ok E u obtain f4 where
      f4: "on_fs (sfs_read (layer E) (int k) (word_of_nat (length xs))) (put_fs f3 (set_heap h1 s)) = Some ((int (length xs), xs), put_fs f4 (set_heap h1 s))"
        "fs.at D f4" by auto
    have "heap_holds h2 (L(unat p \<mapsto> unat (cp_size xs)))" unfolding h2_def using fill_buffer [OF g(2)] cz by simp
    moreover have "bytes (kmem h2) p (length xs) = xs" using bytes_store [of xs p "kmem h1"] f(6) by (simp add: h2_def)
    moreover have "cmd_cp E (Some src) (Some dst) s = cp_rest E (Some dst) p (int (length xs)) (put_fs f4 (set_heap h2 s))"
      using False f(1-3) f4(1) m ne a by (simp add: cmd_cp_def malloc_heap kstore_heap h2_def cp_rest_def Let_def)
    ultimately show ?thesis using False g(1) f4(2) by auto
  qed
qed

lemma cp_to_file:
  assumes s: "disk_at D s" and i: "sfs_inv D" and E: "ports_of E = io" and c: "cwd s = int c" "is_dir D c" and g: "good_name dst"
    and e: "entry_of D c dst = None \<and> free_inode D \<or> file_of D c dst \<noteq> None"
    and h: "unat p \<notin> dom L" "heap_holds (the_heap s) (L(unat p \<mapsto> n))" "bytes (kmem (the_heap s)) p (length xs) = xs" and l: "length xs \<le> 7168"
  shows "\<exists>f h D'. cp_rest E (Some dst) p (int (length xs)) s = Some (put_fs f (set_heap h s)) \<and> fs.at D' f \<and> sfs_inv D' \<and> same_but c dst D D'
    \<and> file_of D' c dst = Some xs \<and> heap_holds h L"
proof -
  from open_k [OF s i E c(2) g e] obtain j f1 D1 old where
    o: "(do { (ino, s) \<leftarrow> on_fs (sfs_lookup (layer E) (int c) dst) s;
       if ino < 0 then on_fs (sfs_create (layer E) (int c) dst (sint SFS_FILE)) s else Some (ino, s) }) = Some (int j, put_fs f1 s)"
      "fs.at D1 f1" "sfs_inv D1" "same_but c dst D D1" "entry_of D1 c dst = Some j" "node D1 j = Some (File old)" by blast
  have d1: "is_dir D1 c" using o(4) c(2) by (simp add: same_but_def)
  have nm: "plain dst" using g by (simp add: good_name_def)
  have ok: "fs_ok D1" and t: "tree_ok (node D1)" using o(3) by (auto simp: sfs_inv_def)
  have j: "j < 64" by (rule entry_ref(2) [OF t d1 nm o(5)])
  have "sint (itype (d_inode D1 j)) = 1" using file_size [OF ok j o(6)] by simp
  with type_k [of D1 "put_fs f1 s" j] o(2) j E obtain f2 where
    f2: "on_fs (sfs_type (layer E) (int j)) (put_fs f1 s) = Some (1, put_fs f2 s)" "fs.at D1 f2" by auto
  have u: "unat (word_of_nat (length xs) :: u32) = length xs" "min (length xs) 7168 = length xs" using l by simp_all
  from write_k [of D1 "put_fs f2 s", OF _ o(3) d1 nm o(5,6), of "word_of_nat (length xs)" xs] f2(2) u E obtain f3 D2 where
    w: "on_fs (sfs_write (layer E) (int j) xs (word_of_nat (length xs))) (put_fs f2 s) = Some (int (length xs), put_fs f3 s)" "fs.at D2 f3" "sfs_inv D2"
      "same_but c dst D1 D2" "file_of D2 c dst = Some xs" by auto
  from free_buffer [OF h(2,1)] obtain h' where h': "kfree p (the_heap s) = Some h'" "heap_holds h' L" by blast
  have b: "kload p (length xs) (put_fs f2 s) = xs" using h(3) by (simp add: kload_def kmem_of_def the_heap_def)
  from o(1) have "cp_rest E (Some dst) p (int (length xs)) s = (do {
       (ty, s) \<leftarrow> on_fs (sfs_type (layer E) (int j)) (put_fs f1 s);
       if ty \<noteq> sint SFS_FILE then mfree p (puts ''cp: dest is not a file\<newline>'' s) else do {
         (w, s) \<leftarrow> on_fs (sfs_write (layer E) (int j) (kload p (nat (int (length xs))) s) (word_of_int (int (length xs)))) s;
         mfree p s } })"
    using c(1) by (auto simp: cp_rest_def on_fs_eq bind_eq_Some_conv split: if_splits)
  also have "\<dots> = Some (put_fs f3 (set_heap h' s))" using f2(1) w(1) h'(1) b by (simp add: mfree_heap)
  finally show ?thesis using w(2,3,5) same_but_trans [OF o(4) w(4)] h'(2) by blast
qed

lemma cp_to_dir:
  assumes s: "disk_at D s" and i: "sfs_inv D" and E: "ports_of E = io" and c: "cwd s = int c" "is_dir D c" and g: "good_name dst"
    and e: "entry_of D c dst = Some j" "is_dir D j"
    and h: "unat p \<notin> dom L" "heap_holds (the_heap s) (L(unat p \<mapsto> n))"
  shows "\<exists>f h. cp_rest E (Some dst) p m s = Some (puts ''cp: dest is not a file\<newline>'' (put_fs f (set_heap h s))) \<and> fs.at D f \<and> heap_holds h L"
proof -
  have ok: "fs_ok D" and nm: "0 \<notin> set dst" using i g by (auto simp: sfs_inv_def good_name_def)
  from lookup_k [OF s ok c(2) nm] e(1) E c(1) obtain f1 where
    f1: "on_fs (sfs_lookup (layer E) (cwd s) dst) s = Some (int j, put_fs f1 s)" "fs.at D f1" by auto
  from e(2) obtain es where j: "j < 64" "node D j = Some (Dir es)" by (auto simp: is_dir_def)
  have "sint (itype (d_inode D j)) = 2" using fs.dir_inode(1) [OF ok j] by simp
  with type_k [of D "put_fs f1 s" j] f1(2) j E obtain f2 where
    f2: "on_fs (sfs_type (layer E) (int j)) (put_fs f1 s) = Some (2, put_fs f2 s)" "fs.at D f2" by auto
  from free_buffer [OF h(2,1)] obtain h' where h': "kfree p (the_heap s) = Some h'" "heap_holds h' L" by blast
  then show ?thesis using f1(1) f2 by (intro exI [of _ f2] exI [of _ h']) (simp add: cp_rest_def mfree_heap puts_def)
qed

lemma walk_name:
  assumes "good_name f" and "f \<noteq> []" and "0x2F \<notin> set f"
  shows "walk D (if f \<noteq> [] \<and> hd f = 0x2F then 0 else c) (components f) = entry_of D c f"
proof -
  have "hd f \<noteq> 0x2F" using assms(2,3) by (metis list.set_sel(1))
  then show ?thesis using assms components_Nil [OF assms(3)] by (simp add: good_name_def split: option.split)
qed

text \<open>\<^verbatim>\<open>cmd_mv\<close> after a \<^verbatim>\<open>cmd_cp\<close> that left something under the new name, whatever it is.\<close>

lemma mv_runs:
  assumes s: "disk_at D s" and i: "sfs_inv D" and E: "ports_of E = io" and c: "cwd s = int c" "is_dir D c" and f: "good_name f" "f \<noteq> []" and g: "g \<noteq> []" "0 \<notin> set g"
    and x: "file_of D c f = Some xs"
    and cp: "\<And>f0. fs.at D f0 \<Longrightarrow> \<exists>s1 D1. cmd_cp E (Some f) (Some g) (put_fs f0 s) = Some s1 \<and> disk_at D1 s1 \<and> sfs_inv D1 \<and> is_dir D1 c
      \<and> cwd s1 = int c \<and> entry_of D1 c g \<noteq> None \<and> file_of D1 c f \<noteq> None \<and> Q s1 D1"
  shows "\<exists>s1 D1 f' D'. cmd_mv E (Some f) (Some g) s = Some (put_fs f' s1) \<and> Q s1 D1 \<and> cwd s1 = int c \<and> fs.at D' f' \<and> sfs_inv D' \<and> same_but c f D1 D' \<and> entry_of D' c f = None"
proof -
  have ok: "fs_ok D" and nm: "0 \<notin> set f" "plain f" using i f by (auto simp: sfs_inv_def good_name_def)
  from file_entry [OF i c(2) nm(2) x] obtain k where k: "k < 64" "entry_of D c f = Some k" "node D k = Some (File xs)" by blast
  from lookup_k [OF s ok c(2) nm(1)] k(2) E obtain f1 where f1: "on_fs (sfs_lookup (layer E) (int c) f) s = Some (int k, put_fs f1 s)" "fs.at D f1" by auto
  have "sint (itype (d_inode D k)) = 1" using file_size [OF ok k(1,3)] by simp
  with type_k [of D "put_fs f1 s" k] f1(2) k E obtain f2 where
    f2: "on_fs (sfs_type (layer E) (int k)) (put_fs f1 s) = Some (1, put_fs f2 s)" "fs.at D f2" by auto
  from cp [OF f2(2)] obtain s1 D1 j y where
    s1: "cmd_cp E (Some f) (Some g) (put_fs f2 s) = Some s1" "disk_at D1 s1" "sfs_inv D1" "is_dir D1 c" "cwd s1 = int c" "entry_of D1 c g = Some j"
      "file_of D1 c f = Some y" "Q s1 D1" by blast
  from lookup_k [OF s1(2) _ s1(4) g(2)] s1(3,6) E obtain f3 where
    f3: "on_fs (sfs_lookup (layer E) (int c) g) s1 = Some (int j, put_fs f3 s1)" "fs.at D1 f3" by (auto simp: sfs_inv_def)
  from unlink_k [of D1 "put_fs f3 s1", OF _ s1(3,4) f(1) s1(7)] f3(2) E obtain f4 D2 where
    f4: "on_fs (sfs_unlink (layer E) (int c) f) (put_fs f3 s1) = Some (0, put_fs f4 s1)" "fs.at D2 f4" "sfs_inv D2" "same_but c f D1 D2" "entry_of D2 c f = None" by auto
  have "cmd_mv E (Some f) (Some g) s = Some (put_fs f4 s1)"
    using f1(1) f2(1) s1(1) f3(1) f4(1) c(1) s1(5) f(2) g(1) by (simp add: cmd_mv_def)
  then show ?thesis using s1(5,8) f4(2-5) by blast
qed

lemma mv_to_file:
  assumes s: "disk_at D s" and i: "sfs_inv D" and E: "ports_of E = io" and c: "cwd s = int c" "is_dir D c" and f: "good_name f" "f \<noteq> []" "0x2F \<notin> set f"
    and g: "g \<noteq> []" "good_name g" and x: "file_of D c f = Some xs" and e: "entry_of D c g = None \<and> free_inode D \<or> file_of D c g \<noteq> None"
    and h: "heap_holds (the_heap s) L" and m: "kmalloc (cp_size xs) (the_heap s) = Some (p, h1)" "p \<noteq> 0"
  shows "\<exists>D1 D' fb h. cmd_mv E (Some f) (Some g) s = Some (put_fs fb (set_heap h s)) \<and> fs.at D' fb \<and> sfs_inv D' \<and> heap_holds h L
    \<and> same_but c g D D1 \<and> file_of D1 c g = Some xs \<and> same_but c f D1 D' \<and> entry_of D' c f = None"
proof -
  have ok: "fs_ok D" and nm: "0 \<notin> set f" "plain f" "0 \<notin> set g" using i f g by (auto simp: sfs_inv_def good_name_def)
  from file_entry [OF i c(2) nm(2) x] obtain k where k: "k < 64" "entry_of D c f = Some k" "node D k = Some (File xs)" by blast
  have l: "length xs \<le> 7168" using file_size [OF ok k(1,3)] by simp
  let ?Q = "\<lambda>s1 D1. (\<exists>fb h. s1 = put_fs fb (set_heap h s) \<and> heap_holds h L) \<and> same_but c g D D1 \<and> file_of D1 c g = Some xs"
  have cp: "\<exists>s1 D1. cmd_cp E (Some f) (Some g) (put_fs f0 s) = Some s1 \<and> disk_at D1 s1 \<and> sfs_inv D1 \<and> is_dir D1 c
      \<and> cwd s1 = int c \<and> entry_of D1 c g \<noteq> None \<and> file_of D1 c f \<noteq> None \<and> ?Q s1 D1" if a: "fs.at D f0" for f0
  proof -
    have b: "disk_at D (put_fs f0 s)" "cwd (put_fs f0 s) = int c" "heap_holds (the_heap (put_fs f0 s)) L" "kmalloc (cp_size xs) (the_heap (put_fs f0 s)) = Some (p, h1)"
      using a c(1) h m(1) by simp_all
    from cp_starts [OF b(1) i E b(2) c(2) nm(1) f(2) g(1) walk_name [OF f, THEN trans, OF k(2)] k(3) b(3,4)] m(2) obtain f1 h1 where
      f1: "fs.at D f1" "unat p \<notin> dom L" "heap_holds h1 (L(unat p \<mapsto> unat (cp_size xs)))" "bytes (kmem h1) p (length xs) = xs"
        "cmd_cp E (Some f) (Some g) (put_fs f0 s) = cp_rest E (Some g) p (int (length xs)) (put_fs f1 (set_heap h1 s))" by auto
    have b: "disk_at D (put_fs f1 (set_heap h1 s))" "cwd (put_fs f1 (set_heap h1 s)) = int c"
      "heap_holds (the_heap (put_fs f1 (set_heap h1 s))) (L(unat p \<mapsto> unat (cp_size xs)))" "bytes (kmem (the_heap (put_fs f1 (set_heap h1 s)))) p (length xs) = xs"
      using f1(1,3,4) c(1) by simp_all
    from cp_to_file [OF b(1) i E b(2) c(2) g(2) e f1(2) b(3,4) l] obtain f2 h2 D2 where
      f2: "cp_rest E (Some g) p (int (length xs)) (put_fs f1 (set_heap h1 s)) = Some (put_fs f2 (set_heap h2 s))" "fs.at D2 f2" "sfs_inv D2" "same_but c g D D2"
        "file_of D2 c g = Some xs" "heap_holds h2 L" by auto
    have "file_of D2 c f \<noteq> None" using f2(4,5) x c(2) nm(2) by (cases "f = g") (auto simp: same_but_def)
    moreover have "entry_of D2 c g \<noteq> None" using f2(5) by (auto simp: file_of_def split: option.splits)
    moreover have "is_dir D2 c" using f2(4) c(2) by (simp add: same_but_def)
    ultimately show ?thesis using f1(5) f2 c(1) by (intro exI [of _ "put_fs f2 (set_heap h2 s)"] exI [of _ D2]) auto
  qed
  from mv_runs [where Q = ?Q, OF s i E c f(1,2) g(1) nm(3) x cp] show ?thesis by fastforce
qed

text \<open>A \<^verbatim>\<open>cmd_cp\<close> that copies nothing.\<close>

lemma cp_refuses:
  assumes s: "disk_at D s" and i: "sfs_inv D" and E: "ports_of E = io" and c: "cwd s = int c" "is_dir D c" and f: "good_name f" "f \<noteq> []" "0x2F \<notin> set f"
    and g: "g \<noteq> []" "good_name g" and x: "file_of D c f = Some xs" and e: "entry_of D c g = Some j" "p = 0 \<or> is_dir D j"
    and h: "heap_holds (the_heap s) L" and m: "kmalloc (cp_size xs) (the_heap s) = Some (p, h1)"
  shows "\<exists>fb h. cmd_cp E (Some f) (Some g) s = Some (puts (if p = 0 then ''cp: out of memory\<newline>'' else ''cp: dest is not a file\<newline>'') (put_fs fb (set_heap h s)))
    \<and> fs.at D fb \<and> heap_holds h L"
proof -
  have nm: "0 \<notin> set f" "plain f" using f by (auto simp: good_name_def)
  from file_entry [OF i c(2) nm(2) x] obtain k where k: "k < 64" "entry_of D c f = Some k" "node D k = Some (File xs)" by blast
  note st = cp_starts [OF s i E c nm(1) f(2) g(1) walk_name [OF f, THEN trans, OF k(2)] k(3) h m]
  show ?thesis
  proof (cases "p = 0")
    case True
    with st obtain f1 where "fs.at D f1" "cmd_cp E (Some f) (Some g) s = Some (puts ''cp: out of memory\<newline>'' (put_fs f1 s))" by auto
    then show ?thesis using True h by (intro exI [of _ f1] exI [of _ "the_heap s"]) simp
  next
    case False
    with st obtain f1 h1 where
      f1: "fs.at D f1" "unat p \<notin> dom L" "heap_holds h1 (L(unat p \<mapsto> unat (cp_size xs)))"
        "cmd_cp E (Some f) (Some g) s = cp_rest E (Some g) p (int (length xs)) (put_fs f1 (set_heap h1 s))" by auto
    have b: "disk_at D (put_fs f1 (set_heap h1 s))" "cwd (put_fs f1 (set_heap h1 s)) = int c"
      "heap_holds (the_heap (put_fs f1 (set_heap h1 s))) (L(unat p \<mapsto> unat (cp_size xs)))" using f1(1,3) c(1) by simp_all
    have d: "is_dir D j" using e(2) False by simp
    from cp_to_dir [OF b(1) i E b(2) c(2) g(2) e(1) d f1(2) b(3), of "int (length xs)"] f1(4) False show ?thesis by auto
  qed
qed

lemma mv_refused:
  assumes s: "disk_at D s" and i: "sfs_inv D" and E: "ports_of E = io" and c: "cwd s = int c" "is_dir D c" and f: "good_name f" "f \<noteq> []" "0x2F \<notin> set f"
    and g: "g \<noteq> []" "good_name g" and x: "file_of D c f = Some xs" and e: "entry_of D c g = Some j" "p = 0 \<or> is_dir D j"
    and h: "heap_holds (the_heap s) L" and m: "kmalloc (cp_size xs) (the_heap s) = Some (p, h1)"
  shows "\<exists>fb h D'. cmd_mv E (Some f) (Some g) s = Some (puts (if p = 0 then ''cp: out of memory\<newline>'' else ''cp: dest is not a file\<newline>'') (put_fs fb (set_heap h s)))
    \<and> fs.at D' fb \<and> sfs_inv D' \<and> heap_holds h L \<and> same_but c f D D' \<and> entry_of D' c f = None"
proof -
  let ?t = "if p = 0 then ''cp: out of memory\<newline>'' else ''cp: dest is not a file\<newline>''"
  let ?Q = "\<lambda>s1 D1. (\<exists>fb h. s1 = puts ?t (put_fs fb (set_heap h s)) \<and> heap_holds h L) \<and> D1 = D"
  have nm: "0 \<notin> set g" using g(2) by (simp add: good_name_def)
  have cp: "\<exists>s1 D1. cmd_cp E (Some f) (Some g) (put_fs f0 s) = Some s1 \<and> disk_at D1 s1 \<and> sfs_inv D1 \<and> is_dir D1 c
      \<and> cwd s1 = int c \<and> entry_of D1 c g \<noteq> None \<and> file_of D1 c f \<noteq> None \<and> ?Q s1 D1" if a: "fs.at D f0" for f0
  proof -
    have b: "disk_at D (put_fs f0 s)" "cwd (put_fs f0 s) = int c" "heap_holds (the_heap (put_fs f0 s)) L" "kmalloc (cp_size xs) (the_heap (put_fs f0 s)) = Some (p, h1)"
      using a c(1) h m(1) by simp_all
    from cp_refuses [OF b(1) i E b(2) c(2) f g x e b(3,4)] obtain fb h where
      "cmd_cp E (Some f) (Some g) (put_fs f0 s) = Some (puts ?t (put_fs fb (set_heap h s)))" "fs.at D fb" "heap_holds h L" by auto
    then show ?thesis using i c x e(1) by (intro exI [of _ "puts ?t (put_fs fb (set_heap h s))"] exI [of _ D]) (auto simp: puts_def)
  qed
  from mv_runs [where Q = ?Q, OF s i E c f(1,2) g(1) nm x cp] obtain fb h f' D' where
    "cmd_mv E (Some f) (Some g) s = Some (put_fs f' (puts ?t (put_fs fb (set_heap h s))))" "heap_holds h L" "fs.at D' f'" "sfs_inv D'"
    "same_but c f D D'" "entry_of D' c f = None" by blast
  then show ?thesis by (intro exI [of _ f'] exI [of _ h] exI [of _ D']) (simp add: puts_def)
qed

section \<open>Printing\<close>

lemma cat_prints:
  assumes s: "disk_at D s" and i: "sfs_inv D" and E: "ports_of E = io" and c: "cwd s = int c" "is_dir D c" and z: "0 \<notin> set fpath" and ne: "fpath \<noteq> []"
    and w: "walk D (if fpath \<noteq> [] \<and> hd fpath = 0x2F then 0 else c) (components fpath) = Some k" and n: "node D k = Some (File xs)" and xs: "0 \<notin> set xs"
    and h: "heap_holds (the_heap s) L" and m: "kmalloc (word_of_nat (length xs + 1)) (the_heap s) = Some (p, h1)" "p \<noteq> 0"
  shows "\<exists>fb h. cmd_cat E (Some fpath) s = Some (say (Kprint xs # (if xs = [] \<or> List.last xs = 0x0A then [] else [Kprint [0x0A]])) (put_fs fb (set_heap h s)))
    \<and> fs.at D fb \<and> heap_holds h L"
proof -
  from find_file [OF s i E c z w n] obtain f1 f2 f3 where
    f: "resolve E fpath s = Some (int k, put_fs f1 s)" "on_fs (sfs_type (layer E) (int k)) (put_fs f1 s) = Some (1, put_fs f2 s)"
      "on_fs (sfs_size (layer E) (int k)) (put_fs f2 s) = Some (word_of_nat (length xs), put_fs f3 s)" "fs.at D f3" "k < 64" "length xs \<le> 7168" by blast
  have ok: "fs_ok D" using i by (simp add: sfs_inv_def)
  have u: "unat (word_of_nat (length xs) :: u32) = length xs" "unat (word_of_nat (length xs + 1) :: u32) = length xs + 1"
    by (rule unat_of_nat_u32; use f(6) in simp)+
  have nz: "(word_of_nat (length xs + 1) :: u32) \<noteq> 0" using u(2) by (metis unat_0 add_is_0 one_neq_zero)
  from kmalloc_gives [OF h m(1) nz] u(2) f(6) m(2) have g: "unat p \<notin> dom L" "heap_holds h1 (L(unat p \<mapsto> length xs + 1))" by simp_all
  from read_k [of D "put_fs f3 (set_heap h1 s)" k xs "word_of_nat (length xs)"] f(4,5) n ok E u(1) obtain f4 where
    f4: "on_fs (sfs_read (layer E) (int k) (word_of_nat (length xs))) (put_fs f3 (set_heap h1 s)) = Some ((int (length xs), xs), put_fs f4 (set_heap h1 s))"
      "fs.at D f4" by auto
  define h2 where "h2 = h1\<lparr>kmem := store_bytes p (xs @ [0]) (kmem h1)\<rparr>"
  have st: "store_bytes (p + word_of_nat (length xs)) [0] (store_bytes p xs (kmem h1)) = kmem h2" unfolding h2_def using f(6) by (simp add: store_append)
  have "heap_holds h2 (L(unat p \<mapsto> length xs + 1))" unfolding h2_def by (rule fill_buffer [OF g(2)]) simp
  from free_buffer [OF this g(1)] obtain h3 where h3: "kfree p h2 = Some h3" "heap_holds h3 L" by blast
  have ld: "bytes (kmem h2) p (length xs + 1) = xs @ [0]" using bytes_store [of "xs @ [0]" p "kmem h1"] f(6) by (simp add: h2_def)
  then have pr: "takeWhile (\<lambda>c. c \<noteq> 0) (bytes (kmem h2) p (nat (int (length xs)) + 1)) = xs" using xs by (simp add: takeWhile_append)
  have la: "bytes (kmem h2) (p + word_of_int (int (length xs) - 1)) 1 = [List.last xs]" if "xs \<noteq> []"
  proof -
    have e: "int (length xs) - 1 = int (length xs - 1)" using that by (cases xs) auto
    have "bytes (kmem h2) (p + word_of_nat (length xs - 1)) 1 = [bytes (kmem h2) p (length xs + 1) ! (length xs - 1)]"
      using that by (simp add: bytes_def nth_append)
    also have "\<dots> = [List.last xs]" unfolding ld using that by (simp add: nth_append last_conv_nth)
    finally show ?thesis unfolding e of_int_of_nat_eq .
  qed
  have mm: "h1\<lparr>kmem := kmem h2\<rparr> = h2" by (simp add: h2_def)
  let ?nl = "if xs = [] \<or> List.last xs = 0x0A then [] else [Kprint [0x0A]]"
  have m': "kmalloc (word_of_nat (length xs) + 1) (the_heap s) = Some (p, h1)" using m(1) by (simp add: add.commute)
  have "cmd_cat E (Some fpath) s = Some (say (Kprint xs # ?nl) (put_fs f4 (set_heap h3 s)))"
    using f(1-3) f4(1) m' m(2) ne st pr la h3(1) mm
    by (cases "xs = []") (auto simp: cmd_cat_def malloc_heap kstore_heap kload_def mfree_heap Let_def puts_def str_def)
  then show ?thesis using f4(2) h3(2) by blast
qed

lemma echo_writes:
  assumes s: "disk_at D s" and i: "sfs_inv D" and E: "ports_of E = io" and c: "cwd s = int c" "is_dir D c" and f: "good_name f"
    and e: "entry_of D c f = None \<and> free_inode D \<or> file_of D c f \<noteq> None"
    and ws: "\<forall>w \<in> set ws. 0 \<notin> set w \<and> w \<noteq> str ''>'' \<and> w \<noteq> str ''>>''"
  shows "\<exists>fb D'. cmd_echo E (cmd # ws @ [str ''>'', f]) s = Some (put_fs fb s) \<and> fs.at D' fb \<and> sfs_inv D' \<and> same_but c f D D'
    \<and> file_of D' c f = Some (take 255 (spaced ws))"
proof -
  from open_k [OF s i E c(2) f e] obtain j f1 D1 old where
    o: "(do { (ino, s) \<leftarrow> on_fs (sfs_lookup (layer E) (int c) f) s;
       if ino < 0 then on_fs (sfs_create (layer E) (int c) f (sint SFS_FILE)) s else Some (ino, s) }) = Some (int j, put_fs f1 s)"
      "fs.at D1 f1" "sfs_inv D1" "same_but c f D D1" "entry_of D1 c f = Some j" "node D1 j = Some (File old)" by blast
  define t where "t = take 255 (spaced ws)"
  have t: "length t \<le> 255" by (simp add: t_def)
  have d1: "is_dir D1 c" using o(4) c(2) by (simp add: same_but_def)
  have nm: "plain f" using f by (simp add: good_name_def)
  have u: "unat (word_of_nat (length t) :: u32) = length t" "min (length t) 7168 = length t" using t by simp_all
  from write_k [of D1 "put_fs f1 s", OF _ o(3) d1 nm o(5,6), of "word_of_nat (length t)" t] o(2) u E obtain f3 D2 where
    w: "on_fs (sfs_write (layer E) (int j) t (word_of_nat (length t))) (put_fs f1 s) = Some (int (length t), put_fs f3 s)" "fs.at D2 f3" "sfs_inv D2"
      "same_but c f D1 D2" "file_of D2 c f = Some t" by auto
  have r: "find_redir (tl (cmd # ws @ [str ''>'', f])) 1 = Some (1 + length ws, False)" using find_redir_first [OF ws, of "[f]" 1] by simp
  have "(cmd # ws @ [str ''>'', f]) ! (1 + length ws + 1) = f" by (simp add: nth_append)
  moreover from o(1) obtain a fa where "on_fs (sfs_lookup (layer E) (int c) f) s = Some (a, put_fs fa s)"
    "(if a < 0 then on_fs (sfs_create (layer E) (int c) f (sint SFS_FILE)) (put_fs fa s) else Some (a, put_fs fa s)) = Some (int j, put_fs f1 s)"
    by (auto simp: bind_eq_Some_conv on_fs_eq)
  ultimately have "cmd_echo E (cmd # ws @ [str ''>'', f]) s = Some (put_fs f3 s)"
    using r c(1) w(1) by (cases "a < 0") (simp_all add: cmd_echo_def echo_text_spaced [unfolded One_nat_def] t_def Let_def)
  then show ?thesis unfolding t_def [symmetric] using w(2,3,5) same_but_trans [OF o(4) w(4)] by blast
qed

section \<open>From one prompt to the next\<close>

lemma shell_atD:
  assumes "shell_at good sec cap L c s"
  shows "disk_at (files sec s) s" and "sfs_inv (files sec s)" and "heap_holds (the_heap s) L" and "cwd s = int c" and "is_dir (files sec s) c"
  using assms by (auto simp: shell_at_def fs.at_def)

lemma shell_atI:
  assumes "disk_at D s" and "sfs_inv D" and "heap_holds (the_heap s) L" and "cwd s = int c" and "is_dir D c"
  shows "shell_at good sec cap L c s" and "files sec s = D"
  using assms by (auto simp: shell_at_def fs.at_def)

lemma moves:
  assumes sh: "shell_at good sec cap L c s" and E: "ports_of E = io" and f: "good_name f" "f \<noteq> []" "0x2F \<notin> set f" and g: "g \<noteq> []" "good_name g" and ne: "f \<noteq> g"
    and x: "file_of (files sec s) c f = Some xs" and e: "entry_of (files sec s) c g = None \<and> free_inode (files sec s) \<or> file_of (files sec s) c g \<noteq> None"
    and m: "kmalloc (cp_size xs) (the_heap s) = Some (p, h)" "p \<noteq> 0"
  shows "\<exists>s'. cmd_mv E (Some f) (Some g) s = Some s' \<and> shell_at good sec cap L c s' \<and> out s' = out s
    \<and> file_of (files sec s') c g = Some xs \<and> entry_of (files sec s') c f = None
    \<and> (\<forall>d nm. is_dir (files sec s) d \<and> plain nm \<and> (d, nm) \<noteq> (c, f) \<and> (d, nm) \<noteq> (c, g) \<longrightarrow> file_of (files sec s') d nm = file_of (files sec s) d nm)"
proof -
  note a = shell_atD [OF sh]
  from mv_to_file [OF a(1,2) E a(4,5) f g x e a(3) m] obtain D1 D' fb h where
    r: "cmd_mv E (Some f) (Some g) s = Some (put_fs fb (set_heap h s))" "fs.at D' fb" "sfs_inv D'" "heap_holds h L"
      "same_but c g (files sec s) D1" "file_of D1 c g = Some xs" "same_but c f D1 D'" "entry_of D' c f = None" by blast
  let ?s = "put_fs fb (set_heap h s)"
  have k: "is_dir D' d = is_dir (files sec s) d" for d using r(5,7) by (simp add: same_but_def)
  have b: "disk_at D' ?s" "heap_holds (the_heap ?s) L" "cwd ?s = int c" "is_dir D' c" using r(2,4) a(4,5) k by simp_all
  note at = shell_atI [OF b(1) r(3) b(2-4)]
  have "file_of D' c g = Some xs" using r(5,6,7) a(5) g(2) ne by (simp add: same_but_def good_name_def)
  moreover have "file_of D' d nm = file_of (files sec s) d nm" if "is_dir (files sec s) d" "plain nm" "(d, nm) \<noteq> (c, f)" "(d, nm) \<noteq> (c, g)" for d nm
    using that r(5,7) unfolding same_but_def by metis
  ultimately show ?thesis using r(1,8) at by (intro exI [of _ ?s]) simp
qed

lemma loses:
  assumes sh: "shell_at good sec cap L c s" and E: "ports_of E = io" and f: "good_name f" "f \<noteq> []" "0x2F \<notin> set f" and g: "g \<noteq> []" "good_name g"
    and x: "file_of (files sec s) c f = Some xs" and e: "g = f \<or> (\<exists>j. entry_of (files sec s) c g = Some j \<and> is_dir (files sec s) j)"
    and m: "kmalloc (cp_size xs) (the_heap s) = Some (p, h)"
  shows "\<exists>s'. cmd_mv E (Some f) (Some g) s = Some s' \<and> shell_at good sec cap L c s' \<and> entry_of (files sec s') c f = None \<and> same_but c f (files sec s) (files sec s')
    \<and> out s' = out s @ (if p = 0 then [Kprint (str ''cp: out of memory\<newline>'')] else if g = f then [] else [Kprint (str ''cp: dest is not a file\<newline>'')])"
proof -
  note a = shell_atD [OF sh]
  have "\<exists>cs fb h D'. cmd_mv E (Some f) (Some g) s = Some (say cs (put_fs fb (set_heap h s))) \<and> fs.at D' fb \<and> sfs_inv D' \<and> heap_holds h L
    \<and> same_but c f (files sec s) D' \<and> entry_of D' c f = None
    \<and> cs = (if p = 0 then [Kprint (str ''cp: out of memory\<newline>'')] else if g = f then [] else [Kprint (str ''cp: dest is not a file\<newline>'')])"
  proof (cases "g = f \<and> p \<noteq> 0")
    case True
    from mv_to_file [OF a(1,2) E a(4,5) f f(2,1) x _ a(3) m] x True obtain D1 D' fb h where
      r: "cmd_mv E (Some f) (Some f) s = Some (put_fs fb (set_heap h s))" "fs.at D' fb" "sfs_inv D'" "heap_holds h L"
        "same_but c f (files sec s) D1" "same_but c f D1 D'" "entry_of D' c f = None" by blast
    have "say [] (put_fs fb (set_heap h s)) = put_fs fb (set_heap h s)" by (simp add: say_def)
    then show ?thesis using r same_but_trans [OF r(5,6)] True by (intro exI [of _ "[]"] exI [of _ fb] exI [of _ h] exI [of _ D']) simp
  next
    case False
    obtain k where "entry_of (files sec s) c f = Some k" using x by (auto simp: file_of_def split: option.splits)
    then obtain j where j: "entry_of (files sec s) c g = Some j" "p = 0 \<or> is_dir (files sec s) j" using e False by blast
    have cs: "(if p = 0 then [Kprint (str ''cp: out of memory\<newline>'')] else if g = f then [] else [Kprint (str ''cp: dest is not a file\<newline>'')])
      = [Kprint (str (if p = 0 then ''cp: out of memory\<newline>'' else ''cp: dest is not a file\<newline>''))]" using False by simp
    show ?thesis unfolding cs using mv_refused [OF a(1,2) E a(4,5) f g x j a(3) m] unfolding puts_def by blast
  qed
  then obtain cs fb h D' where r: "cmd_mv E (Some f) (Some g) s = Some (say cs (put_fs fb (set_heap h s)))" "fs.at D' fb" "sfs_inv D'" "heap_holds h L"
    "same_but c f (files sec s) D'" "entry_of D' c f = None"
    "cs = (if p = 0 then [Kprint (str ''cp: out of memory\<newline>'')] else if g = f then [] else [Kprint (str ''cp: dest is not a file\<newline>'')])" by blast
  let ?s = "say cs (put_fs fb (set_heap h s))"
  have b: "disk_at D' ?s" "heap_holds (the_heap ?s) L" "cwd ?s = int c" "is_dir D' c" using r(2,4,5) a(4,5) by (simp_all add: same_but_def)
  note at = shell_atI [OF b(1) r(3) b(2-4)]
  then show ?thesis using r(1,5-7) by (intro exI [of _ ?s]) simp
qed

lemma resolves:
  assumes sh: "shell_at good sec cap L c s" and E: "ports_of E = io" and z: "0 \<notin> set fpath"
  shows "\<exists>s'. resolve E fpath s =
      Some (case walk (files sec s) (if fpath \<noteq> [] \<and> hd fpath = 0x2F then 0 else c) (components fpath) of Some k \<Rightarrow> int k | None \<Rightarrow> - 1, s')
    \<and> shell_at good sec cap L c s' \<and> files sec s' = files sec s \<and> out s' = out s"
proof -
  note a = shell_atD [OF sh]
  have "fs_ok (files sec s)" "c < 64" using a(2,5) by (auto simp: sfs_inv_def is_dir_def)
  from resolve_walks [OF a(1) this(1) E a(4) this(2) z] obtain f where
    f: "resolve E fpath s = Some (case walk (files sec s) (if fpath \<noteq> [] \<and> hd fpath = 0x2F then 0 else c) (components fpath) of Some k \<Rightarrow> int k | None \<Rightarrow> - 1, put_fs f s)"
      "fs.at (files sec s) f" by blast
  have b: "disk_at (files sec s) (put_fs f s)" "heap_holds (the_heap (put_fs f s)) L" "cwd (put_fs f s) = int c" using f(2) a(3,4) by simp_all
  show ?thesis using f(1) shell_atI [OF b(1) a(2) b(2,3) a(5)] by (intro exI [of _ "put_fs f s"]) simp
qed

lemma echoes:
  assumes sh: "shell_at good sec cap L c s" and E: "ports_of E = io" and f: "good_name f" "f \<noteq> []" "0x2F \<notin> set f"
    and e: "entry_of (files sec s) c f = None \<and> free_inode (files sec s) \<or> file_of (files sec s) c f \<noteq> None"
    and l: "0 \<notin> set line" "ref_args 16 line = str ''echo'' # ws @ [str ''>'', f]" "\<forall>w \<in> set ws. w \<noteq> str ''>'' \<and> w \<noteq> str ''>>''"
  shows "\<exists>s'. run_command E line s = Some s' \<and> shell_at good sec cap L c s' \<and> out s' = out s \<and> the_heap s' = the_heap s \<and> ir s' = ir s
    \<and> same_but c f (files sec s) (files sec s') \<and> file_of (files sec s') c f = Some (take 255 (spaced ws)) \<and> sec (dev (fsd (ks s'))) = files sec s'"
proof -
  note a = shell_atD [OF sh]
  have ws: "\<forall>w \<in> set ws. 0 \<notin> set w \<and> w \<noteq> str ''>'' \<and> w \<noteq> str ''>>''"
    using l ref_args_chars [of _ 16 line] by fastforce
  from echo_writes [OF a(1,2) E a(4,5) f(1) e ws, of "str ''echo''"] obtain f1 D1 where
    r: "cmd_echo E (str ''echo'' # ws @ [str ''>'', f]) s = Some (put_fs f1 s)" "fs.at D1 f1" "sfs_inv D1" "same_but c f (files sec s) D1"
      "file_of D1 c f = Some (take 255 (spaced ws))" by blast
  from sync_k [of D1 "put_fs f1 s" E, OF _ E] r(2) obtain f2 where y: "sync E (put_fs f1 s) = Some (put_fs f2 s)" "fs.at D1 f2" "sec (dev f2) = D1" by auto
  have "dispatch E (str ''echo'' # ws @ [str ''>'', f]) s = cmd_echo E (str ''echo'' # ws @ [str ''>'', f]) s"
    by (simp add: dispatch_def streq_def str_def of_char_def Let_def)
  then have "run_command E line s = Some (put_fs f2 s)" using r(1) y(1) by (simp add: run_command_args [OF l(1)] l(2) Let_def)
  moreover have b: "disk_at D1 (put_fs f2 s)" "heap_holds (the_heap (put_fs f2 s)) L" "cwd (put_fs f2 s) = int c" "is_dir D1 c"
    using y(2) r(4) a(3-5) by (simp_all add: same_but_def)
  note at = shell_atI [OF b(1) r(3) b(2-4)]
  ultimately show ?thesis using r(4,5) y(3) at by (intro exI [of _ "put_fs f2 s"]) simp
qed

lemma cats:
  assumes sh: "shell_at good sec cap L c s" and E: "ports_of E = io" and f: "good_name f" "f \<noteq> []" "0x2F \<notin> set f"
    and x: "file_of (files sec s) c f = Some xs" and nz: "0 \<notin> set xs"
    and m: "kmalloc (word_of_nat (length xs + 1)) (the_heap s) = Some (p, h)" "p \<noteq> 0"
    and l: "0 \<notin> set line" "ref_args 16 line = [str ''cat'', f]"
  shows "\<exists>s'. run_command E line s = Some s' \<and> shell_at good sec cap L c s' \<and> files sec s' = files sec s
    \<and> out s' = out s @ Kprint xs # (if xs = [] \<or> List.last xs = 0x0A then [] else [Kprint [0x0A]])"
proof -
  note a = shell_atD [OF sh]
  have nm: "0 \<notin> set f" "plain f" using f by (auto simp: good_name_def)
  from file_entry [OF a(2,5) nm(2) x] obtain k where k: "k < 64" "entry_of (files sec s) c f = Some k" "node (files sec s) k = Some (File xs)" by blast
  let ?cs = "Kprint xs # (if xs = [] \<or> List.last xs = 0x0A then [] else [Kprint [0x0A]])"
  from cat_prints [OF a(1,2) E a(4,5) nm(1) f(2) walk_name [OF f, THEN trans, OF k(2)] k(3) nz a(3) m] obtain f1 h where
    r: "cmd_cat E (Some f) s = Some (say ?cs (put_fs f1 (set_heap h s)))" "fs.at (files sec s) f1" "heap_holds h L" by blast
  from sync_k [of "files sec s" "say ?cs (put_fs f1 (set_heap h s))" E, OF _ E] r(2) obtain f2 where
    y: "sync E (say ?cs (put_fs f1 (set_heap h s))) = Some (say ?cs (put_fs f2 (set_heap h s)))" "fs.at (files sec s) f2" by auto
  have "dispatch E [str ''cat'', f] s = cmd_cat E (Some f) s"
    by (simp add: dispatch_def opt_arg_def streq_def str_def of_char_def Let_def)
  then have "run_command E line s = Some (say ?cs (put_fs f2 (set_heap h s)))" using r(1) y(1) by (simp only: run_command_args [OF l(1)] l(2) Let_def) simp
  moreover have b: "disk_at (files sec s) (say ?cs (put_fs f2 (set_heap h s)))" "heap_holds (the_heap (say ?cs (put_fs f2 (set_heap h s)))) L"
    "cwd (say ?cs (put_fs f2 (set_heap h s))) = int c" using y(2) r(3) a(4) by simp_all
  note at = shell_atI [OF b(1) a(2) b(2,3) a(5)]
  ultimately show ?thesis using at by (intro exI [of _ "say ?cs (put_fs f2 (set_heap h s))"]) simp
qed

end

section \<open>Properties\<close>

lemma spaced_no_nul:
  assumes "\<forall>w \<in> set ws. 0 \<notin> set w"
  shows "0 \<notin> set (take 255 (spaced ws))"
proof -
  have "0 \<notin> set (spaced ws)" using assms by (cases ws) (auto simp: spaced_def)
  then show ?thesis by (meson in_set_takeD)
qed

text \<open>C10. What \<^verbatim>\<open>echo\<close> writes, \<^verbatim>\<open>cat\<close> prints. The line \<open>echo w1 ... wn > f\<close>, with \<open>f\<close> a new file or an existing one, prints nothing, makes
  the words with single blanks between them, cut to 255 characters, the contents of \<open>f\<close>, leaves every other file as it is, and has written
  everything to the disk when it returns. The line \<open>cat f\<close> then prints that text, with a newline unless it is empty.\<close>

theorem echo_cat:
  assumes "sfs_disk (ports_of E) good sec cap" and "shell_at good sec cap L c s" and "good_name f" and "f \<noteq> []" and "0x2F \<notin> set f"
    and "entry_of (files sec s) c f = None \<and> free_inode (files sec s) \<or> file_of (files sec s) c f \<noteq> None"
    and "0 \<notin> set line" and "ref_args 16 line = str ''echo'' # ws @ [str ''>'', f]" and "\<forall>w \<in> set ws. w \<noteq> str ''>'' \<and> w \<noteq> str ''>>''"
    and "t = take 255 (spaced ws)" and "kmalloc (word_of_nat (length t + 1)) (the_heap s) = Some (p, h)" and "p \<noteq> 0"
    and "0 \<notin> set line'" and "ref_args 16 line' = [str ''cat'', f]"
  shows "\<exists>s1 s2. run_command E line s = Some s1 \<and> shell_at good sec cap L c s1 \<and> out s1 = out s \<and> same_but c f (files sec s) (files sec s1)
    \<and> file_of (files sec s1) c f = Some t \<and> sec (dev (fsd (ks s1))) = files sec s1
    \<and> run_command E line' s1 = Some s2 \<and> shell_at good sec cap L c s2 \<and> files sec s2 = files sec s1
    \<and> out s2 = out s @ Kprint t # (if t = [] \<or> List.last t = 0x0A then [] else [Kprint [0x0A]])"
proof -
  from sfs_disk.echoes [OF assms(1,2) refl assms(3-9)] obtain s1 where
    s1: "run_command E line s = Some s1" "shell_at good sec cap L c s1" "out s1 = out s" "the_heap s1 = the_heap s"
      "same_but c f (files sec s) (files sec s1)" "file_of (files sec s1) c f = Some t" "sec (dev (fsd (ks s1))) = files sec s1"
    unfolding assms(10) by blast
  have "\<forall>w \<in> set ws. 0 \<notin> set w" using assms(7,8) ref_args_chars [of _ 16 line] by fastforce
  then have "0 \<notin> set t" unfolding assms(10) by (rule spaced_no_nul)
  from sfs_disk.cats [OF assms(1) s1(2) refl assms(3-5) s1(6) this _ assms(12-14)] assms(11) s1 show ?thesis by auto
qed

text \<open>The shell on the freshly formatted simulated disk.\<close>

definition sim_shell :: "ata_sim bcache \<Rightarrow> ata_sim kernel" where
  "sim_shell f = (kern (sim_machine sim_blank))\<lparr>ks := exec_state f\<rparr>"

lemma sim_disk: "sfs_disk (ports_of sim_env) (\<lambda>d. s_phase d = Ready) sim_sec 32768"
  using simfs.sfs_disk_axioms by (simp add: sim_boot)

lemma sim_shell_ok: "\<exists>f. shell_at (\<lambda>d. s_phase d = Ready) sim_sec 32768 Map.empty 0 (sim_shell f) \<and> the_heap (sim_shell f) = kheap_init (\<lambda>_. 0)
    \<and> (\<forall>nm. plain nm \<longrightarrow> entry_of (files sim_sec (sim_shell f)) 0 nm = None) \<and> (\<forall>j < 64. j \<noteq> 0 \<longrightarrow> node (files sim_sec (sim_shell f)) j = None)"
proof -
  from simfs.mount_blank [OF sim_blank_boot] obtain f es where f: "bc_ok (\<lambda>d. s_phase d = Ready) sim_sec 32768 f" "sfs_inv (blocks sim_sec f)"
    "node (blocks sim_sec f) 0 = Some (Dir es)" "dot_entries 0 0 es" "\<forall>j < 64. j \<noteq> 0 \<longrightarrow> node (blocks sim_sec f) j = None"
    by (auto simp: wp_def simfs.fs.at_def)
  have "entry_of (blocks sim_sec f) 0 nm = None" if "plain nm" for nm
    using dot_entries_plain [OF f(4)] that f(3) map_of_SomeD [of es nm] by (cases "map_of es nm") (auto simp: entry_of_def)
  moreover have "shell_at (\<lambda>d. s_phase d = Ready) sim_sec 32768 Map.empty 0 (sim_shell f)"
    using f(1,2) root_dir [OF f(2)] exec_state_ok(3) [of f] exec_state_ok(5) [of f]
    by (simp add: shell_at_def sim_shell_def sim_machine_def the_heap_def)
  ultimately show ?thesis using exec_state_ok(5,8) [of f] f(5) by (intro exI [of _ f]) (simp add: sim_shell_def the_heap_def)
qed

lemma free_inodeI: "\<forall>j < 64. j \<noteq> k \<and> j \<noteq> 0 \<longrightarrow> node D j = None \<Longrightarrow> free_inode D"
  unfolding free_inode_def by (cases "k = 1") (auto intro: exI [of _ 1] exI [of _ 2])

lemma sim_lines: "ref_args 16 (str ''echo hi > f'') = str ''echo'' # [str ''hi''] @ [str ''>'', str ''f'']" "ref_args 16 (str ''cat f'') = [str ''cat'', str ''f'']"
  "0 \<notin> set (str ''echo hi > f'')" "0 \<notin> set (str ''cat f'')" "str ''hi'' \<noteq> str ''>''" "str ''hi'' \<noteq> str ''>>''" "good_name (str ''f'')" "str ''f'' \<noteq> []" "0x2F \<notin> set (str ''f'')"
  "take 255 (spaced [str ''hi'']) = str ''hi''"
  by code_simp+

lemma sim_room: "ALIGN8 sz = 8 \<Longrightarrow> sz \<noteq> 0 \<Longrightarrow> \<exists>p h. kmalloc sz (kheap_init (\<lambda>_. 0)) = Some (p, h) \<and> p \<noteq> 0"
proof -
  assume a: "ALIGN8 sz = 8" "sz \<noteq> 0"
  have "a_malloc 8 HEAP_LO [(0x3FFFF4, True)] = Some (HEAP_LO + 12, [(8, False), (0x3FFFE0, True)])" by simp
  then show ?thesis using kmalloc_refines [OF heap_ok_init a(2), of "\<lambda>_. 0"] a(1) by auto
qed

lemma sim_sizes: "ALIGN8 3 = 8" "ALIGN8 (cp_size []) = 8" "cp_size [] \<noteq> 0"
  by (simp_all add: ALIGN8_def cp_size_def)

theorem echo_cat_witness:
  "\<exists>f s1 s2. run_command sim_env (str ''echo hi > f'') (sim_shell f) = Some s1 \<and> run_command sim_env (str ''cat f'') s1 = Some s2
    \<and> out s2 = [Kprint (str ''hi''), Kprint [0x0A]]"
proof -
  from sim_shell_ok obtain f where f: "shell_at (\<lambda>d. s_phase d = Ready) sim_sec 32768 Map.empty 0 (sim_shell f)" "the_heap (sim_shell f) = kheap_init (\<lambda>_. 0)"
    "\<forall>nm. plain nm \<longrightarrow> entry_of (files sim_sec (sim_shell f)) 0 nm = None" "free_inode (files sim_sec (sim_shell f))"
    using free_inodeI [of 0] by blast
  have "plain (str ''f'')" using sim_lines(7) by (simp add: good_name_def)
  then have e: "entry_of (files sim_sec (sim_shell f)) 0 (str ''f'') = None \<and> free_inode (files sim_sec (sim_shell f)) \<or> file_of (files sim_sec (sim_shell f)) 0 (str ''f'') \<noteq> None"
    using f(3,4) by simp
  from sim_room [OF sim_sizes(1)] obtain p h where p: "kmalloc (word_of_nat (length (str ''hi'') + 1)) (the_heap (sim_shell f)) = Some (p, h)" "p \<noteq> 0"
    unfolding f(2) by (auto simp: str_def)
  have w: "\<forall>w \<in> set [str ''hi'']. w \<noteq> str ''>'' \<and> w \<noteq> str ''>>''" using sim_lines(5,6) by simp
  have o: "out (sim_shell f) = []" by (simp add: sim_shell_def sim_machine_def)
  from echo_cat [OF sim_disk f(1) sim_lines(7-9) e sim_lines(3,1) w sim_lines(10) [symmetric] p sim_lines(4,2)] o show ?thesis
    by (auto simp: str_def of_char_def)
qed

text \<open>C38. A path is resolved component by component: what stands between slashes, without empty components and with each cut to 31
  characters, is looked up from the root or from the current directory. The result is the inode reached, or \<open>- 1\<close> when a
  component is missing or is looked up in something that is not a directory. Nothing is changed on the disk.\<close>

theorem resolve_path:
  assumes "sfs_disk (ports_of E) good sec cap" and "shell_at good sec cap L c s" and "0 \<notin> set fpath"
  shows "\<exists>s'. resolve E fpath s =
      Some (case walk (files sec s) (if fpath \<noteq> [] \<and> hd fpath = 0x2F then 0 else c) (components fpath) of Some k \<Rightarrow> int k | None \<Rightarrow> - 1, s')
    \<and> shell_at good sec cap L c s' \<and> files sec s' = files sec s \<and> out s' = out s"
  by (rule sfs_disk.resolves [OF assms(1,2) refl assms(3)])

theorem resolve_path_witness: "\<exists>f s'. resolve sim_env (str ''//x/'') (sim_shell f) = Some (- 1, s')"
proof -
  from sim_shell_ok obtain f where f: "shell_at (\<lambda>d. s_phase d = Ready) sim_sec 32768 Map.empty 0 (sim_shell f)"
    "\<forall>nm. plain nm \<longrightarrow> entry_of (files sim_sec (sim_shell f)) 0 nm = None" by blast
  have c: "components (str ''//x/'') = [str ''x'']" "plain (str ''x'')" "0 \<notin> set (str ''//x/'')" by code_simp+
  from resolve_path [OF sim_disk f(1) c(3)] f(2) c(1,2) show ?thesis by auto
qed

text \<open>\<^verbatim>\<open>mv f g\<close>, with \<open>g\<close> a new name or another file of the current directory and heap space for the contents, makes the contents of
  \<open>f\<close> the contents of \<open>g\<close>, removes \<open>f\<close>, prints nothing, leaves every other file as it is and returns the buffer to the heap.\<close>

theorem mv_moves:
  assumes "sfs_disk (ports_of E) good sec cap" and "shell_at good sec cap L c s" and "good_name f" and "f \<noteq> []" and "0x2F \<notin> set f"
    and "g \<noteq> []" and "good_name g" and "f \<noteq> g" and "file_of (files sec s) c f = Some xs"
    and "entry_of (files sec s) c g = None \<and> free_inode (files sec s) \<or> file_of (files sec s) c g \<noteq> None"
    and "kmalloc (cp_size xs) (the_heap s) = Some (p, h)" and "p \<noteq> 0"
  shows "\<exists>s'. cmd_mv E (Some f) (Some g) s = Some s' \<and> shell_at good sec cap L c s' \<and> out s' = out s
    \<and> file_of (files sec s') c g = Some xs \<and> entry_of (files sec s') c f = None
    \<and> (\<forall>d nm. is_dir (files sec s) d \<and> plain nm \<and> (d, nm) \<noteq> (c, f) \<and> (d, nm) \<noteq> (c, g) \<longrightarrow> file_of (files sec s') d nm = file_of (files sec s) d nm)"
  by (rule sfs_disk.moves [OF assms(1,2) refl assms(3-12)])

text \<open>A state with a file \<open>f\<close>, for the witnesses.\<close>

lemma sim_with_file: "\<exists>s. shell_at (\<lambda>d. s_phase d = Ready) sim_sec 32768 Map.empty 0 s \<and> the_heap s = kheap_init (\<lambda>_. 0)
    \<and> file_of (files sim_sec s) 0 (str ''f'') = Some [] \<and> entry_of (files sim_sec s) 0 (str ''g'') = None \<and> free_inode (files sim_sec s) \<and> out s = []"
proof -
  from sim_shell_ok obtain f where f: "shell_at (\<lambda>d. s_phase d = Ready) sim_sec 32768 Map.empty 0 (sim_shell f)" "the_heap (sim_shell f) = kheap_init (\<lambda>_. 0)"
    "\<forall>nm. plain nm \<longrightarrow> entry_of (files sim_sec (sim_shell f)) 0 nm = None" "\<forall>j < 64. j \<noteq> 0 \<longrightarrow> node (files sim_sec (sim_shell f)) j = None" by blast
  note a = simfs.shell_atD [OF f(1)]
  have nm: "plain (str ''f'')" "plain (str ''g'')" "str ''g'' \<noteq> str ''f''" by code_simp+
  have "entry_of (files sim_sec (sim_shell f)) 0 (str ''f'') = None" "free_inode (files sim_sec (sim_shell f))" using f(3,4) nm(1) free_inodeI [of 0] by auto
  from simfs.create_k [OF a(1,2,5) sim_lines(7) this] obtain f1 D1 k where
    r: "simfs.fs.at D1 f1" "sfs_inv D1" "same_but 0 (str ''f'') (files sim_sec (sim_shell f)) D1" "entry_of D1 0 (str ''f'') = Some k" "node D1 k = Some (File [])"
      "\<forall>j < 64. j \<noteq> k \<and> j \<noteq> 0 \<longrightarrow> node D1 j = node (files sim_sec (sim_shell f)) j" by blast
  let ?s = "put_fs f1 (sim_shell f)"
  have b: "simfs.disk_at D1 ?s" "heap_holds (the_heap ?s) Map.empty" "cwd ?s = int 0" "is_dir D1 0" using r(1,3) a(3-5) by (simp_all add: same_but_def)
  note at = simfs.shell_atI [OF b(1) r(2) b(2-4)]
  have "free_inode D1" using r(6) f(4) by (intro free_inodeI [of k]) simp
  moreover have "file_of D1 0 (str ''f'') = Some []" using r(4,5) by (simp add: file_of_def)
  moreover have "entry_of D1 0 (str ''g'') = None" using r(3) f(3) nm a(5) by (simp add: same_but_def)
  moreover have "out ?s = []" by (simp add: sim_shell_def sim_machine_def)
  ultimately show ?thesis using at f(2) by (intro exI [of _ ?s]) simp
qed

theorem mv_moves_witness:
  "\<exists>s s'. file_of (files sim_sec s) 0 (str ''f'') = Some [] \<and> cmd_mv sim_env (Some (str ''f'')) (Some (str ''g'')) s = Some s'
    \<and> file_of (files sim_sec s') 0 (str ''g'') = Some [] \<and> entry_of (files sim_sec s') 0 (str ''f'') = None"
proof -
  from sim_with_file obtain s where s: "shell_at (\<lambda>d. s_phase d = Ready) sim_sec 32768 Map.empty 0 s" "the_heap s = kheap_init (\<lambda>_. 0)"
    "file_of (files sim_sec s) 0 (str ''f'') = Some []" "entry_of (files sim_sec s) 0 (str ''g'') = None" "free_inode (files sim_sec s)" by blast
  from sim_room [OF sim_sizes(2,3)] obtain p h where p: "kmalloc (cp_size []) (the_heap s) = Some (p, h)" "p \<noteq> 0" unfolding s(2) by blast
  have g: "str ''g'' \<noteq> []" "good_name (str ''g'')" "str ''f'' \<noteq> str ''g''" by code_simp+
  from mv_moves [OF sim_disk s(1) sim_lines(7-9) g s(3) _ p] s(3-5) show ?thesis by blast
qed

text \<open>C39. \<^verbatim>\<open>mv\<close> loses the file when the copy is refused or is the file itself: after \<open>mv f f\<close>, and after \<open>mv f d\<close> with \<open>d\<close> a directory, \<open>f\<close> is
  gone, every other file is as it was, and so nothing holds the contents. \<^verbatim>\<open>cmd_mv\<close> takes a destination that exists for a copy that worked.\<close>

theorem mv_loses_file:
  assumes "sfs_disk (ports_of E) good sec cap" and "shell_at good sec cap L c s" and "good_name f" and "f \<noteq> []" and "0x2F \<notin> set f"
    and "g \<noteq> []" and "good_name g" and "file_of (files sec s) c f = Some xs"
    and "g = f \<or> (\<exists>j. entry_of (files sec s) c g = Some j \<and> is_dir (files sec s) j)" and "kmalloc (cp_size xs) (the_heap s) = Some (p, h)"
  shows "\<exists>s'. cmd_mv E (Some f) (Some g) s = Some s' \<and> shell_at good sec cap L c s' \<and> entry_of (files sec s') c f = None \<and> same_but c f (files sec s) (files sec s')
    \<and> out s' = out s @ (if p = 0 then [Kprint (str ''cp: out of memory\<newline>'')] else if g = f then [] else [Kprint (str ''cp: dest is not a file\<newline>'')])"
  by (rule sfs_disk.loses [OF assms(1,2) refl assms(3-10)])

theorem mv_loses_file_witness:
  "\<exists>s s'. file_of (files sim_sec s) 0 (str ''f'') = Some [] \<and> cmd_mv sim_env (Some (str ''f'')) (Some (str ''f'')) s = Some s'
    \<and> entry_of (files sim_sec s') 0 (str ''f'') = None \<and> out s' = []"
proof -
  from sim_with_file obtain s where s: "shell_at (\<lambda>d. s_phase d = Ready) sim_sec 32768 Map.empty 0 s" "the_heap s = kheap_init (\<lambda>_. 0)"
    "file_of (files sim_sec s) 0 (str ''f'') = Some []" "out s = []" by blast
  from sim_room [OF sim_sizes(2,3)] obtain p h where p: "kmalloc (cp_size []) (the_heap s) = Some (p, h)" "p \<noteq> 0" unfolding s(2) by blast
  from mv_loses_file [OF sim_disk s(1) sim_lines(7-9) sim_lines(8,7) s(3) _ p(1)] p(2) s(3,4) show ?thesis by auto
qed

end
