(* ===== verification/Shell_Rm.thy ===== *)
theory Shell_Rm
  imports Shell_Cmds
begin

text \<open>
  \<^verbatim>\<open>rm -r\<close>: the recursion ends on every tree of directories and removes exactly that tree.
\<close>

section \<open>Subtrees\<close>

definition refs :: "(nat \<Rightarrow> node option) \<Rightarrow> (nat \<times> nat) set" where
  "refs N = {(i, k). \<exists>nm. ref N i nm k}"

text \<open>The inodes of the tree below an inode, itself included.\<close>

definition below :: "(nat \<Rightarrow> node option) \<Rightarrow> nat \<Rightarrow> nat set" where
  "below N k = {j. (k, j) \<in> (refs N)\<^sup>*}"

definition no_cycle :: "(nat \<Rightarrow> node option) \<Rightarrow> nat \<Rightarrow> bool" where
  "no_cycle N k \<longleftrightarrow> (\<forall>j \<in> below N k. (j, j) \<notin> (refs N)\<^sup>+)"

lemma refs_unique: "tree_ok N \<Longrightarrow> (i, k) \<in> refs N \<Longrightarrow> (j, k) \<in> refs N \<Longrightarrow> i = j"
  by (auto simp: refs_def dest: tree_okD(3))

lemma refs_root: "tree_ok N \<Longrightarrow> (i, 0) \<notin> refs N"
  by (auto simp: refs_def dest: tree_okD(2))

lemma refs_lt: "tree_ok N \<Longrightarrow> (i, k) \<in> refs N \<Longrightarrow> k < 64"
  by (auto simp: refs_def dest: tree_okD(2))

text \<open>There is no cycle below a directory that the root leads to.\<close>

lemma rooted_acyclic:
  assumes "tree_ok N" and "(0, k) \<in> (refs N)\<^sup>*"
  shows "(k, k) \<notin> (refs N)\<^sup>+"
  using assms(2)
proof (induction rule: rtrancl_induct)
  case base
  then show ?case using refs_root [OF assms(1)] by (metis tranclD2)
next
  case (step y k)
  show ?case
  proof
    assume "(k, k) \<in> (refs N)\<^sup>+"
    then obtain z where "(k, z) \<in> (refs N)\<^sup>*" "(z, k) \<in> refs N" by (metis tranclD2)
    then have "(y, y) \<in> (refs N)\<^sup>+" using refs_unique [OF assms(1) step.hyps(2)] step.hyps(2) by (metis rtrancl_into_trancl2)
    then show False using step.IH by blast
  qed
qed

lemma rooted_no_cycle: "tree_ok N \<Longrightarrow> (0, k) \<in> (refs N)\<^sup>* \<Longrightarrow> no_cycle N k"
  unfolding no_cycle_def below_def using rooted_acyclic by (metis mem_Collect_eq rtrancl_trans)

lemma below_self [simp]: "k \<in> below N k"
  by (simp add: below_def)

lemma below_child: "(k, c) \<in> refs N \<Longrightarrow> below N c \<subseteq> below N k"
  by (auto simp: below_def intro: converse_rtrancl_into_rtrancl)

lemma no_cycle_child: "no_cycle N k \<Longrightarrow> (k, c) \<in> refs N \<Longrightarrow> no_cycle N c"
  using below_child by (fastforce simp: no_cycle_def)

lemma parent_not_below: "no_cycle N k \<Longrightarrow> (k, c) \<in> refs N \<Longrightarrow> k \<notin> below N c"
  unfolding no_cycle_def below_def by (metis mem_Collect_eq rtrancl.rtrancl_refl rtrancl_into_trancl2)

lemma below_lt: "tree_ok N \<Longrightarrow> k < 64 \<Longrightarrow> j \<in> below N k \<Longrightarrow> j < 64"
  unfolding below_def mem_Collect_eq by (metis rtranclE refs_lt)

lemma below_finite: "tree_ok N \<Longrightarrow> k < 64 \<Longrightarrow> finite (below N k)"
  by (rule finite_subset [OF _ finite_lessThan [of 64]]) (use below_lt in blast)

lemma below_file: "N c = Some (File xs) \<Longrightarrow> below N c = {c}"
proof -
  assume "N c = Some (File xs)"
  then have "(c, j) \<notin> refs N" for j by (simp add: refs_def ref_def)
  then have "(c, j) \<in> (refs N)\<^sup>* \<longleftrightarrow> j = c" for j by (metis converse_rtranclE rtrancl.rtrancl_refl)
  then show ?thesis by (simp add: below_def)
qed

section \<open>Taking a subtree out\<close>

text \<open>The entry \<open>(nm, c)\<close> of the directory \<open>k\<close> and everything below it removed.\<close>

definition pruned :: "(nat \<Rightarrow> node option) \<Rightarrow> nat \<Rightarrow> u8 list \<Rightarrow> nat \<Rightarrow> (nat \<Rightarrow> node option) \<Rightarrow> bool" where
  "pruned N k nm c N' \<longleftrightarrow> (\<forall>j < 64. j \<noteq> k \<longrightarrow> N' j = (if j \<in> below N c then None else N j))
     \<and> (\<exists>xs ys. N k = Some (Dir (xs @ (nm, c) # ys)) \<and> N' k = Some (Dir (xs @ ys)))"

lemma pruned_refs:
  assumes "pruned N k nm c N'" and "k < 64"
  shows "refs N' \<subseteq> refs N"
proof -
  have "ref N i n j" if r: "ref N' i n j" for i n j
  proof (cases "i = k")
    case True
    then show ?thesis using r assms(1) by (auto simp: pruned_def ref_def)
  next
    case False
    then show ?thesis using r assms(1) by (auto simp: pruned_def ref_def split: if_splits)
  qed
  then show ?thesis by (auto simp: refs_def)
qed

lemma pruned_below:
  assumes p: "pruned N k nm c N'" and t: "tree_ok N" and k: "k < 64" and n: "plain nm"
  shows "below N k = below N' k \<union> below N c"
proof
  have c: "(k, c) \<in> refs N" using p k n by (auto simp: pruned_def refs_def ref_def)
  show "below N' k \<union> below N c \<subseteq> below N k"
    using below_child [OF c] pruned_refs [OF p k] by (auto simp: below_def intro: rtrancl_mono [THEN subsetD])
  show "below N k \<subseteq> below N' k \<union> below N c"
  proof
    fix j assume "j \<in> below N k"
    then have "(k, j) \<in> (refs N)\<^sup>*" by (simp add: below_def)
    then show "j \<in> below N' k \<union> below N c"
    proof (induction rule: rtrancl_induct)
      case (step y z)
      show ?case
      proof (cases "y \<in> below N c")
        case True
        then show ?thesis using step.hyps(2) by (auto simp: below_def intro: rtrancl_into_rtrancl)
      next
        case False
        then have y: "y \<in> below N' k" using step.IH by blast
        from step.hyps(2) obtain m where m: "ref N y m z" by (auto simp: refs_def)
        have "ref N' y m z \<or> z = c"
        proof (cases "y = k")
          case True
          then show ?thesis using m p by (auto simp: pruned_def ref_def)
        next
          case yk: False
          have "y < 64" using m by (simp add: ref_def)
          then have "N' y = N y" using p yk False by (simp add: pruned_def)
          then show ?thesis using m by (simp add: ref_def)
        qed
        then show ?thesis using y by (auto simp: below_def refs_def intro: rtrancl_into_rtrancl)
      qed
    qed simp
  qed
qed

lemma pruned_gone:
  assumes "pruned N k nm c N'" and "tree_ok N'" and "c < 64" and "c \<noteq> k"
  shows "c \<notin> below N' k"
proof
  assume "c \<in> below N' k"
  then obtain y where "(y, c) \<in> refs N'" using assms(4) by (auto simp: below_def elim: rtranclE)
  then have "N' c \<noteq> None" using assms(2) by (auto simp: refs_def dest: tree_okD(2))
  then show False using assms by (simp add: pruned_def)
qed

lemma pruned_no_cycle:
  assumes "pruned N k nm c N'" and "k < 64" and "no_cycle N k"
  shows "no_cycle N' k"
proof -
  have m: "(refs N')\<^sup>* \<subseteq> (refs N)\<^sup>*" "(refs N')\<^sup>+ \<subseteq> (refs N)\<^sup>+"
    using pruned_refs [OF assms(1,2)] by (auto intro: rtrancl_mono [THEN subsetD] trancl_mono)
  then show ?thesis using assms(3) unfolding no_cycle_def below_def by blast
qed

text \<open>All entries but the dot entries of the directory \<open>k\<close> removed, with everything below it.\<close>

definition emptied :: "(nat \<Rightarrow> node option) \<Rightarrow> nat \<Rightarrow> (nat \<Rightarrow> node option) \<Rightarrow> bool" where
  "emptied N k N' \<longleftrightarrow> (\<forall>j < 64. j \<noteq> k \<longrightarrow> N' j = (if j \<in> below N k then None else N j))
     \<and> (\<exists>es. N k = Some (Dir es) \<and> N' k = Some (Dir (filter (\<lambda>(nm, c). \<not> plain nm) es)))"

lemma emptied_pruned:
  assumes p: "pruned N k nm c N1" and t: "tree_ok N" and k: "k < 64" and n: "plain nm" and e: "emptied N1 k N'"
  shows "emptied N k N'"
proof -
  have "N' j = (if j \<in> below N k then None else N j)" if "j < 64" "j \<noteq> k" for j
    using p e that unfolding pruned_below [OF p t k n] by (auto simp: pruned_def emptied_def)
  moreover obtain xs ys where "N k = Some (Dir (xs @ (nm, c) # ys))" "N1 k = Some (Dir (xs @ ys))" using p by (auto simp: pruned_def)
  ultimately show ?thesis using e n by (auto simp: emptied_def)
qed

lemma emptied_none:
  assumes "N k = Some (Dir es)" and "\<forall>(nm, c) \<in> set es. \<not> plain nm"
  shows "emptied N k N"
proof -
  have "(k, j) \<notin> refs N" for j using assms by (auto simp: refs_def ref_def)
  then have "below N k = {k}" unfolding below_def by (auto elim: converse_rtranclE)
  moreover have "filter (\<lambda>(nm, c). \<not> plain nm) es = es" using assms(2) by (auto intro: filter_True)
  ultimately show ?thesis using assms(1) by (auto simp: emptied_def)
qed

text \<open>The emptied directory, or a file, is then unlinked.\<close>

lemma unlink_pruned:
  assumes t: "tree_ok N" and k: "k < 64" "N k = Some (Dir (xs @ (nm, c) # ys))" and n: "plain nm" and nc: "no_cycle N k"
    and m: "emptied N c N1 \<or> (\<exists>b. N c = Some (File b)) \<and> N1 = N"
    and u: "N' c = None" "\<forall>j < 64. j \<noteq> c \<and> j \<noteq> k \<longrightarrow> N' j = N1 j" "N' k = Some (Dir (xs @ ys))"
  shows "pruned N k nm c N'"
proof -
  have r: "(k, c) \<in> refs N" using k n by (auto simp: refs_def ref_def)
  have "N' j = (if j \<in> below N c then None else N j)" if j: "j < 64" "j \<noteq> k" for j
  proof (cases "j = c")
    case False
    then have "N' j = N1 j" using u(2) j by blast
    moreover have "N1 j = (if j \<in> below N c then None else N j)"
      using m False j below_file [of N c] by (auto simp: emptied_def)
    ultimately show ?thesis by simp
  qed (simp add: u(1))
  then show ?thesis using k(2) u(3) by (auto simp: pruned_def)
qed

lemma emptied_parent: "no_cycle N k \<Longrightarrow> (k, c) \<in> refs N \<Longrightarrow> k < 64 \<Longrightarrow> emptied N c N1 \<Longrightarrow> N1 k = N k"
  using parent_not_below [of N k c] by (auto simp: emptied_def)

section \<open>The recursion\<close>

lemma is_dots_plain: "0 \<notin> set nm \<Longrightarrow> is_dots nm \<longleftrightarrow> \<not> plain nm"
  by (simp add: is_dots_def plain_def streq_eq DOT_def DOTDOT_def)

definition child_of :: "(u8 list \<times> nat) list \<Rightarrow> u8 list option" where
  "child_of es = map_option fst (List.find (\<lambda>(nm, c). plain nm) es)"

context sfs_disk
begin

lemma dir_name_nul:
  assumes "fs_ok D" and "i < 64" and "node D i = Some (Dir es)" and "(nm, c) \<in> set es"
  shows "0 \<notin> set nm"
proof -
  have "(nm, c) \<in> set (dents D (owned D i))" using fs.dir_inode(2) [OF assms(1-3)] assms(4) by simp
  then obtain b where b: "(nm, c) \<in> set (live (D b))" unfolding dents_def set_concat set_map by blast
  then obtain e where "nm = ent_name (D b) e" unfolding fs.entries_in_filter set_map set_filter by auto
  then show ?thesis unfolding ent_name_def using set_takeWhileD by fastforce
qed

lemma first_child_k:
  assumes ok: "fs_ok D" and i: "i < 64" "node D i = Some (Dir es)" and E: "ports_of E = io"
  shows "disk_at D s \<Longrightarrow> \<exists>f. first_child E (int i) (int j) s = Some (child_of (drop j es), put_fs f s) \<and> fs.at D f"
proof (induction "length es - j" arbitrary: j s)
  case 0
  from fs.sfs_readdir_wp [OF 0(2) ok i, of j] 0(1) E obtain f where
    "on_fs (sfs_readdir (layer E) (int i) (int j)) s = Some ((- 1, None), put_fs f s)" "fs.at D f" by (auto simp: wp_def on_fs_Some)
  then show ?case using 0(1) by (subst first_child.simps) (auto simp: child_of_def)
next
  case (Suc n)
  then have j: "j < length es" by simp
  obtain nm c where e: "es ! j = (nm, c)" by (cases "es ! j")
  have nm: "0 \<notin> set nm" using dir_name_nul [OF ok i, of nm c] nth_mem [OF j] e by simp
  have d: "drop j es = (nm, c) # drop (Suc j) es" using j e by (simp add: Cons_nth_drop_Suc [symmetric])
  from fs.sfs_readdir_wp [OF Suc(3) ok i, of j] j e E obtain f1 where
    f1: "on_fs (sfs_readdir (layer E) (int i) (int j)) s = Some ((int c, Some nm), put_fs f1 s)" "fs.at D f1" by (auto simp: wp_def on_fs_Some)
  show ?case
  proof (cases "plain nm")
    case True
    then show ?thesis using f1 d is_dots_plain [OF nm] by (subst first_child.simps) (auto simp: child_of_def)
  next
    case False
    have "\<exists>f. first_child E (int i) (int (Suc j)) (put_fs f1 s) = Some (child_of (drop (Suc j) es), put_fs f (put_fs f1 s)) \<and> fs.at D f"
      by (rule Suc.hyps(1)) (use Suc.hyps(2) f1(2) in simp_all)
    then show ?thesis using f1(1) d is_dots_plain [OF nm] False by (subst first_child.simps) (auto simp: child_of_def add.commute)
  qed
qed

text \<open>A directory without other entries than dot entries has at most two.\<close>

lemma two_dots:
  assumes "fs_ok D" and "c < 64" and "node D c = Some (Dir es)" and "\<forall>x \<in> set es. \<not> plain (fst x)"
  shows "length es \<le> 2"
proof -
  have "length es = card (fst ` set es)" using distinct_card [OF fs.dir_inode(7) [OF assms(1-3)]] by simp
  also have "\<dots> \<le> card {DOT, DOTDOT}" using assms(4) by (intro card_mono) (auto simp: plain_def)
  also have "\<dots> \<le> 2" by (simp add: card_insert_if)
  finally show ?thesis .
qed

text \<open>Removing one entry, when the loop over the children of a directory is known to empty it.\<close>

lemma rm_entry:
  assumes s: "disk_at D s" and i: "sfs_inv D" and E: "ports_of E = io" and k: "k < 64" "node D k = Some (Dir es)" and e: "map_of es nm = Some c"
    and n: "plain nm" "0 \<notin> set nm" and nc: "no_cycle (node D) k"
    and loop: "\<And>f. fs.at D f \<Longrightarrow> is_dir D c \<Longrightarrow> \<exists>r f' D'. rm_go E (Inr (int c)) (put_fs f s) = Some (r, put_fs f' s) \<and> fs.at D' f' \<and> sfs_inv D' \<and> emptied (node D) c (node D')"
  shows "\<exists>f D'. rm_go E (Inl (int k, nm)) s = Some (0, put_fs f s) \<and> fs.at D' f \<and> sfs_inv D' \<and> pruned (node D) k nm c (node D')"
proof -
  have ok: "fs_ok D" and t: "tree_ok (node D)" using i by (auto simp: sfs_inv_def)
  have d: "is_dir D k" using k by (simp add: is_dir_def)
  have r: "ref (node D) k nm c" using k n e by (auto simp: ref_def dest: map_of_SomeD)
  note cc = tree_okD(2) [OF t r]
  have rk: "(k, c) \<in> refs (node D)" using r by (auto simp: refs_def)
  have ec: "entry_of D k nm = Some c" using k(2) e by (simp add: entry_of_def)
  from lookup_k [OF s ok d n(2)] ec E obtain f1 where f1: "on_fs (sfs_lookup (layer E) (int k) nm) s = Some (int c, put_fs f1 s)" "fs.at D f1" by auto
  from type_k [of D "put_fs f1 s" c] f1(2) cc E obtain f2 where
    f2: "on_fs (sfs_type (layer E) (int c)) (put_fs f1 s) = Some (sint (itype (d_inode D c)), put_fs f2 s)" "fs.at D f2" by auto
  have "\<exists>r f3 D1. (if sint (itype (d_inode D c)) = sint SFS_DIR then rm_go E (Inr (int c)) (put_fs f2 s) else Some (0, put_fs f2 s)) = Some (r, put_fs f3 s)
    \<and> fs.at D1 f3 \<and> sfs_inv D1 \<and> (emptied (node D) c (node D1) \<or> (\<exists>b. node D c = Some (File b)) \<and> D1 = D)"
  proof (cases "node D c")
    case (Some x)
    then show ?thesis
    proof (cases x)
      case (File b)
      then have "itype (d_inode D c) = 1" using file_size [OF ok] cc Some by simp
      then show ?thesis using f2(2) i File Some by (intro exI [of _ 0] exI [of _ f2] exI [of _ D]) simp
    next
      case (Dir cs)
      then have "itype (d_inode D c) = 2" "is_dir D c" using fs.dir_inode(1) [OF ok] cc Some by (auto simp: is_dir_def)
      with loop [OF f2(2) this(2)] show ?thesis by auto
    qed
  qed (use cc in simp)
  then obtain r f3 D1 where f3: "(if sint (itype (d_inode D c)) = sint SFS_DIR then rm_go E (Inr (int c)) (put_fs f2 s) else Some (0, put_fs f2 s)) = Some (r, put_fs f3 s)"
    "fs.at D1 f3" "sfs_inv D1" "emptied (node D) c (node D1) \<or> (\<exists>b. node D c = Some (File b)) \<and> D1 = D" by blast
  have k1: "node D1 k = Some (Dir es)" using f3(4) emptied_parent [OF nc rk k(1)] k(2) by auto
  have ok1: "fs_ok D1" and t1: "tree_ok (node D1)" and z1: "D1 0 = superblock" using f3(3) by (auto simp: sfs_inv_def)
  have u: "distinct (map fst es)" by (rule fs.dir_inode(7) [OF ok1 k(1) k1])
  have "map_of es nm \<noteq> Some k" using e cc by auto
  with fs.sfs_unlink_wp [OF f3(2) ok1 k(1) k1 n(2)] n(1) obtain q f4 D2 where
    q: "sfs_unlink (cache_layer io) (int k) nm f3 = Some (q, f4)" "fs.at D2 f4" "unlink_post D1 k es nm q D2" by (auto simp: wp_def plain_def)
  have short: "\<not> (\<exists>ks. node D1 c = Some (Dir ks) \<and> 2 < length ks)"
    using f3(4) two_dots [OF ok1, of c] cc by (fastforce simp: emptied_def)
  from q(3) e short obtain xs ys where x: "q = 0" "node D2 c = None" "\<forall>j < 64. j \<noteq> c \<and> j \<noteq> k \<longrightarrow> node D2 j = node D1 j"
    "es = xs @ (nm, c) # ys" "node D2 k = Some (Dir (xs @ ys))" by (auto simp: unlink_post_def)
  have "sfs_inv D2" using q(3) z1 tree_ok_unlink [OF t1 q(3) k1 k(1) n(1) u] by (auto simp: sfs_inv_def unlink_post_def)
  moreover have "pruned (node D) k nm c (node D2)"
    using f3(4) k(2) x(4) by (intro unlink_pruned [OF t k(1) _ n(1) nc _ x(2,3,5)]) auto
  moreover have "rm_go E (Inl (int k, nm)) s = Some (0, put_fs f4 s)"
    using f1(1) f2(1) f3(1) q(1) x(1) E by (subst rm_go.simps) (simp add: on_fs_Some)
  ultimately show ?thesis using q(2) by blast
qed

lemma rm_loop:
  assumes E: "ports_of E = io"
  shows "disk_at D s \<Longrightarrow> sfs_inv D \<Longrightarrow> is_dir D k \<Longrightarrow> no_cycle (node D) k \<Longrightarrow>
    \<exists>r f D'. rm_go E (Inr (int k)) s = Some (r, put_fs f s) \<and> fs.at D' f \<and> sfs_inv D' \<and> emptied (node D) k (node D')"
proof (induction "card (below (node D) k)" arbitrary: D k s rule: less_induct)
  case less
  from less.prems(3) obtain es where k: "k < 64" "node D k = Some (Dir es)" by (auto simp: is_dir_def)
  have ok: "fs_ok D" and t: "tree_ok (node D)" using less.prems(2) by (auto simp: sfs_inv_def)
  from first_child_k [OF ok k E less.prems(1), of 0] obtain f1 where
    f1: "first_child E (int k) 0 s = Some (child_of es, put_fs f1 s)" "fs.at D f1" by auto
  show ?case
  proof (cases "child_of es")
    case None
    then have "\<forall>(nm, c) \<in> set es. \<not> plain nm" by (auto simp: child_of_def find_None_iff)
    from emptied_none [of "node D", OF k(2) this] None f1 less.prems(2) show ?thesis by (subst rm_go.simps) auto
  next
    case (Some nm)
    then obtain c where c: "(nm, c) \<in> set es" "plain nm" by (auto simp: child_of_def find_Some_iff dest: nth_mem)
    have e: "map_of es nm = Some c" using map_of_eq_Some_iff [OF fs.dir_inode(7) [OF ok k]] c(1) by blast
    have r: "(k, c) \<in> refs (node D)" using k c by (auto simp: refs_def ref_def)
    have nul: "0 \<notin> set nm" by (rule dir_name_nul [OF ok k c(1)])
    have fin: "finite (below (node D) k)" by (rule below_finite [OF t k(1)])
    have "below (node D) c \<subset> below (node D) k" using below_child [OF r] parent_not_below [OF less.prems(4) r] below_self [of k "node D"] by blast
    then have lt: "card (below (node D) c) < card (below (node D) k)" by (rule psubset_card_mono [OF fin])
    have "\<exists>f D1. rm_go E (Inl (int k, nm)) (put_fs f1 s) = Some (0, put_fs f (put_fs f1 s)) \<and> fs.at D1 f \<and> sfs_inv D1 \<and> pruned (node D) k nm c (node D1)"
    proof (rule rm_entry [OF _ less.prems(2) E k e c(2) nul less.prems(4)])
      show "\<exists>r f' D'. rm_go E (Inr (int c)) (put_fs f (put_fs f1 s)) = Some (r, put_fs f' (put_fs f1 s)) \<and> fs.at D' f' \<and> sfs_inv D' \<and> emptied (node D) c (node D')"
        if "fs.at D f" "is_dir D c" for f
        using less.hyps [OF lt, of "put_fs f s"] that less.prems(2) no_cycle_child [OF less.prems(4) r] by simp
    qed (simp add: f1(2))
    then obtain f2 D1 where f2: "rm_go E (Inl (int k, nm)) (put_fs f1 s) = Some (0, put_fs f2 s)" "fs.at D1 f2" "sfs_inv D1" "pruned (node D) k nm c (node D1)" by auto
    have b: "below (node D) k = below (node D1) k \<union> below (node D) c" by (rule pruned_below [OF f2(4) t k(1) c(2)])
    have "c \<notin> below (node D1) k" using f2(3) parent_not_below [OF less.prems(4) r] refs_lt [OF t r]
      by (intro pruned_gone [OF f2(4)]) (auto simp: sfs_inv_def)
    then have "below (node D1) k \<subset> below (node D) k" using b below_self [of c "node D"] by blast
    then have "card (below (node D1) k) < card (below (node D) k)" by (rule psubset_card_mono [OF fin])
    moreover have "is_dir D1 k" using f2(4) k(1) by (auto simp: pruned_def is_dir_def)
    ultimately obtain q f3 D2 where f3: "rm_go E (Inr (int k)) (put_fs f2 s) = Some (q, put_fs f3 s)" "fs.at D2 f3" "sfs_inv D2" "emptied (node D1) k (node D2)"
      using less.hyps [of D1 k "put_fs f2 s"] f2(2,3) pruned_no_cycle [OF f2(4) k(1) less.prems(4)] by auto
    have "rm_go E (Inr (int k)) s = Some (q, put_fs f3 s)" using f1(1) Some f2(1) f3(1) by (subst rm_go.simps) simp
    then show ?thesis using f3(2,3) emptied_pruned [OF f2(4) t k(1) c(2) f3(4)] by blast
  qed
qed

lemma removes_tree:
  assumes sh: "shell_at good sec cap L c s" and E: "ports_of E = io" and r: "(0, c) \<in> (refs (node (files sec s)))\<^sup>*"
    and n: "plain name" "0 \<notin> set name" and e: "entry_of (files sec s) c name = Some k"
  shows "\<exists>s'. cmd_rm E [cmd, str ''-r'', name] s = Some s' \<and> shell_at good sec cap L c s' \<and> out s' = out s \<and> pruned (node (files sec s)) c name k (node (files sec s'))"
proof -
  note a = shell_atD [OF sh]
  let ?D = "files sec s"
  from a(5) obtain es where c: "c < 64" "node ?D c = Some (Dir es)" by (auto simp: is_dir_def)
  have t: "tree_ok (node ?D)" using a(2) by (simp add: sfs_inv_def)
  have m: "map_of es name = Some k" using e c(2) by (simp add: entry_of_def)
  have rk: "(c, k) \<in> refs (node ?D)" using c n(1) m by (auto simp: refs_def ref_def dest: map_of_SomeD)
  have nc: "no_cycle (node ?D) c" by (rule rooted_no_cycle [OF t r])
  have "\<exists>f D1. rm_go E (Inl (int c, name)) s = Some (0, put_fs f s) \<and> fs.at D1 f \<and> sfs_inv D1 \<and> pruned (node ?D) c name k (node D1)"
  proof (rule rm_entry [OF a(1,2) E c m n nc])
    show "\<exists>q f' D'. rm_go E (Inr (int k)) (put_fs f s) = Some (q, put_fs f' s) \<and> fs.at D' f' \<and> sfs_inv D' \<and> emptied (node ?D) k (node D')"
      if "fs.at ?D f" "is_dir ?D k" for f
      using rm_loop [OF E, of ?D "put_fs f s" k] that a(2) no_cycle_child [OF nc rk] by simp
  qed
  then obtain f D1 where f: "rm_go E (Inl (int c, name)) s = Some (0, put_fs f s)" "fs.at D1 f" "sfs_inv D1" "pruned (node ?D) c name k (node D1)" by blast
  have b: "disk_at D1 (put_fs f s)" "heap_holds (the_heap (put_fs f s)) L" "cwd (put_fs f s) = int c" "is_dir D1 c"
    using f(2,4) a(3,4) c(1) by (auto simp: pruned_def is_dir_def)
  note at = shell_atI [OF b(1) f(3) b(2-4)]
  have "streq (str ''-r'') (str ''-r'')" by (simp add: streq_def str_def of_char_def)
  then have "cmd_rm E [cmd, str ''-r'', name] s = Some (put_fs f s)" using f(1) a(4) by (simp add: cmd_rm_def rm_rec_def)
  then show ?thesis using at f(4) by (intro exI [of _ "put_fs f s"]) simp
qed

text \<open>The parent directory is emptied, the current directory with it; only then \<^verbatim>\<open>sfs_unlink\<close> refuses the name.\<close>

lemma removes_parent:
  assumes sh: "shell_at good sec cap L c s" and E: "ports_of E = io" and r: "(0, p) \<in> (refs (node (files sec s)))\<^sup>*" "(p, c) \<in> refs (node (files sec s))"
    and e: "entry_of (files sec s) c DOTDOT = Some p"
  shows "\<exists>s'. cmd_rm E [cmd, str ''-r'', DOTDOT] s = Some s' \<and> bc_ok good sec cap (fsd (ks s')) \<and> sfs_inv (files sec s') \<and> emptied (node (files sec s)) p (node (files sec s'))
    \<and> node (files sec s') c = None \<and> cwd s' = int c \<and> out s' = out s @ [Kprint (str ''rm: failed\<newline>'')]"
proof -
  note a = shell_atD [OF sh]
  let ?D = "files sec s"
  have ok: "fs_ok ?D" and t: "tree_ok (node ?D)" using a(2) by (auto simp: sfs_inv_def)
  have z: "0 \<notin> set DOTDOT" by (simp add: DOTDOT_def)
  from r(2) obtain ps where p: "p < 64" "node ?D p = Some (Dir ps)" by (auto simp: refs_def ref_def)
  from lookup_k [OF a(1) ok a(5) z] e E obtain f1 where f1: "on_fs (sfs_lookup (layer E) (int c) DOTDOT) s = Some (int p, put_fs f1 s)" "fs.at ?D f1" by auto
  have "sint (itype (d_inode ?D p)) = 2" using fs.dir_inode(1) [OF ok p] by simp
  with type_k [of ?D "put_fs f1 s" p] f1(2) p E obtain f2 where
    f2: "on_fs (sfs_type (layer E) (int p)) (put_fs f1 s) = Some (2, put_fs f2 s)" "fs.at ?D f2" by auto
  have "is_dir ?D p" using p by (simp add: is_dir_def)
  with rm_loop [OF E, of ?D "put_fs f2 s" p] f2(2) a(2) rooted_no_cycle [OF t r(1)] obtain q f3 D' where
    f3: "rm_go E (Inr (int p)) (put_fs f2 s) = Some (q, put_fs f3 s)" "fs.at D' f3" "sfs_inv D'" "emptied (node ?D) p (node D')" by auto
  have "on_fs (sfs_unlink (layer E) (int c) DOTDOT) (put_fs f3 s) = Some (- 1, put_fs f3 s)"
    by (simp add: on_fs_eq sfs_unlink_def DOTDOT_def)
  then have "rm_go E (Inl (int c, DOTDOT)) s = Some (- 1, put_fs f3 s)" using f1(1) f2(1) f3(1) by (subst rm_go.simps) simp
  moreover have "streq (str ''-r'') (str ''-r'')" by (simp add: streq_def str_def of_char_def)
  ultimately have "cmd_rm E [cmd, str ''-r'', DOTDOT] s = Some (puts ''rm: failed\<newline>'' (put_fs f3 s))" using a(4) by (simp add: cmd_rm_def rm_rec_def)
  moreover have "c \<in> below (node ?D) p" using r(2) by (auto simp: below_def)
  moreover have "c \<noteq> p" using tree_okD(2) [OF t] r(2) by (auto simp: refs_def)
  moreover have "bc_ok good sec cap f3" "blocks sec f3 = D'" using f3(2) by (auto simp: fs.at_def)
  ultimately show ?thesis using f3(3,4) a(4) refs_lt [OF t r(2)] by (intro exI [of _ "puts ''rm: failed\<newline>'' (put_fs f3 s)"]) (simp add: emptied_def puts_def)
qed

text \<open>\<^verbatim>\<open>mkdir\<close> and \<^verbatim>\<open>cd\<close> into the new directory.\<close>

lemma makes_dir:
  assumes sh: "shell_at good sec cap L c s" and E: "ports_of E = io" and g: "good_name name" "name \<noteq> []" "0x2F \<notin> set name"
    and e: "entry_of (files sec s) c name = None" and fr: "free_inode (files sec s)"
  shows "\<exists>s1 s2 k ks. cmd_mkdir E [cmd, name] s = Some s1 \<and> cmd_cd E (Some name) s1 = Some s2 \<and> shell_at good sec cap L k s2 \<and> out s2 = out s
    \<and> node (files sec s) k = None \<and> node (files sec s2) k = Some (Dir ks) \<and> dot_entries k c ks \<and> ref (node (files sec s2)) c name k
    \<and> (\<forall>j < 64. j \<noteq> k \<and> j \<noteq> c \<longrightarrow> node (files sec s2) j = node (files sec s) j)
    \<and> (\<forall>nm. nm \<noteq> name \<longrightarrow> entry_of (files sec s2) c nm = entry_of (files sec s) c nm)"
proof -
  note a = shell_atD [OF sh]
  let ?D = "files sec s"
  from a(5) obtain es where c: "c < 64" "node ?D c = Some (Dir es)" by (auto simp: is_dir_def)
  have ok: "fs_ok ?D" and t: "tree_ok (node ?D)" and z: "?D 0 = superblock" using a(2) by (auto simp: sfs_inv_def)
  have nm: "0 \<notin> set name" "take 27 name = name" "plain name" using g(1) by (auto simp: good_name_def)
  have fresh: "name \<notin> fst ` set es" using e c(2) by (simp add: entry_of_def map_of_eq_None_iff)
  then have "take 27 name \<notin> fst ` set es \<or> name \<in> fst ` set es" using nm(2) by simp
  from fs.sfs_create_wp [OF a(1) ok c nm(1) this, of 2] obtain r f D' where
    r: "sfs_create (cache_layer io) (int c) name 2 (fsd (ks s)) = Some (r, f)" "fs.at D' f" "create_post ?D c es name 2 r D'" by (auto simp: wp_def)
  from fr obtain k0 where k0: "k0 < 64" "node ?D k0 = None" by (auto simp: free_inode_def)
  from create_succeeds [OF r(3) ok t c fresh k0] nm(2) obtain k ks xs ys where k: "k < 64" "r = int k" "node ?D k = None" "node D' k = Some (Dir ks)" "dot_entries k c ks"
    "\<forall>j < 64. j \<noteq> k \<and> j \<noteq> c \<longrightarrow> node D' j = node ?D j" "es = xs @ ys" "node D' c = Some (Dir (xs @ (name, k) # ys))" by auto
  have i': "sfs_inv D'" using r(3) z tree_ok_create [OF t r(3) c(2,1)] by (auto simp: sfs_inv_def create_post_def)
  have m: "entry_of D' c n = (if n = name then Some k else entry_of ?D c n)" for n
    using map_of_insert_mid [of "(name, k)" xs ys n] fresh k(7,8) c(2) by (simp add: entry_of_def)
  have mk: "cmd_mkdir E [cmd, name] s = Some (put_fs f s)" using r(1) k(2) a(4) E by (simp add: cmd_mkdir_def on_fs_Some)
  have b: "disk_at D' (put_fs f s)" "fs_ok D'" "cwd (put_fs f s) = int c" using r(2) i' a(4) by (simp_all add: sfs_inv_def)
  from resolve_walks [OF b(1,2) E b(3) c(1) nm(1)] walk_name [OF g, of D' c] m [of name] obtain f1 where
    f1: "resolve E name (put_fs f s) = Some (int k, put_fs f1 s)" "fs.at D' f1" by auto
  have "sint (itype (d_inode D' k)) = 2" using fs.dir_inode(1) [OF b(2) k(1,4)] by simp
  with type_k [of D' "put_fs f1 s" k] f1(2) k(1) E obtain f2 where
    f2: "on_fs (sfs_type (layer E) (int k)) (put_fs f1 s) = Some (2, put_fs f2 s)" "fs.at D' f2" by auto
  let ?s = "(put_fs f2 s)\<lparr>cwd := int k\<rparr>"
  have cd: "cmd_cd E (Some name) (put_fs f s) = Some ?s" using f1(1) f2(1) g(2) by (simp add: cmd_cd_def)
  have h: "disk_at D' ?s" "heap_holds (the_heap ?s) L" "cwd ?s = int k" "is_dir D' k"
    using f2(2) a(3) k(1,4) by (simp_all add: is_dir_def the_heap_def put_fs_def)
  note at = shell_atI [OF h(1) i' h(2-4)]
  have "ref (node D') c name k" using c(1) nm(3) k(8) by (auto simp: ref_def)
  moreover have "out ?s = out s" by simp
  ultimately show ?thesis using mk cd at k(3-6) m by (intro exI [of _ "put_fs f s"] exI [of _ ?s] exI [of _ k] exI [of _ ks]) (simp only:, simp)
qed

end

section \<open>Properties\<close>

text \<open>C11. \<^verbatim>\<open>rm -r name\<close> ends and removes exactly the tree: in a directory that the root leads to, the recursion returns although each round
  restarts the scan of a directory that the round before has changed. Afterwards the entry \<open>name\<close> is gone from the current directory, its other entries are
  there in their order, every inode of the tree below \<open>name\<close> is free, every other inode is as it was, and nothing is printed.\<close>

theorem rm_removes_tree:
  assumes "sfs_disk (ports_of E) good sec cap" and "shell_at good sec cap L c s" and "(0, c) \<in> (refs (node (files sec s)))\<^sup>*"
    and "plain name" and "0 \<notin> set name" and "entry_of (files sec s) c name = Some k"
  shows "\<exists>s'. cmd_rm E [cmd, str ''-r'', name] s = Some s' \<and> shell_at good sec cap L c s' \<and> out s' = out s \<and> pruned (node (files sec s)) c name k (node (files sec s'))"
  by (rule sfs_disk.removes_tree [OF assms(1,2) refl assms(3-6)])

theorem rm_removes_tree_witness:
  "\<exists>s s'. file_of (files sim_sec s) 0 (str ''f'') = Some [] \<and> cmd_rm sim_env [str ''rm'', str ''-r'', str ''f''] s = Some s' \<and> out s' = []"
proof -
  from sim_with_file obtain s where s: "shell_at (\<lambda>d. s_phase d = Ready) sim_sec 32768 Map.empty 0 s" "file_of (files sim_sec s) 0 (str ''f'') = Some []" "out s = []" by blast
  obtain k where k: "entry_of (files sim_sec s) 0 (str ''f'') = Some k" using s(2) by (auto simp: file_of_def split: option.splits)
  have n: "plain (str ''f'')" "0 \<notin> set (str ''f'')" using sim_lines(7) by (simp_all add: good_name_def)
  from rm_removes_tree [OF sim_disk s(1) _ n k, of "str ''rm''"] s(2,3) show ?thesis by auto
qed

text \<open>\<^verbatim>\<open>mkdir d\<close> followed by \<^verbatim>\<open>cd d\<close>, with a new name and a free inode, puts the shell into a new directory that holds exactly the
  entries \<^verbatim>\<open>.\<close>, itself, and \<^verbatim>\<open>..\<close>, the directory it was made in. That directory has one entry more, and everything else is as it was.\<close>

theorem mkdir_cd:
  assumes "sfs_disk (ports_of E) good sec cap" and "shell_at good sec cap L c s" and "good_name name" and "name \<noteq> []" and "0x2F \<notin> set name"
    and "entry_of (files sec s) c name = None" and "free_inode (files sec s)"
  shows "\<exists>s1 s2 k ks. cmd_mkdir E [cmd, name] s = Some s1 \<and> cmd_cd E (Some name) s1 = Some s2 \<and> shell_at good sec cap L k s2 \<and> out s2 = out s
    \<and> node (files sec s) k = None \<and> node (files sec s2) k = Some (Dir ks) \<and> dot_entries k c ks \<and> ref (node (files sec s2)) c name k
    \<and> (\<forall>j < 64. j \<noteq> k \<and> j \<noteq> c \<longrightarrow> node (files sec s2) j = node (files sec s) j)
    \<and> (\<forall>nm. nm \<noteq> name \<longrightarrow> entry_of (files sec s2) c nm = entry_of (files sec s) c nm)"
  by (rule sfs_disk.makes_dir [OF assms(1,2) refl assms(3-7)])

theorem mkdir_cd_witness:
  "\<exists>f s1 s2. cmd_mkdir sim_env [str ''mkdir'', str ''f''] (sim_shell f) = Some s1 \<and> cmd_cd sim_env (Some (str ''f'')) s1 = Some s2 \<and> out s2 = [] \<and> cwd s2 \<noteq> 0"
proof -
  from sim_shell_ok obtain f where f: "shell_at (\<lambda>d. s_phase d = Ready) sim_sec 32768 Map.empty 0 (sim_shell f)"
    "\<forall>nm. plain nm \<longrightarrow> entry_of (files sim_sec (sim_shell f)) 0 nm = None" "free_inode (files sim_sec (sim_shell f))" using free_inodeI [of 0] by blast
  have e: "entry_of (files sim_sec (sim_shell f)) 0 (str ''f'') = None" using f(2) sim_lines(7) by (simp add: good_name_def)
  have o: "out (sim_shell f) = []" by (simp add: sim_shell_def sim_machine_def)
  have n: "node (files sim_sec (sim_shell f)) 0 \<noteq> None" using f(1) by (auto simp: shell_at_def is_dir_def)
  from mkdir_cd [OF sim_disk f(1) sim_lines(7-9) e f(3), of "str ''mkdir''"] obtain s1 s2 k where
    "cmd_mkdir sim_env [str ''mkdir'', str ''f''] (sim_shell f) = Some s1" "cmd_cd sim_env (Some (str ''f'')) s1 = Some s2"
    "shell_at (\<lambda>d. s_phase d = Ready) sim_sec 32768 Map.empty k s2" "out s2 = out (sim_shell f)" "node (files sim_sec (sim_shell f)) k = None" by blast
  moreover from this n have "cwd s2 \<noteq> 0" by (cases k) (auto simp: shell_at_def)
  ultimately show ?thesis using o by auto
qed

text \<open>C40. \<^verbatim>\<open>rm -r ..\<close> destroys what it then refuses to remove: in a directory \<open>c\<close> with parent \<open>p\<close> it empties \<open>p\<close>, so that \<open>c\<close> itself is freed, and only then
  fails on the name. It prints a failure, and the current directory is an inode that is free.\<close>

theorem rm_dotdot_frees_cwd:
  assumes "sfs_disk (ports_of E) good sec cap" and "shell_at good sec cap L c s" and "(0, p) \<in> (refs (node (files sec s)))\<^sup>*"
    and "(p, c) \<in> refs (node (files sec s))" and "entry_of (files sec s) c DOTDOT = Some p"
  shows "\<exists>s'. cmd_rm E [cmd, str ''-r'', DOTDOT] s = Some s' \<and> bc_ok good sec cap (fsd (ks s')) \<and> sfs_inv (files sec s') \<and> emptied (node (files sec s)) p (node (files sec s'))
    \<and> node (files sec s') c = None \<and> cwd s' = int c \<and> out s' = out s @ [Kprint (str ''rm: failed\<newline>'')]"
  by (rule sfs_disk.removes_parent [OF assms(1,2) refl assms(3-5)])

theorem rm_dotdot_frees_cwd_witness:
  "\<exists>(s :: ata_sim kernel) k s'. 0 < k \<and> cwd s = int k \<and> node (files sim_sec s) k \<noteq> None \<and> cmd_rm sim_env [str ''rm'', str ''-r'', DOTDOT] s = Some s'
    \<and> cwd s' = int k \<and> node (files sim_sec s') k = None"
proof -
  from sim_shell_ok obtain f where f: "shell_at (\<lambda>d. s_phase d = Ready) sim_sec 32768 Map.empty 0 (sim_shell f)"
    "\<forall>nm. plain nm \<longrightarrow> entry_of (files sim_sec (sim_shell f)) 0 nm = None" "free_inode (files sim_sec (sim_shell f))" using free_inodeI [of 0] by blast
  have e: "entry_of (files sim_sec (sim_shell f)) 0 (str ''f'') = None" using f(2) sim_lines(7) by (simp add: good_name_def)
  have n: "node (files sim_sec (sim_shell f)) 0 \<noteq> None" using f(1) by (auto simp: shell_at_def is_dir_def)
  from simfs.makes_dir [OF f(1) sim_boot(1) sim_lines(7-9) e f(3)] obtain s k ks where
    s: "shell_at (\<lambda>d. s_phase d = Ready) sim_sec 32768 Map.empty k s" "node (files sim_sec (sim_shell f)) k = None" "node (files sim_sec s) k = Some (Dir ks)" "dot_entries k 0 ks"
      "ref (node (files sim_sec s)) 0 (str ''f'') k" by blast
  have r: "(0, k) \<in> refs (node (files sim_sec s))" using s(5) by (auto simp: refs_def)
  have d: "entry_of (files sim_sec s) k DOTDOT = Some 0" using s(3,4) by (simp add: entry_of_def dot_entries_def)
  have "0 < k" using s(2) n by (cases k) auto
  then show ?thesis using rm_dotdot_frees_cwd [OF sim_disk s(1) _ r d, of "str ''rm''"] s(1,3) by (auto simp: shell_at_def)
qed

end
