(* ===== verification/Spec2Isabelle.thy ===== *)
theory Spec2Isabelle
  imports Pmm Green_Props Screen_Props Boot_Props Shell_Rm
begin

text \<open>
  A verification library for JacobOS, a small operating system for 32-bit x86 machines (under \<^verbatim>\<open>src/\<close>). The whole
  kernel written in C is modelled, with the assembly routines that the C code calls and returns from, and the user
  program shipped with it.

  \<^bold>\<open>The program and its parts.\<close> \<^verbatim>\<open>kernel/kernel.c\<close> starts the machine: it installs segments (\<^verbatim>\<open>cpu/gdt.c\<close>), interrupt gates and
  controllers (\<^verbatim>\<open>cpu/idt.c\<close>, \<^verbatim>\<open>cpu/isr.c\<close>), the frame allocator, paging and the heap (\<^verbatim>\<open>mem/\<close>), mounts the file system
  (\<^verbatim>\<open>fs/sfs.c\<close>) through the block cache (\<^verbatim>\<open>fs/bcache.c\<close>) and the disk driver (\<^verbatim>\<open>drivers/ata.c\<close>), creates tasks (\<^verbatim>\<open>kernel/task.c\<close>),
  starts the timer and hands over to the shell (\<^verbatim>\<open>kernel/shell.c\<close>). From then on everything is driven by interrupts: the
  timer calls the scheduler, and the keyboard driver (\<^verbatim>\<open>drivers/keyboard.c\<close>) edits a line and gives it to the shell, whose commands work on
  the file system, the heap, the tasks, the green threads (\<^verbatim>\<open>kernel/green.c\<close>) and the loader for user programs (\<^verbatim>\<open>kernel/elf.c\<close>,
  \<^verbatim>\<open>kernel/exec.c\<close>, \<^verbatim>\<open>cpu/syscall.c\<close>), and print through \<^verbatim>\<open>drivers/screen.c\<close>.

  \<^bold>\<open>Theories.\<close> Each opens with a text on what it holds; names of definitions are those of the C functions, and the loop of
  a function \<open>f\<close> is mostly called \<open>f_loop\<close>.

  \<^item> \<open>Prelude\<close>: integer types as words, byte memory with little-endian access, the weakest precondition \<open>wp\<close> of a partial call.
  \<^item> \<open>Cstring\<close> (\<^verbatim>\<open>lib/string.c\<close>): every routine on memory, and list versions shown equal to them.
  \<^item> \<open>Bitset\<close>, \<open>Ring\<close>, \<open>Heap_Store\<close>: interfaces as locales. \<open>bitset\<close> is interpreted on the frame bitmap and on the block bitmap, \<open>ring_store\<close> on
    both schedulers' control blocks, \<open>heap_store\<close> on \<^verbatim>\<open>kmalloc\<close> and \<^verbatim>\<open>kfree\<close>.
  \<^item> \<open>Pmm\<close>, \<open>Kheap\<close>, \<open>Paging\<close> (\<^verbatim>\<open>mem/\<close>): frame allocator, first-fit heap with its headers in memory, page directory.
  \<^item> \<open>Ata\<close>, \<open>Bcache\<close>: driver and cache. The locale \<open>ata_device\<close> is what the ATA standard says of the drive; it gives \<open>sector_disk\<close>, that gives \<open>block_store\<close>
    for the cache.
  \<^item> \<open>Sfs\<close> with \<open>Sfs_Layout\<close>, \<open>Sfs_Spec\<close>, \<open>Sfs_Ops\<close>, \<open>Sfs_Files\<close>, \<open>Sfs_Names\<close>, \<open>Sfs_Props\<close>: the file system function by function, its abstract state
    (\<open>node\<close>: a file with its bytes or a directory with its entries), the invariants \<open>fs_ok\<close> and \<open>tree_ok\<close>, and the effect of each operation on the
    abstract state, for any \<open>block_store\<close>.
  \<^item> \<open>Task\<close>, \<open>Task_Props\<close> (\<^verbatim>\<open>kernel/task.c\<close>, \<^verbatim>\<open>kernel/switch.asm\<close>) and \<open>Green\<close>, \<open>Green_Props\<close> (\<^verbatim>\<open>kernel/green.c\<close>): tasks and fibers, with stacks in the heap memory and the
    switch instruction by instruction.
  \<^item> \<open>Console\<close>, \<open>Screen\<close>, \<open>Screen_Props\<close>, \<open>Keyboard\<close>, \<open>Descriptors\<close>, \<open>Interrupts\<close>: the other drivers and the interrupt system. Components that print have the
    sequence of screen calls as their output; \<open>console_exec\<close> says what each does to the display.
  \<^item> \<open>Elf\<close>, \<open>Exec\<close>, \<open>Exec_Props\<close> (also \<^verbatim>\<open>kernel/usermode.asm\<close>, \<^verbatim>\<open>user/hello.c\<close>): loading, entering and leaving a user program, system calls.
  \<^item> \<open>Shell\<close>, \<open>Shell_Files\<close>, \<open>Shell_Props\<close>, \<open>Shell_Cmds\<close>, \<open>Shell_Rm\<close>: all commands, files by name, arguments and paths, and the commands on files.
  \<^item> \<open>Kernel\<close>, \<open>Kernel_Props\<close>, \<open>Boot_Props\<close>: \<^verbatim>\<open>main\<close> as the composition of everything, followed to the idle loop.

  \<^bold>\<open>What is shown.\<close>

  \<^item> Memory: \<^verbatim>\<open>kmalloc\<close> and \<^verbatim>\<open>kfree\<close> refine operations on a list of blocks, return, and keep held blocks apart in every history; frames handed out are
    above the reserved area and not in use; ring 3 reaches exactly the pages marked for it.
  \<^item> Storage: the driver reads back what it writes; the cache is transparent and its sync durable; every history of file system calls keeps the disk
    consistent; writes, creations and removals do what they say and nothing else; the names cut at 27 bytes and the ignored read errors are shown as they are.
  \<^item> Scheduling: the ring of tasks and the stacks are safe in every history, a switch resumes exactly the suspended context, scheduling is round robin and every
    task runs; green threads run to completion as a queue would run them.
  \<^item> Drivers: the screen is a terminal of 25 lines and is never left, the keyboard is a line editor, interrupts are acknowledged and dispatched.
  \<^item> Programs: sane images are loaded as the reference loader loads them, a program comes back with the kernel intact, and the greeting program prints its text;
    a bad segment size and a wrapping length make the kernel fault.
  \<^item> Shell and boot: a line is split into words, a path is walked, \<^verbatim>\<open>cat\<close> prints what \<^verbatim>\<open>echo\<close> wrote, \<^verbatim>\<open>rm -r\<close> ends and removes exactly a tree; \<^verbatim>\<open>mv\<close> onto a
    directory loses the file and \<^verbatim>\<open>rm -r ..\<close> frees the current directory. \<^verbatim>\<open>main\<close> reaches its idle loop from the state the boot loader leaves, and the boot
    counter counts over any number of boots. At the end of this theory the interrupt of the enter key is followed through the driver, the shell, the file system, the cache and
    the driver of the disk.

  \<^bold>\<open>Loops, faults and bounds.\<close> Loops over counters and buffers are structural recursions or functions with a measure. Loops whose end depends on memory, on a device or on
  the disk (list traversals, polling, directory scans, the recursion of \<^verbatim>\<open>rm -r\<close>) are \<^theory_text>\<open>partial_function (option)\<close>: \<open>None\<close> is a call that does not
  return, and the theorems show that they return where they do. No fuel is used. \<open>None\<close> also stands for an access outside a buffer or a page fault, at which the
  machine stops. C integers are words of their width where they can wrap; the \<^verbatim>\<open>int\<close> values that stay small are integers, and signed
  overflow, undefined in C, is \<open>None\<close>. The numbers of blocks (2064), inodes (64), cells (2000), slots (32) and frames (8192) are those of the code.

  \<^bold>\<open>Parameters.\<close> The hardware behind the port instructions is the record \<open>io\<close> on a device state, constrained by \<open>ata_device\<close>, \<open>pic_laws\<close> and \<open>quiet_ports\<close>; a simulated
  disk and simulated controllers satisfy them and serve the witnesses. Addresses chosen by the linker, what a task, a fiber or a ring-3 program does between two
  switches, and the flags register are arguments. How the processor reads segment descriptors, gates and page directory entries is written out
  (\<open>Descriptors\<close>, \<open>Paging\<close>) from their documented formats.

  \<^bold>\<open>Not modelled.\<close> The boot loader (\<^verbatim>\<open>boot/\<close>) and \<^verbatim>\<open>kernel/kernel_entry.asm\<close>: what they leave is the hypothesis \<open>powered_on\<close>. The interrupt stubs of \<^verbatim>\<open>cpu/interrupt.asm\<close>: the handlers
  are modelled from the call on, and an interrupt between two C statements is not; what the code protects with \<^verbatim>\<open>cli\<close> and \<^verbatim>\<open>sti\<close> is modelled as one step. The C compiler's
  use of the stack: the depth of calls, as in \<^verbatim>\<open>rm_rec\<close>, is not bounded. Caches and timing of the processor. The build files and the page that runs the system in a
  browser. Lines of the headers that only declare prototypes and numeric constants have no definition of their own; the constants stand in the definitions that use them.
\<close>

section \<open>From the keyboard to the disk\<close>

text \<open>Reading the keyboard's port leaves the disk as it is.\<close>

definition quiet_keyboard :: "'d io \<Rightarrow> ('d \<Rightarrow> bool) \<Rightarrow> ('d \<Rightarrow> disk) \<Rightarrow> bool" where
  "quiet_keyboard io good sec \<longleftrightarrow> (\<forall>d. good d \<longrightarrow> good (snd (inb io 0x60 d)) \<and> sec (snd (inb io 0x60 d)) = sec d)"

text \<open>A key interrupt in the running kernel: the controller is acknowledged, the editor takes the key, and a complete line goes to the shell.\<close>

lemma key_interrupt:
  assumes h: "handlers_on (ir s)" and k: "kbd_ok (kbd (ir s))" and r: "r_int_no r = 33"
    and d: "inb (ports_of E) 0x60 (outb (ports_of E) 0x20 0x20 (the_dev s)) = (sc, d)" and e: "edit_key sc (ed_of (kbd (ir s))) = ((cs, line), ed)"
  shows "\<exists>kb i. kernel_irq E r s = (let s = say cs (set_dev d (s\<lparr>ir := i\<rparr>)) in case line of None \<Rightarrow> Some s | Some l \<Rightarrow> shell_handle_line E l s)
    \<and> kbd i = kb \<and> kbd_ok kb \<and> ed_of kb = ed"
proof -
  from keyboard_key_ok [OF k, of sc] e obtain kb where kb: "keyboard_key sc (kbd (ir s)) = Some ((cs, line), kb)" "kbd_ok kb" "ed_of kb = ed" by auto
  let ?i = "(ir s)\<lparr>tasks := kt (ks s), kbd := kb\<rparr>"
  have n: "unat (r_int_no r) = 33" "\<not> 40 \<le> r_int_no r" using r by simp_all
  have "irq_handler (cds E) (ports_of E) r ((ir s)\<lparr>tasks := kt (ks s)\<rparr>, the_dev s) = Some ((cs, line), ?i, d)"
    using h d kb(1) n by (simp add: irq_handler_def handlers_on_def call_handler_def keyboard_callback_def Let_def)
  moreover have "set_kt (kt (ks s)) (s\<lparr>ir := i\<rparr>) = s\<lparr>ir := i\<rparr>" for i by (simp add: set_kt_def)
  ultimately have "kernel_irq E r s = (let s = say cs (set_dev d (s\<lparr>ir := ?i\<rparr>)) in case line of None \<Rightarrow> Some s | Some l \<Rightarrow> shell_handle_line E l s)"
    by (simp add: kernel_irq_def Let_def split: option.split)
  then show ?thesis using kb(2,3) by (intro exI [of _ kb] exI [of _ ?i]) simp
qed

lemma enter_submits: "edit_key 0x1C ed = (([Kputc 0x0A], Some (ed_text ed)), ed\<lparr>ed_text := []\<rparr>)"
  by (simp add: edit_key_def key_symbol_def lower_eq upper_eq is_letter_iff Let_def)

lemma shell_at_dev:
  assumes "shell_at good sec cap L c s" and "good d" and "sec d = sec (the_dev s)"
  shows "shell_at good sec cap L c (say cs (set_dev d (s\<lparr>ir := i\<rparr>)))" and "files sec (say cs (set_dev d (s\<lparr>ir := i\<rparr>))) = files sec s"
  using assms blocks_dev [of sec d "fsd (ks s)"] by (auto simp: shell_at_def bc_ok_def set_dev_def the_dev_def the_heap_def say_def)

definition prompt_lines :: console where
  "prompt_lines = [Set_color (VGA_COLOR VGA_LIGHT_GREEN VGA_BLACK), Kprint (str ''/''), Kprint (str '' $ ''), Set_color (VGA_COLOR VGA_LIGHT_GREY VGA_BLACK)]"

lemma prompt_root: "cwd s = 0 \<Longrightarrow> prompt E s = Some (say prompt_lines s)"
  by (simp add: prompt_def print_cwd_def puts_def prompt_lines_def Let_def)

text \<open>C2. From the keyboard to the disk: when the line \<open>echo w1 ... wn > f\<close> stands in the line editor of the running kernel, at the root directory, the interrupt of the
  enter key acknowledges the controller, echoes the newline, runs the command and returns. Then \<open>f\<close> holds the words, already on the disk and with every other file
  unchanged, the editor is empty, and the prompt has been printed.\<close>

theorem enter_runs_line:
  assumes "sfs_disk (ports_of E) good sec cap" and "quiet_ports (ports_of E) good sec" and "quiet_keyboard (ports_of E) good sec"
    and "shell_at good sec cap L 0 s" and "handlers_on (ir s)" and "kbd_ok (kbd (ir s))" and "r_int_no r = 33"
    and "fst (inb (ports_of E) 0x60 (outb (ports_of E) 0x20 0x20 (the_dev s))) = 0x1C"
    and "good_name f" and "f \<noteq> []" and "0x2F \<notin> set f" and "entry_of (files sec s) 0 f = None \<and> free_inode (files sec s) \<or> file_of (files sec s) 0 f \<noteq> None"
    and "ref_args 16 (ed_text (ed_of (kbd (ir s)))) = str ''echo'' # ws @ [str ''>'', f]" and "\<forall>w \<in> set ws. w \<noteq> str ''>'' \<and> w \<noteq> str ''>>''"
  shows "\<exists>s'. kernel_irq E r s = Some s' \<and> shell_at good sec cap L 0 s' \<and> file_of (files sec s') 0 f = Some (take 255 (spaced ws))
    \<and> same_but 0 f (files sec s) (files sec s') \<and> sec (the_dev s') = files sec s' \<and> ed_text (ed_of (kbd (ir s'))) = [] \<and> kbd_ok (kbd (ir s'))
    \<and> out s' = out s @ [Kputc 0x0A] @ prompt_lines"
proof -
  let ?ed = "ed_of (kbd (ir s))"
  obtain d where d: "inb (ports_of E) 0x60 (outb (ports_of E) 0x20 0x20 (the_dev s)) = (0x1C, d)" using assms(8) by (metis prod.collapse)
  have "good (the_dev s)" using assms(4) by (simp add: shell_at_def bc_ok_def the_dev_def)
  then have "good (outb (ports_of E) 0x20 0x20 (the_dev s))" "sec (outb (ports_of E) 0x20 0x20 (the_dev s)) = sec (the_dev s)"
    using assms(2) by (auto simp: quiet_ports_def)
  then have dd: "good d" "sec d = sec (the_dev s)" using assms(3) d unfolding quiet_keyboard_def by (metis snd_conv)+
  from key_interrupt [OF assms(5-7) d enter_submits] obtain i where
    i: "kernel_irq E r s = shell_handle_line E (ed_text ?ed) (say [Kputc 0x0A] (set_dev d (s\<lparr>ir := i\<rparr>)))" "kbd_ok (kbd i)" "ed_of (kbd i) = ?ed\<lparr>ed_text := []\<rparr>"
    by (auto simp: Let_def)
  let ?s = "say [Kputc 0x0A] (set_dev d (s\<lparr>ir := i\<rparr>))"
  note at = shell_at_dev [OF assms(4) dd, of "[Kputc 0x0A]" i]
  have z: "0 \<notin> set (ed_text ?ed)" using assms(6) by (simp add: kbd_ok_def ed_of_def)
  from sfs_disk.echoes [OF assms(1) at(1) refl assms(9-11) _ z assms(13,14)] at(2) assms(12) obtain s1 where
    s1: "run_command E (ed_text ?ed) ?s = Some s1" "shell_at good sec cap L 0 s1" "out s1 = out ?s" "ir s1 = ir ?s"
      "same_but 0 f (files sec s) (files sec s1)" "file_of (files sec s1) 0 f = Some (take 255 (spaced ws))" "sec (dev (fsd (ks s1))) = files sec s1" by auto
  have "cwd s1 = 0" using s1(2) by (simp add: shell_at_def)
  then have "kernel_irq E r s = Some (say prompt_lines s1)" using i(1) s1(1) by (simp add: shell_handle_line_def prompt_root)
  moreover have "shell_at good sec cap L 0 (say prompt_lines s1)" using s1(2) by (simp add: shell_at_def)
  moreover have "ir ?s = i" "out ?s = out s @ [Kputc 0x0A]" by (simp_all add: set_dev_def say_def)
  ultimately show ?thesis using s1(3-7) i(2,3) by (intro exI [of _ "say prompt_lines s1"]) (simp add: the_dev_def)
qed

text \<open>The simulated disk with a keyboard on which the enter key is pressed.\<close>

definition typing_io :: "ata_sim io" where
  "typing_io = sim_io\<lparr>inb := (\<lambda>p d. if p = 0x60 then (0x1C, d) else sim_inb p d)\<rparr>"

interpretation typing: ata_device typing_io s_busy s_reg s_phase sim_sec 32768
proof unfold_locales
  fix d d' :: ata_sim and bs lba
  assume "s_busy d = 0" "s_phase d = DataOut" "selects (s_reg d) lba" "length bs = 512" "d' = outsw typing_io 0x1F0 bs d"
  then show "s_phase d' = Ready \<and> sim_sec d' = (sim_sec d)(lba := bs)"
    by (auto simp: typing_io_def sim_io_def sim_sec_def selects_def sim_lba_def)
qed (auto simp: typing_io_def sim_io_def sim_inb_def sim_outb_def sim_sec_def sim_lba_def selects_def bit_numeral_rec fun_eq_iff split: if_splits)

interpretation typingfs: sfs_disk typing_io "\<lambda>d. s_phase d = Ready" sim_sec 32768
  by unfold_locales simp

theorem enter_runs_line_witness:
  "\<exists>(s :: ata_sim kernel) s'. kernel_irq (sim_env\<lparr>ports_of := typing_io\<rparr>) (zero_regs\<lparr>r_int_no := 33\<rparr>) s = Some s'
    \<and> file_of (sim_sec (the_dev s')) 0 (str ''f'') = Some (str ''hi'')"
proof -
  from sim_shell_ok obtain f where f: "shell_at (\<lambda>d. s_phase d = Ready) sim_sec 32768 Map.empty 0 (sim_shell f)"
    "\<forall>nm. plain nm \<longrightarrow> entry_of (files sim_sec (sim_shell f)) 0 nm = None" "free_inode (files sim_sec (sim_shell f))" using free_inodeI [of 0] by blast
  let ?l = "str ''echo hi > f''"
  let ?kb = "kbd_start\<lparr>line_buf := ?l @ replicate 117 0, line_len := 11\<rparr>"
  let ?s = "(sim_shell f)\<lparr>ir := idle_isys\<lparr>interrupt_handlers := (replicate 256 None)[33 := Some Keyboard_callback, 32 := Some Timer_callback], kbd := ?kb\<rparr>\<rparr>"
  let ?E = "sim_env\<lparr>ports_of := typing_io\<rparr>"
  have s: "shell_at (\<lambda>d. s_phase d = Ready) sim_sec 32768 Map.empty 0 ?s" "files sim_sec ?s = files sim_sec (sim_shell f)" using f(1) by (simp_all add: shell_at_def the_heap_def)
  have l: "length ?l = 11" by (simp add: str_def)
  have kb: "kbd_ok (kbd (ir ?s))" "ed_text (ed_of (kbd (ir ?s))) = ?l" "handlers_on (ir ?s)"
    using sim_lines(3) l by (simp_all add: kbd_ok_def ed_of_def handlers_on_def kbd_start_def keyboard_set_line_handler_def)
  have q: "sfs_disk (ports_of ?E) (\<lambda>d. s_phase d = Ready) sim_sec 32768" "quiet_ports (ports_of ?E) (\<lambda>d. s_phase d = Ready) sim_sec" "quiet_keyboard (ports_of ?E) (\<lambda>d. s_phase d = Ready) sim_sec"
    "fst (inb (ports_of ?E) 0x60 (outb (ports_of ?E) 0x20 0x20 (the_dev ?s))) = 0x1C" "r_int_no (zero_regs\<lparr>r_int_no := 33\<rparr>) = 33"
    using typingfs.sfs_disk_axioms sim_boot(2) by (simp_all add: typing_io_def quiet_ports_def quiet_keyboard_def)
  have e: "entry_of (files sim_sec ?s) 0 (str ''f'') = None \<and> free_inode (files sim_sec ?s) \<or> file_of (files sim_sec ?s) 0 (str ''f'') \<noteq> None"
    using f(2,3) sim_lines(7) s(2) by (simp add: good_name_def)
  have w: "\<forall>w \<in> set [str ''hi'']. w \<noteq> str ''>'' \<and> w \<noteq> str ''>>''" using sim_lines(5,6) by simp
  from enter_runs_line [OF q(1-3) s(1) kb(3,1) q(5,4) sim_lines(7-9) e, unfolded kb(2), OF sim_lines(1) w] sim_lines(10) obtain s' where
    "kernel_irq ?E (zero_regs\<lparr>r_int_no := 33\<rparr>) ?s = Some s'" "file_of (files sim_sec s') 0 (str ''f'') = Some (str ''hi'')" "sim_sec (the_dev s') = files sim_sec s'" by auto
  then show ?thesis by (intro exI [of _ ?s] exI [of _ s']) simp
qed

end
